(* ===== verification/Prelude.thy ===== *)
theory Prelude
  imports Main "HOL-Library.Multiset" "HOL-Library.Word"
begin

text \<open>
  Lemmas and conventions every component shares: bit masks on indices, residues of
  nearby indices, and labelled transition systems with their runs. A concurrent component
  is a labelled step relation; a run of it is a list of labels. The locale
  \<open>task_pool\<close> is the contract of anything that tasks are put into and taken out
  of; its conclusion is that tasks are conserved along every run.
\<close>

unbundle bit_operations_syntax

named_theorems idx_simps \<open>index arithmetic of ring buffers\<close>

section \<open>Index arithmetic\<close>

lemma int_and_mask [idx_simps]: "i AND (2 ^ k - 1) = i mod 2 ^ k" for i :: int
  by (simp add: take_bit_eq_mod [symmetric] take_bit_eq_mask mask_eq_exp_minus_1)

lemma push_bit_one_int [idx_simps]: "push_bit k 1 = (2 ^ k :: int)"
  by (simp add: push_bit_eq_mult)

lemma nat_mod_less [simp]: "nat (i mod 2 ^ k) < 2 ^ k" for i :: int
  using pos_mod_bound [of "2 ^ k" i] by (simp add: nat_less_iff)

text \<open>Two indices less than the capacity apart never share a slot.\<close>

lemma mod_eq_close:
  fixes i j m :: int
  assumes "i mod m = j mod m" and "\<bar>i - j\<bar> < m"
  shows "i = j"
proof (rule ccontr)
  assume "i \<noteq> j"
  moreover have "m dvd i - j"
    using assms(1) by (simp add: mod_eq_dvd_iff)
  ultimately have "\<bar>m\<bar> \<le> \<bar>i - j\<bar>"
    using dvd_imp_le_int [of "i - j" m] by simp
  with assms(2) show False by simp
qed

lemma nat_mod_eq_close:
  fixes i j :: int
  assumes "nat (i mod 2 ^ k) = nat (j mod 2 ^ k)" and "\<bar>i - j\<bar> < 2 ^ k"
  shows "i = j"
proof (rule mod_eq_close [OF _ assms(2)])
  show "i mod 2 ^ k = j mod 2 ^ k"
    using assms(1) by (metis (no_types) nat_0_le pos_mod_sign zero_less_numeral zero_less_power)
qed

text \<open>Ascending integer intervals, as the loops over ring indices walk them.\<close>

lemma upto_snoc: "i \<le> j + 1 \<Longrightarrow> [i..j + 1] = [i..j] @ [j + 1]" for i j :: int
  using upto_rec2 [of i "j + 1"] by simp

lemma upto_last: "i \<le> j \<Longrightarrow> [i..j] = [i..j - 1] @ [j]" for i j :: int
  by (rule upto_rec2)

text \<open>Calling an operation \<open>n\<close> times, collecting its results.\<close>

primrec repeat_op :: "('d \<Rightarrow> 'r \<times> 'd) \<Rightarrow> nat \<Rightarrow> 'd \<Rightarrow> 'r list \<times> 'd" where
  "repeat_op f 0 d = ([], d)"
| "repeat_op f (Suc n) d =
     (let (r, d1) = f d; (rs, d2) = repeat_op f n d1 in (r # rs, d2))"

section \<open>Totals over the threads\<close>

text \<open>
  The state of a group of threads is the list of their program counters; a counter shared by
  them is related to the sum of what each contributes.
\<close>

definition sum_over :: "('p \<Rightarrow> 'm::comm_monoid_add) \<Rightarrow> 'p list \<Rightarrow> 'm" where
  "sum_over f ps = sum_list (map f ps)"

lemma sum_over_simps [simp]:
  "sum_over f [] = 0"
  "sum_over f (p # ps) = f p + sum_over f ps"
  "sum_over f (ps @ qs) = sum_over f ps + sum_over f qs"
  by (simp_all add: sum_over_def)

lemma sum_over_update:
  "w < length ps \<Longrightarrow> sum_over f (ps[w := p]) + f (ps ! w) = sum_over f ps + f p"
proof (induction ps arbitrary: w)
  case (Cons q ps)
  show ?case
  proof (cases w)
    case (Suc k)
    have "f q + (sum_over f (ps[k := p]) + f (ps ! k)) = f q + (sum_over f ps + f p)"
      using Cons Suc by simp
    then show ?thesis using Suc by (simp add: add.assoc)
  qed (simp add: ac_simps)
qed simp

lemma sum_over_update_int:
  fixes f :: "'p \<Rightarrow> int"
  shows "w < length ps \<Longrightarrow> sum_over f (ps[w := p]) = sum_over f ps + f p - f (ps ! w)"
  using sum_over_update [of w ps f p] by simp

lemma sum_over_update_same:
  fixes f :: "'p \<Rightarrow> 'm::cancel_comm_monoid_add"
  shows "w < length ps \<Longrightarrow> f p = f (ps ! w) \<Longrightarrow> sum_over f (ps[w := p]) = sum_over f ps"
  using sum_over_update [of w ps f p] by simp

lemma sum_over_update_add:
  fixes f :: "'p \<Rightarrow> 'm::cancel_comm_monoid_add"
  shows "w < length ps \<Longrightarrow> f (ps ! w) = 0 \<Longrightarrow> sum_over f (ps[w := p]) = sum_over f ps + f p"
  using sum_over_update [of w ps f p] by simp

lemma sum_over_update_remove:
  fixes f :: "'p \<Rightarrow> 'm::cancel_comm_monoid_add"
  shows "w < length ps \<Longrightarrow> f p = 0 \<Longrightarrow> sum_over f ps = sum_over f (ps[w := p]) + f (ps ! w)"
  using sum_over_update [of w ps f p] by simp

text \<open>Two exchanges that cancel.\<close>

lemma exchange_cancel:
  assumes "a + c = a' + c'" and "b + c' = b' + c"
  shows "a + b = a' + (b' :: 't multiset)"
proof (rule multiset_eqI)
  fix x
  have "count (a + c) x = count (a' + c') x" "count (b + c') x = count (b' + c) x"
    using assms by simp_all
  then show "count (a + b) x = count (a' + b') x" by simp
qed

lemma sum_over_exchange:
  fixes f :: "'p \<Rightarrow> 'a multiset"
  assumes "w < length ps" and "f p + x = f (ps ! w) + y"
  shows "sum_over f (ps[w := p]) + x = sum_over f ps + y"
  using exchange_cancel [of "sum_over f (ps[w := p])" "f (ps ! w)" "sum_over f ps" "f p" x y]
    sum_over_update [of w ps f p] assms by (simp add: ac_simps)

text \<open>One thread's share, and the others'.\<close>

lemma sum_over_split:
  fixes f :: "'p \<Rightarrow> 'a multiset"
  assumes "w < length ps"
  shows "\<exists>rest. sum_over f ps = f (ps ! w) + rest \<and> (\<forall>p. sum_over f (ps[w := p]) = f p + rest)"
proof -
  have eq: "sum_over f (ps[w := p]) + f (ps ! w) = sum_over f ps + f p" for p
    by (rule sum_over_update [OF assms])
  have "sum_over f (ps[w := ps ! w]) = sum_over f ps" by simp
  have "f (ps ! w) \<subseteq># sum_over f ps"
    using assms by (induction ps arbitrary: w) (auto simp: nth_Cons' intro: subset_mset.add_increasing subset_mset.add_increasing2)
  then obtain rest where rest: "sum_over f ps = f (ps ! w) + rest"
    by (metis subset_mset.add_diff_inverse)
  have "sum_over f (ps[w := p]) = f p + rest" for p
    using eq [of p] rest by (simp add: ac_simps)
  with rest show ?thesis by blast
qed

lemma sum_over_cong: "map f ps = map f qs \<Longrightarrow> sum_over f ps = sum_over f qs"
  by (simp add: sum_over_def)

lemma sum_over_nonneg: "(\<And>p. 0 \<le> f p) \<Longrightarrow> 0 \<le> sum_over f ps" for f :: "'p \<Rightarrow> int"
  by (induction ps) (auto intro: add_nonneg_nonneg)

lemma sum_over_member_le: "(\<And>p. 0 \<le> f p) \<Longrightarrow> p \<in> set ps \<Longrightarrow> f p \<le> sum_over f ps" for f :: "'p \<Rightarrow> int"
  by (induction ps) (auto intro: add_increasing add_increasing2 sum_over_nonneg)

lemma sum_over_mono:
  fixes f g :: "'p \<Rightarrow> 'a multiset"
  shows "(\<And>b. f b \<subseteq># g b) \<Longrightarrow> sum_over f bs \<subseteq># sum_over g bs"
  by (induction bs) (auto intro: subset_mset.add_mono)

lemma sum_over_zero: "(\<And>p. p \<in> set ps \<Longrightarrow> f p = 0) \<Longrightarrow> sum_over f ps = 0"
  by (induction ps) auto

lemma sum_over_replicate_zero: "f b = 0 \<Longrightarrow> sum_over f (replicate k b) = 0"
  by (rule sum_over_zero) (auto dest: in_set_replicate [THEN iffD1])

lemma sum_over_exchange_plus:
  fixes f :: "'p \<Rightarrow> 'a multiset"
  assumes "w < length ps" and "f p + F' = f (ps ! w) + F + x"
  shows "F' + sum_over f (ps[w := p]) = F + sum_over f ps + x"
  using sum_over_exchange [of w ps f p F' "F + x"] assms by (simp add: ac_simps)

section \<open>Labelled transition systems\<close>

inductive lts_run :: "('s \<Rightarrow> 'l \<Rightarrow> 's \<Rightarrow> bool) \<Rightarrow> 's \<Rightarrow> 'l list \<Rightarrow> 's \<Rightarrow> bool"
  for step :: "'s \<Rightarrow> 'l \<Rightarrow> 's \<Rightarrow> bool" and s0 :: 's
where
  run_nil: "lts_run step s0 [] s0"
| run_snoc: "lts_run step s0 ls s \<Longrightarrow> step s l s' \<Longrightarrow> lts_run step s0 (ls @ [l]) s'"

lemma lts_run_invariant:
  assumes run: "lts_run step s0 ls s"
    and base: "P s0"
    and keep: "\<And>s l s'. P s \<Longrightarrow> step s l s' \<Longrightarrow> P s'"
  shows "P s"
  using run by induction (auto intro: base keep)

lemma lts_run_snoc_iff:
  "lts_run step s0 (ls @ [l]) s' \<longleftrightarrow> (\<exists>s. lts_run step s0 ls s \<and> step s l s')"
proof
  assume "lts_run step s0 (ls @ [l]) s'"
  then show "\<exists>s. lts_run step s0 ls s \<and> step s l s'"
    by (cases rule: lts_run.cases) auto
qed (auto intro: run_snoc)

lemma lts_run_Nil_iff: "lts_run step s0 [] s \<longleftrightarrow> s = s0"
  by (auto intro: run_nil elim: lts_run.cases)

lemma lts_run_append:
  "lts_run step s1 ls2 s2 \<Longrightarrow> lts_run step s0 ls1 s1 \<Longrightarrow> lts_run step s0 (ls1 @ ls2) s2"
  by (induction rule: lts_run.induct) (auto intro: run_snoc simp flip: append_assoc)

lemma lts_run_Cons:
  "step s0 l s1 \<Longrightarrow> lts_run step s1 ls s2 \<Longrightarrow> lts_run step s0 (l # ls) s2"
  using lts_run_append [of step s1 ls s2 s0 "[l]"] run_snoc [OF run_nil, of step s0 l s1]
  by simp

text \<open>
  A schedule says who moves next; a machine that computes the move of each replays it. The
  replay is a run, so a concrete run is a computation.
\<close>

primrec replay :: "('a \<Rightarrow> 's \<Rightarrow> ('l \<times> 's) option) \<Rightarrow> 'a list \<Rightarrow> 's \<Rightarrow> ('l list \<times> 's) option" where
  "replay f [] s = Some ([], s)"
| "replay f (a # as) s =
     (case f a s of None \<Rightarrow> None
      | Some (l, s1) \<Rightarrow> (case replay f as s1 of None \<Rightarrow> None | Some (ls, s2) \<Rightarrow> Some (l # ls, s2)))"

lemma replay_run:
  assumes "\<And>a s l s'. f a s = Some (l, s') \<Longrightarrow> step s l s'"
  shows "replay f as s = Some (ls, s') \<Longrightarrow> lts_run step s ls s'"
proof (induction as arbitrary: s ls)
  case (Cons a as)
  from Cons.prems obtain l s1 ls1
    where one: "f a s = Some (l, s1)" and rest: "replay f as s1 = Some (ls1, s')" and "ls = l # ls1"
    by (auto split: option.splits)
  with lts_run_Cons [OF assms [OF one] Cons.IH [OF rest]] show ?case by simp
qed (simp add: run_nil)

text \<open>The same, passing over threads that cannot move.\<close>

primrec play :: "('a \<Rightarrow> 's \<Rightarrow> ('l \<times> 's) option) \<Rightarrow> 'a list \<Rightarrow> 's \<Rightarrow> 'l list \<times> 's" where
  "play f [] s = ([], s)"
| "play f (a # as) s =
     (case f a s of None \<Rightarrow> play f as s
      | Some (l, s1) \<Rightarrow> (case play f as s1 of (ls, s2) \<Rightarrow> (l # ls, s2)))"

lemma play_run:
  assumes "\<And>a s l s'. f a s = Some (l, s') \<Longrightarrow> step s l s'"
  shows "play f as s = (ls, s') \<Longrightarrow> lts_run step s ls s'"
proof (induction as arbitrary: s ls)
  case (Cons a as)
  show ?case
  proof (cases "f a s")
    case None
    with Cons show ?thesis by simp
  next
    case (Some r)
    obtain l s1 where r: "r = (l, s1)" by fastforce
    obtain ls1 s2 where rest: "play f as s1 = (ls1, s2)" by fastforce
    with Cons.prems Some r have "ls = l # ls1" "s2 = s'" by auto
    with lts_run_Cons [OF assms [OF Some [unfolded r]] Cons.IH [of s1 ls1]] rest show ?thesis by simp
  qed
qed (simp add: run_nil)

lemma lts_run_prefix: "lts_run step s0 (ls @ ls') s \<Longrightarrow> \<exists>s1. lts_run step s0 ls s1"
proof (induction ls' arbitrary: s rule: rev_induct)
  case (snoc l ls')
  then show ?case by (auto simp: lts_run_snoc_iff simp flip: append_assoc)
qed auto

section \<open>Conservation of tasks\<close>

text \<open>
  Everything a task can be handed to (the deque, the ring, the locked queue) is a
  \<open>task_pool\<close>: a step system whose labels say which tasks were put in and which were
  handed out by a step, and a multiset of the tasks it holds. One law relates them.
\<close>

definition tally :: "('l \<Rightarrow> 't multiset) \<Rightarrow> 'l list \<Rightarrow> 't multiset" where
  "tally f ls = sum_list (map f ls)"

lemma tally_simps [simp]:
  "tally f [] = {#}"
  "tally f (l # ls) = f l + tally f ls"
  "tally f (ls @ ls') = tally f ls + tally f ls'"
  by (simp_all add: tally_def)

locale task_pool =
  fixes init :: 's
    and step :: "'s \<Rightarrow> 'l \<Rightarrow> 's \<Rightarrow> bool"
    and inv :: "'s \<Rightarrow> bool"
    and content :: "'s \<Rightarrow> 't multiset"
    and puts :: "'l \<Rightarrow> 't multiset"
    and takes :: "'l \<Rightarrow> 't multiset"
  assumes inv_init: "inv init"
    and content_init: "content init = {#}"
    and inv_step: "inv s \<Longrightarrow> step s l s' \<Longrightarrow> inv s'"
    and content_step: "inv s \<Longrightarrow> step s l s' \<Longrightarrow> content s' + takes l = content s + puts l"
begin

lemma run_inv:
  assumes "lts_run step init ls s"
  shows "inv s"
  using assms by induction (auto intro: inv_init inv_step)

lemma conservation:
  assumes "lts_run step init ls s"
  shows "tally puts ls = content s + tally takes ls"
  using assms
proof (induction rule: lts_run.induct)
  case run_nil
  then show ?case by (simp add: content_init)
next
  case (run_snoc ls s l s')
  from run_snoc.hyps have "inv s" by (blast intro: run_inv)
  from content_step [OF this run_snoc.hyps(2)] run_snoc.IH
  show ?case by (simp add: ac_simps)
qed

lemma takes_subset: "lts_run step init ls s \<Longrightarrow> tally takes ls \<subseteq># tally puts ls"
  by (simp add: conservation)

lemma no_duplicate_takes:
  assumes "lts_run step init ls s" and "count (tally puts ls) x \<le> 1"
  shows "count (tally takes ls) x + count (content s) x \<le> 1"
  using assms conservation [of ls s] by simp

lemma all_taken_iff_empty:
  "lts_run step init ls s \<Longrightarrow> tally takes ls = tally puts ls \<longleftrightarrow> content s = {#}"
  by (simp add: conservation)

end

end
