(* ===== verification/Circular_Array.thy ===== *)
theory Circular_Array
  imports Prelude
begin

text \<open>
  \<^verbatim>\<open>class CircularArray\<close> of \<^verbatim>\<open>include/chase_lev_deque.hpp\<close>: a power-of-two ring of
  task pointers. A cell holds \<open>None\<close> for \<^verbatim>\<open>nullptr\<close> (the value-initialised cell)
  and \<open>Some t\<close> for a pointer to the task \<open>t\<close>. Indices are the \<^verbatim>\<open>int64_t\<close>
  indices of the deque, as unbounded integers; the concurrent deque shows how far they
  can grow.
\<close>

record 't circ =
  log2_cap :: nat
  cmask :: int
  cbuf :: "'t option list"

definition circ_new :: "nat \<Rightarrow> 't circ" where
  "circ_new k =
     \<lparr>log2_cap = k, cmask = push_bit k 1 - 1, cbuf = replicate (nat (push_bit k 1)) None\<rparr>"

definition capacity :: "'t circ \<Rightarrow> int" where
  "capacity c = push_bit (log2_cap c) 1"

definition circ_put :: "'t circ \<Rightarrow> int \<Rightarrow> 't option \<Rightarrow> 't circ" where
  "circ_put c idx p = c\<lparr>cbuf := (cbuf c)[nat (idx AND cmask c) := p]\<rparr>"

definition circ_get :: "'t circ \<Rightarrow> int \<Rightarrow> 't option" where
  "circ_get c idx = cbuf c ! nat (idx AND cmask c)"

text \<open>The copy loop \<^verbatim>\<open>for (i = top; i < bot; ++i) next->put(i, get(i))\<close> of \<open>grow\<close>.\<close>

function copy_loop :: "'t circ \<Rightarrow> 't circ \<Rightarrow> int \<Rightarrow> int \<Rightarrow> 't circ" where
  "copy_loop src next i b =
     (if i < b then copy_loop src (circ_put next i (circ_get src i)) (i + 1) b else next)"
  by pat_completeness auto
termination
  by (relation "measure (\<lambda>(src, next, i, b). nat (b - i))") auto

declare copy_loop.simps [simp del]

definition circ_grow :: "'t circ \<Rightarrow> int \<Rightarrow> int \<Rightarrow> 't circ" where
  "circ_grow c b t = copy_loop c (circ_new (log2_cap c + 1)) t b"

section \<open>The well-formedness invariant\<close>

definition wf_circ :: "'t circ \<Rightarrow> bool" where
  "wf_circ c \<longleftrightarrow> cmask c = 2 ^ log2_cap c - 1 \<and> length (cbuf c) = 2 ^ log2_cap c"

lemma wf_circ_new [simp, intro]: "wf_circ (circ_new k)"
  by (simp add: wf_circ_def circ_new_def push_bit_one_int nat_power_eq)

lemma log2_cap_new [simp]: "log2_cap (circ_new k) = k"
  by (simp add: circ_new_def)

lemma capacity_pow: "capacity c = 2 ^ log2_cap c"
  by (simp add: capacity_def push_bit_one_int)

lemma capacity_pos [simp]: "0 < capacity c"
  by (simp add: capacity_pow)

lemma log2_cap_put [simp]: "log2_cap (circ_put c i p) = log2_cap c"
  by (simp add: circ_put_def)

lemma capacity_put [simp]: "capacity (circ_put c i p) = capacity c"
  by (simp add: capacity_pow)

lemma wf_circ_put [simp, intro]: "wf_circ c \<Longrightarrow> wf_circ (circ_put c i p)"
  by (simp add: wf_circ_def circ_put_def)

text \<open>Every access is in range: masking never leaves the buffer.\<close>

lemma slot_mod: "wf_circ c \<Longrightarrow> nat (idx AND cmask c) = nat (idx mod capacity c)"
  by (simp add: wf_circ_def int_and_mask capacity_pow)

lemma slot_in_range: "wf_circ c \<Longrightarrow> nat (idx AND cmask c) < length (cbuf c)"
  by (simp add: wf_circ_def int_and_mask)

lemma get_put_same: "wf_circ c \<Longrightarrow> circ_get (circ_put c i p) i = p"
  using slot_in_range [of c i] by (simp add: circ_get_def circ_put_def)

lemma get_put_other:
  assumes "wf_circ c" and "i \<noteq> j" and "\<bar>i - j\<bar> < capacity c"
  shows "circ_get (circ_put c i p) j = circ_get c j"
proof -
  have "nat (i AND cmask c) \<noteq> nat (j AND cmask c)"
    using assms nat_mod_eq_close [of i "log2_cap c" j]
    by (auto simp: slot_mod capacity_pow)
  then show ?thesis by (simp add: circ_get_def circ_put_def)
qed

lemma get_put:
  assumes "wf_circ c" and "\<bar>i - j\<bar> < capacity c"
  shows "circ_get (circ_put c i p) j = (if i = j then p else circ_get c j)"
  using assms by (auto simp: get_put_same get_put_other)

section \<open>Growing keeps the live entries\<close>

lemma copy_loop_meta:
  "log2_cap (copy_loop src next i b) = log2_cap next \<and> (wf_circ next \<longrightarrow> wf_circ (copy_loop src next i b))"
proof (induction src "next" i b rule: copy_loop.induct)
  case (1 src nxt i b)
  then show ?case
    by (cases "i < b") (simp_all add: copy_loop.simps [of src nxt i b])
qed

lemma copy_loop_get:
  assumes "wf_circ next" and "b - i \<le> capacity next" and "b - capacity next \<le> j" and "j < i + capacity next"
  shows "circ_get (copy_loop src next i b) j =
    (if i \<le> j \<and> j < b then circ_get src j else circ_get next j)"
  using assms
proof (induction src "next" i b rule: copy_loop.induct)
  case (1 src nxt i b)
  show ?case
  proof (cases "i < b")
    case True
    let ?n = "circ_put nxt i (circ_get src i)"
    have IH: "circ_get (copy_loop src ?n (i + 1) b) j =
        (if i + 1 \<le> j \<and> j < b then circ_get src j else circ_get ?n j)"
      using "1.prems" True by (intro "1.IH") auto
    have near: "circ_get ?n j = (if i = j then circ_get src i else circ_get nxt j)"
      if "\<not> (i + 1 \<le> j \<and> j < b)"
      using that "1.prems" True by (intro get_put) auto
    show ?thesis
      unfolding copy_loop.simps [of src nxt i b]
      using True IH near by auto
  next
    case False
    then show ?thesis by (auto simp: copy_loop.simps [of src nxt i b])
  qed
qed

lemma wf_circ_grow [simp, intro]: "wf_circ (circ_grow c b t)"
  by (simp add: circ_grow_def copy_loop_meta)

lemma capacity_grow [simp]: "capacity (circ_grow c b t) = 2 * capacity c"
  by (simp add: circ_grow_def capacity_pow copy_loop_meta)

lemma grow_get:
  assumes "b - t \<le> capacity c" and "t \<le> j" and "j < b"
  shows "circ_get (circ_grow c b t) j = circ_get c j"
proof -
  have "capacity (circ_new (log2_cap c + 1) :: 'a circ) = 2 * capacity c"
    by (simp add: capacity_pow)
  then show ?thesis
    unfolding circ_grow_def using assms capacity_pos [of c]
    by (subst copy_loop_get) auto
qed

section \<open>Properties\<close>

text \<open>Growing the ring doubles its capacity and keeps every live entry: if the indices
  \<open>t\<close> to \<open>b\<close> fit the old ring, reading any of them from the new ring gives what the old ring held.\<close>

theorem grow_keeps_entries:
  assumes "b - t \<le> capacity c" and "t \<le> j" and "j < b"
  shows "circ_get (circ_grow c b t) j = circ_get c j
    \<and> capacity (circ_grow c b t) = 2 * capacity c \<and> wf_circ (circ_grow c b t)"
  using assms by (simp add: grow_get)

theorem grow_keeps_entries_witness:
  "circ_get (circ_grow (circ_put (circ_new 1) 5 (Some 9)) 6 5) 5 = Some (9::nat)
    \<and> circ_get (circ_put (circ_new 1) 3 (Some 4)) 5 = Some (4::nat)"
proof -
  let ?c = "circ_put (circ_new 1) 5 (Some (9::nat))"
  have "6 - 5 \<le> capacity ?c" and "circ_get ?c 5 = Some 9"
    by (simp_all add: capacity_pow get_put_same)
  with grow_keeps_entries [of 6 5 ?c 5] have "circ_get (circ_grow ?c 6 5) 5 = Some 9" by simp
  then show ?thesis
    by (simp add: circ_get_def circ_put_def circ_new_def push_bit_one_int int_and_mask [of _ 1, simplified])
qed

end
