(* ===== verification/Chase_Lev_Deque.thy ===== *)
theory Chase_Lev_Deque
  imports Circular_Array
begin

text \<open>
  \<^verbatim>\<open>class ChaseLevDeque\<close> of \<^verbatim>\<open>include/chase_lev_deque.hpp\<close>, its state and its
  operations run without interference (the deque as a single thread sees it; the
  interleaved runs are in the theory of the concurrent deque, over the same state). The
  heap of arrays the deque has allocated is the list \<open>darrays\<close>: an array pointer is a
  position of it, so an old array stays readable after a growth, as in the code. A raw task
  pointer is a \<open>'t option\<close>, \<open>None\<close> for \<^verbatim>\<open>nullptr\<close>.
  The operations implement a list with a bottom end (LIFO) and a top end (FIFO):
  \<open>dq_list\<close> is the abstraction, and the locale \<open>deque_adt\<close> the contract.
\<close>

record 't dq =
  dtop :: int
  dbot :: int
  darrays :: "'t circ list"
  darray :: nat
  dold :: "nat list"

record 't steal_result =
  res_task :: "'t option"
  res_empty :: bool

definition kInitialLog2Cap :: nat where
  "kInitialLog2Cap = 8"

definition dq_new :: "'t dq" where
  "dq_new = \<lparr>dtop = 0, dbot = 0, darrays = [circ_new kInitialLog2Cap], darray = 0, dold = []\<rparr>"

definition live_array :: "'t dq \<Rightarrow> 't circ" where
  "live_array d = darrays d ! darray d"

text \<open>\<^verbatim>\<open>old_arrays_.push_back(a); array_.store(next)\<close>\<close>

definition install_array :: "'t dq \<Rightarrow> 't circ \<Rightarrow> 't dq" where
  "install_array d c =
     d\<lparr>darrays := darrays d @ [c], darray := length (darrays d), dold := dold d @ [darray d]\<rparr>"

text \<open>\<^verbatim>\<open>a->put(b, p)\<close> through an array pointer\<close>

definition put_at :: "'t dq \<Rightarrow> nat \<Rightarrow> int \<Rightarrow> 't option \<Rightarrow> 't dq" where
  "put_at d a b p = d\<lparr>darrays := (darrays d)[a := circ_put (darrays d ! a) b p]\<rparr>"

text \<open>\<^verbatim>\<open>top_.compare_exchange_strong(t, t + 1)\<close>\<close>

definition cas_top :: "'t dq \<Rightarrow> int \<Rightarrow> bool \<times> 't dq" where
  "cas_top d t = (if dtop d = t then (True, d\<lparr>dtop := t + 1\<rparr>) else (False, d))"

definition dq_push :: "'t dq \<Rightarrow> 't option \<Rightarrow> 't dq" where
  "dq_push d p =
     (let b = dbot d; t = dtop d; a = live_array d;
          d1 = (if b - t \<ge> capacity a - 1 then install_array d (circ_grow a b t) else d);
          d2 = put_at d1 (darray d1) b p
      in d2\<lparr>dbot := b + 1\<rparr>)"

definition dq_pop :: "'t dq \<Rightarrow> 't option \<times> 't dq" where
  "dq_pop d =
     (let b = dbot d - 1; d1 = d\<lparr>dbot := b\<rparr>; t = dtop d1
      in if t > b then (None, d1\<lparr>dbot := b + 1\<rparr>)
         else let raw = circ_get (live_array d1) b
              in if t < b then (raw, d1)
                 else let (won, d2) = cas_top d1 t
                      in (if won then raw else None, d2\<lparr>dbot := b + 1\<rparr>))"

definition dq_steal :: "'t dq \<Rightarrow> 't steal_result \<times> 't dq" where
  "dq_steal d =
     (let t = dtop d; b = dbot d
      in if t \<ge> b then (\<lparr>res_task = None, res_empty = True\<rparr>, d)
         else let raw = circ_get (live_array d) t; (won, d1) = cas_top d t
              in if \<not> won then (\<lparr>res_task = None, res_empty = False\<rparr>, d1)
                 else (\<lparr>res_task = raw, res_empty = False\<rparr>, d1))"

definition dq_empty :: "'t dq \<Rightarrow> bool" where
  "dq_empty d = (dbot d \<le> dtop d)"

definition dq_size :: "'t dq \<Rightarrow> int" where
  "dq_size d = max 0 (dbot d - dtop d)"

text \<open>
  The destructor: the pointers it deletes, in order, and the arrays it deletes (the live
  one, then the old ones).
\<close>

definition dq_destroy :: "'t dq \<Rightarrow> 't option list \<times> nat list" where
  "dq_destroy d = (map (circ_get (live_array d)) [dtop d..dbot d - 1], darray d # dold d)"

section \<open>The invariant and the abstraction\<close>

definition wf_heap :: "'t dq \<Rightarrow> bool" where
  "wf_heap d \<longleftrightarrow> (\<forall>c \<in> set (darrays d). wf_circ c) \<and> length (darrays d) = Suc (darray d)
     \<and> dold d = [0..<darray d]"

definition dq_inv :: "'t dq \<Rightarrow> bool" where
  "dq_inv d \<longleftrightarrow> wf_heap d \<and> 0 \<le> dtop d \<and> dtop d \<le> dbot d
     \<and> dbot d - dtop d \<le> capacity (live_array d) - 1"

definition items :: "'t dq \<Rightarrow> int \<Rightarrow> int \<Rightarrow> 't option list" where
  "items d lo hi = map (circ_get (live_array d)) [lo..hi - 1]"

definition dq_list :: "'t dq \<Rightarrow> 't option list" where
  "dq_list d = items d (dtop d) (dbot d)"

named_theorems dq_simps \<open>how the heap reacts to the deque's writes\<close>

lemma live_simps [dq_simps]:
  "live_array (d\<lparr>dtop := t\<rparr>) = live_array d"
  "live_array (d\<lparr>dbot := b\<rparr>) = live_array d"
  by (simp_all add: live_array_def)

lemma wf_heap_simps [dq_simps]:
  "wf_heap (d\<lparr>dtop := t\<rparr>) = wf_heap d"
  "wf_heap (d\<lparr>dbot := b\<rparr>) = wf_heap d"
  by (simp_all add: wf_heap_def)

lemma items_simps [dq_simps]:
  "items (d\<lparr>dtop := t\<rparr>) = items d"
  "items (d\<lparr>dbot := b\<rparr>) = items d"
  by (simp_all add: items_def live_simps fun_eq_iff)

lemma wf_heap_live: "wf_heap d \<Longrightarrow> wf_circ (live_array d)"
  by (auto simp: wf_heap_def live_array_def)

lemma wf_heap_nth: "wf_heap d \<Longrightarrow> a \<le> darray d \<Longrightarrow> wf_circ (darrays d ! a)"
  by (auto simp: wf_heap_def)

lemma live_install [dq_simps]: "live_array (install_array d c) = c"
  by (simp add: live_array_def install_array_def)

lemma wf_heap_install [intro]: "wf_heap d \<Longrightarrow> wf_circ c \<Longrightarrow> wf_heap (install_array d c)"
  by (simp add: wf_heap_def install_array_def)

lemma nth_install:
  "wf_heap d \<Longrightarrow> a \<le> darray d \<Longrightarrow> darrays (install_array d c) ! a = darrays d ! a"
  by (simp add: wf_heap_def install_array_def nth_append)

lemma install_idx [dq_simps]:
  "dtop (install_array d c) = dtop d" "dbot (install_array d c) = dbot d"
  "wf_heap d \<Longrightarrow> darray (install_array d c) = Suc (darray d)"
  by (simp_all add: install_array_def wf_heap_def)

lemma put_at_idx [dq_simps]:
  "dtop (put_at d a b p) = dtop d" "dbot (put_at d a b p) = dbot d"
  "darray (put_at d a b p) = darray d"
  by (simp_all add: put_at_def)

lemma live_put_at [dq_simps]:
  "wf_heap d \<Longrightarrow> live_array (put_at d (darray d) b p) = circ_put (live_array d) b p"
  by (simp add: live_array_def put_at_def wf_heap_def)

lemma nth_put_at:
  "wf_heap d \<Longrightarrow> a' \<le> darray d \<Longrightarrow>
    darrays (put_at d (darray d) b p) ! a' =
      (if a' = darray d then circ_put (live_array d) b p else darrays d ! a')"
  by (simp add: put_at_def live_array_def wf_heap_def nth_list_update)

lemma wf_heap_put_at [intro]: "wf_heap d \<Longrightarrow> wf_heap (put_at d (darray d) b p)"
  using wf_heap_live [of d]
  by (auto simp: wf_heap_def put_at_def live_array_def dest!: set_update_subset_insert [THEN subsetD])

section \<open>Item lists\<close>

lemma items_Nil [simp]: "hi \<le> lo \<Longrightarrow> items d lo hi = []"
  by (simp add: items_def)

lemma items_eq_Nil_iff: "items d lo hi = [] \<longleftrightarrow> hi \<le> lo"
  by (auto simp: items_def)

lemma length_items: "length (items d lo hi) = nat (hi - lo)"
  by (simp add: items_def)

lemma items_snoc: "lo \<le> hi \<Longrightarrow> items d lo (hi + 1) = items d lo hi @ [circ_get (live_array d) hi]"
  by (simp add: items_def upto_last [of lo hi])

lemma items_Cons: "lo < hi \<Longrightarrow> items d lo hi = circ_get (live_array d) lo # items d (lo + 1) hi"
  by (simp add: items_def upto_rec1)

lemma items_cong:
  "(\<And>i. lo \<le> i \<Longrightarrow> i < hi \<Longrightarrow> circ_get (live_array d) i = circ_get (live_array d') i) \<Longrightarrow>
    items d lo hi = items d' lo hi"
  by (auto simp: items_def)

lemma items_put_at:
  assumes "wf_heap d" and "hi \<le> b" and "b - lo < capacity (live_array d)"
  shows "items (put_at d (darray d) b p) lo hi = items d lo hi"
proof (rule items_cong)
  fix i assume "lo \<le> i" "i < hi"
  with assms wf_heap_live [OF assms(1)]
  show "circ_get (live_array (put_at d (darray d) b p)) i = circ_get (live_array d) i"
    by (simp add: live_put_at get_put_other)
qed

lemma items_put_at_snoc:
  assumes "wf_heap d" and "lo \<le> b" and "b - lo < capacity (live_array d)"
  shows "items (put_at d (darray d) b p) lo (b + 1) = items d lo b @ [p]"
  using assms wf_heap_live [OF assms(1)]
  by (simp add: items_snoc items_put_at live_put_at get_put_same)

lemma items_install_grow:
  assumes "hi - t \<le> capacity (live_array d)" and "t \<le> lo"
  shows "items (install_array d (circ_grow (live_array d) hi t)) lo hi = items d lo hi"
  using assms by (intro items_cong) (simp add: live_install grow_get)

section \<open>The operations refine a list\<close>

lemma dq_inv_new: "dq_inv dq_new" and dq_list_new: "dq_list dq_new = []"
  by (simp_all add: dq_inv_def dq_new_def wf_heap_def live_array_def capacity_pow dq_list_def
      kInitialLog2Cap_def)

lemma dq_push_refines:
  assumes "dq_inv d"
  shows "dq_inv (dq_push d p) \<and> dq_list (dq_push d p) = dq_list d @ [p]"
proof -
  let ?a = "live_array d" and ?b = "dbot d" and ?t = "dtop d"
  let ?full = "capacity ?a - 1 \<le> ?b - ?t"
  define d1 where "d1 = (if ?full then install_array d (circ_grow ?a ?b ?t) else d)"
  have wf: "wf_heap d" and idx: "0 \<le> ?t" "?t \<le> ?b" "?b - ?t \<le> capacity ?a - 1"
    using assms by (auto simp: dq_inv_def)
  have d1: "wf_heap d1" "dtop d1 = ?t" "dbot d1 = ?b"
    using wf by (auto simp: d1_def dq_simps)
  have room: "?b - ?t < capacity (live_array d1) - 1"
    using idx capacity_pos [of ?a] by (auto simp: d1_def dq_simps simp del: capacity_pos)
  have keep: "items d1 ?t ?b = items d ?t ?b"
    using idx by (simp add: d1_def items_install_grow)
  have push: "dq_push d p = (put_at d1 (darray d1) ?b p)\<lparr>dbot := ?b + 1\<rparr>"
    by (simp add: dq_push_def d1_def Let_def)
  have "dq_list (dq_push d p) = items (put_at d1 (darray d1) ?b p) ?t (?b + 1)"
    by (simp add: push dq_list_def dq_simps d1)
  also have "\<dots> = items d1 ?t ?b @ [p]"
    using d1 idx room by (intro items_put_at_snoc) auto
  finally have "dq_list (dq_push d p) = dq_list d @ [p]"
    by (simp add: keep dq_list_def)
  moreover have "dq_inv (dq_push d p)"
    using d1 idx room by (auto simp: push dq_inv_def dq_simps)
  ultimately show ?thesis by simp
qed

lemma dq_pop_refines:
  assumes "dq_inv d"
  shows "dq_inv (snd (dq_pop d)) \<and>
    (if dq_list d = [] then dq_pop d = (None, d)
     else fst (dq_pop d) = last (dq_list d) \<and> dq_list (snd (dq_pop d)) = butlast (dq_list d))"
proof (cases "dtop d < dbot d")
  case True
  then have list: "items d (dtop d) (dbot d) =
      items d (dtop d) (dbot d - 1) @ [circ_get (live_array d) (dbot d - 1)]"
    using items_snoc [of "dtop d" "dbot d - 1" d] by simp
  show ?thesis
    using True assms
    by (auto simp: list dq_pop_def Let_def cas_top_def dq_simps dq_inv_def dq_list_def)
next
  case False
  with assms show ?thesis
    by (auto simp: dq_pop_def dq_list_def dq_inv_def Let_def items_eq_Nil_iff)
qed

lemma dq_steal_refines:
  assumes "dq_inv d"
  shows "dq_inv (snd (dq_steal d)) \<and>
    (if dq_list d = [] then dq_steal d = (\<lparr>res_task = None, res_empty = True\<rparr>, d)
     else fst (dq_steal d) = \<lparr>res_task = hd (dq_list d), res_empty = False\<rparr>
       \<and> dq_list (snd (dq_steal d)) = tl (dq_list d))"
proof (cases "dtop d < dbot d")
  case True
  with assms show ?thesis
    by (auto simp: dq_steal_def Let_def cas_top_def dq_simps dq_inv_def dq_list_def items_Cons
        split: prod.splits)
next
  case False
  with assms show ?thesis
    by (auto simp: dq_steal_def dq_list_def dq_inv_def items_eq_Nil_iff)
qed

lemma dq_empty_list: "dq_empty d \<longleftrightarrow> dq_list d = []"
  by (simp add: dq_empty_def dq_list_def items_eq_Nil_iff)

lemma dq_size_list: "dq_size d = int (length (dq_list d))"
  by (simp add: dq_size_def dq_list_def length_items)

section \<open>The contract of a double-ended queue\<close>

text \<open>
  What the clients of the deque rely on: it is a list, pushed and popped at one end and
  stolen from at the other. The consequences for whole sequences of calls are proved once,
  from the contract alone.
\<close>

locale deque_adt =
  fixes new :: "'d"
    and push :: "'d \<Rightarrow> 't option \<Rightarrow> 'd"
    and pop :: "'d \<Rightarrow> 't option \<times> 'd"
    and steal :: "'d \<Rightarrow> 't steal_result \<times> 'd"
    and elems :: "'d \<Rightarrow> 't option list"
    and inv :: "'d \<Rightarrow> bool"
  assumes new: "inv new" "elems new = []"
    and push: "inv d \<Longrightarrow> inv (push d p) \<and> elems (push d p) = elems d @ [p]"
    and pop: "inv d \<Longrightarrow> inv (snd (pop d)) \<and>
      (if elems d = [] then pop d = (None, d)
       else fst (pop d) = last (elems d) \<and> elems (snd (pop d)) = butlast (elems d))"
    and steal: "inv d \<Longrightarrow> inv (snd (steal d)) \<and>
      (if elems d = [] then steal d = (\<lparr>res_task = None, res_empty = True\<rparr>, d)
       else fst (steal d) = \<lparr>res_task = hd (elems d), res_empty = False\<rparr>
         \<and> elems (snd (steal d)) = tl (elems d))"
begin

lemma push_all:
  "inv d \<Longrightarrow> inv (foldl push d ps) \<and> elems (foldl push d ps) = elems d @ ps"
  by (induction ps arbitrary: d) (simp_all add: push)

lemma pop_many:
  "inv d \<Longrightarrow> n \<le> length (elems d) \<Longrightarrow>
    fst (repeat_op pop n d) = take n (rev (elems d))
    \<and> elems (snd (repeat_op pop n d)) = take (length (elems d) - n) (elems d)
    \<and> inv (snd (repeat_op pop n d))"
proof (induction n arbitrary: d)
  case 0
  then show ?case by simp
next
  case (Suc n)
  obtain r d1 where r: "pop d = (r, d1)" by fastforce
  from Suc.prems have ne: "elems d \<noteq> []" by auto
  with pop [OF Suc.prems(1)] r
  have d1: "inv d1" "r = last (elems d)" "elems d1 = butlast (elems d)" by auto
  obtain x xs where "elems d = xs @ [x]" using ne by (cases "elems d" rule: rev_cases) auto
  then show ?case
    using Suc.IH [OF d1(1)] Suc.prems d1 r
    by (simp add: split_def Let_def)
qed

lemma steal_many:
  "inv d \<Longrightarrow> n \<le> length (elems d) \<Longrightarrow>
    map res_task (fst (repeat_op steal n d)) = take n (elems d)
    \<and> elems (snd (repeat_op steal n d)) = drop n (elems d)
    \<and> inv (snd (repeat_op steal n d))"
proof (induction n arbitrary: d)
  case 0
  then show ?case by simp
next
  case (Suc n)
  obtain r d1 where r: "steal d = (r, d1)" by fastforce
  from Suc.prems have ne: "elems d \<noteq> []" by auto
  with steal [OF Suc.prems(1)] r
  have d1: "inv d1" "res_task r = hd (elems d)" "elems d1 = tl (elems d)" by auto
  obtain x xs where "elems d = x # xs" using ne by (cases "elems d") auto
  then show ?case
    using Suc.IH [OF d1(1)] Suc.prems d1 r
    by (simp add: split_def Let_def)
qed

text \<open>Pushing then popping everything is LIFO; pushing then stealing everything is FIFO.\<close>

lemma lifo:
  "fst (repeat_op pop (length ps) (foldl push new ps)) = rev ps
   \<and> elems (snd (repeat_op pop (length ps) (foldl push new ps))) = []"
  using pop_many [of "foldl push new ps" "length ps"] push_all [of new ps] new by simp

lemma fifo:
  "map res_task (fst (repeat_op steal (length ps) (foldl push new ps))) = ps
   \<and> elems (snd (repeat_op steal (length ps) (foldl push new ps))) = []"
  using steal_many [of "foldl push new ps" "length ps"] push_all [of new ps] new by simp

end

interpretation cld: deque_adt dq_new dq_push dq_pop dq_steal dq_list dq_inv
  by unfold_locales
    (rule dq_inv_new dq_list_new dq_push_refines dq_pop_refines dq_steal_refines; assumption?)+

section \<open>Properties\<close>

text \<open>C20. Run without interference, the deque is a list: \<open>push_bottom\<close> appends (growing the array
  when it is nearly full), \<open>pop_bottom\<close> removes the last entry or returns null when there is none,
  \<open>steal\<close> removes the first entry or reports an empty deque, and each keeps the deque's invariant.\<close>

theorem deque_operations_refine_list:
  assumes "dq_inv d"
  shows "(dq_inv (dq_push d p) \<and> dq_list (dq_push d p) = dq_list d @ [p])
    \<and> (dq_inv (snd (dq_pop d)) \<and>
       (if dq_list d = [] then dq_pop d = (None, d)
        else fst (dq_pop d) = last (dq_list d) \<and> dq_list (snd (dq_pop d)) = butlast (dq_list d)))
    \<and> (dq_inv (snd (dq_steal d)) \<and>
       (if dq_list d = [] then dq_steal d = (\<lparr>res_task = None, res_empty = True\<rparr>, d)
        else fst (dq_steal d) = \<lparr>res_task = hd (dq_list d), res_empty = False\<rparr>
          \<and> dq_list (snd (dq_steal d)) = tl (dq_list d)))
    \<and> dq_empty d = (dq_list d = []) \<and> dq_size d = int (length (dq_list d))"
  using dq_push_refines [OF assms] dq_pop_refines [OF assms] dq_steal_refines [OF assms]
  by (simp add: dq_empty_list dq_size_list)

theorem deque_operations_refine_list_witness:
  "dq_list (dq_push dq_new (Some (7::nat))) = [Some 7] \<and> dq_pop (dq_new :: nat dq) = (None, dq_new)"
  using deque_operations_refine_list [OF dq_inv_new, of "Some (7::nat)"] by (simp add: dq_list_new)

text \<open>Pushing any number of entries and popping them all returns them in reverse (LIFO);
  stealing them all returns them in order (FIFO); both leave the deque empty, however often the
  array has grown on the way.\<close>

theorem deque_lifo_fifo:
  "fst (repeat_op dq_pop (length ps) (foldl dq_push dq_new ps)) = rev ps
   \<and> map res_task (fst (repeat_op dq_steal (length ps) (foldl dq_push dq_new ps))) = ps
   \<and> dq_empty (snd (repeat_op dq_pop (length ps) (foldl dq_push dq_new ps)))
   \<and> dq_empty (snd (repeat_op dq_steal (length ps) (foldl dq_push dq_new ps)))"
  using cld.lifo [of ps] cld.fifo [of ps] by (simp add: dq_empty_list)

text \<open>The destructor deletes exactly the tasks still in the deque, in order, and every array
  the deque has ever allocated exactly once.\<close>

theorem deque_destroy_frees_all:
  assumes "dq_inv d"
  shows "fst (dq_destroy d) = dq_list d \<and> distinct (snd (dq_destroy d))
    \<and> set (snd (dq_destroy d)) = {..<length (darrays d)}"
  using assms
  by (auto simp: dq_destroy_def dq_list_def items_def dq_inv_def wf_heap_def)

theorem deque_destroy_frees_all_witness:
  "fst (dq_destroy (dq_push dq_new (Some (7::nat)))) = [Some 7]"
  using deque_destroy_frees_all [of "dq_push dq_new (Some (7::nat))"]
    dq_push_refines [OF dq_inv_new, of "Some (7::nat)"] by (simp add: dq_list_new)

end
