(* ===== verification/Deque_Machine.thy ===== *)
theory Deque_Machine
  imports Chase_Lev_Deque
begin

text \<open>
  The concurrent runs of \<^verbatim>\<open>ChaseLevDeque\<close>: one owner thread and any number of thief
  threads over one shared deque. A thread inside an operation is a program counter with the
  operation's local variables; a step is one access to a shared variable (\<open>top_\<close>,
  \<open>bot_\<close>, \<open>array_\<close>, an array cell), taken in the order of the source. Steps of
  different threads interleave arbitrarily: this is the sequentially consistent semantics
  of the atomics. The growth of the array is one step: the owner alone writes arrays, the
  new one is private until \<^verbatim>\<open>array_.store\<close>, and a thief only reads cells.
\<close>

section \<open>The owner's operations\<close>

datatype 't opc =
    OIdle
  | Push_bot 't                          \<comment> \<open>load \<^verbatim>\<open>bot_\<close>\<close>
  | Push_top 't int                      \<comment> \<open>load \<^verbatim>\<open>top_\<close>\<close>
  | Push_array 't int int                \<comment> \<open>load \<^verbatim>\<open>array_\<close>\<close>
  | Push_check 't int int nat            \<comment> \<open>compare with the capacity, grow\<close>
  | Push_put 't int nat                  \<comment> \<open>store the cell\<close>
  | Push_publish 't int                  \<comment> \<open>store \<^verbatim>\<open>bot_\<close>\<close>
  | PushRet
  | Pop_bot                              \<comment> \<open>load \<^verbatim>\<open>bot_\<close>\<close>
  | Pop_array int                        \<comment> \<open>load \<^verbatim>\<open>array_\<close>\<close>
  | Pop_store int nat                    \<comment> \<open>store \<^verbatim>\<open>bot_\<close>\<close>
  | Pop_top int nat                      \<comment> \<open>load \<^verbatim>\<open>top_\<close>\<close>
  | Pop_branch int nat int               \<comment> \<open>compare, load the cell\<close>
  | Pop_cas int int "'t option"          \<comment> \<open>CAS on \<^verbatim>\<open>top_\<close>\<close>
  | Pop_restore int "'t option"          \<comment> \<open>store \<^verbatim>\<open>bot_\<close>\<close>
  | PopRet "'t option"

fun push_step :: "'t dq \<Rightarrow> 't opc \<Rightarrow> 't dq \<times> 't opc" where
  "push_step d (Push_bot x) = (d, Push_top x (dbot d))"
| "push_step d (Push_top x b) = (d, Push_array x b (dtop d))"
| "push_step d (Push_array x b t) = (d, Push_check x b t (darray d))"
| "push_step d (Push_check x b t a) =
     (if b - t \<ge> capacity (darrays d ! a) - 1
      then let d1 = install_array d (circ_grow (darrays d ! a) b t)
           in (d1, Push_put x b (darray d1))
      else (d, Push_put x b a))"
| "push_step d (Push_put x b a) = (put_at d a b (Some x), Push_publish x b)"
| "push_step d (Push_publish x b) = (d\<lparr>dbot := b + 1\<rparr>, PushRet)"
| "push_step d pc = (d, pc)"

fun pop_step :: "'t dq \<Rightarrow> 't opc \<Rightarrow> 't dq \<times> 't opc" where
  "pop_step d Pop_bot = (d, Pop_array (dbot d - 1))"
| "pop_step d (Pop_array b) = (d, Pop_store b (darray d))"
| "pop_step d (Pop_store b a) = (d\<lparr>dbot := b\<rparr>, Pop_top b a)"
| "pop_step d (Pop_top b a) = (d, Pop_branch b a (dtop d))"
| "pop_step d (Pop_branch b a t) =
     (if t > b then (d, Pop_restore b None)
      else let raw = circ_get (darrays d ! a) b
           in if t < b then (d, PopRet raw) else (d, Pop_cas b t raw))"
| "pop_step d (Pop_cas b t raw) =
     (let (won, d1) = cas_top d t in (d1, Pop_restore b (if won then raw else None)))"
| "pop_step d (Pop_restore b r) = (d\<lparr>dbot := b + 1\<rparr>, PopRet r)"
| "pop_step d pc = (d, pc)"

fun in_push :: "'t opc \<Rightarrow> bool" where
  "in_push (Push_bot x) = True"
| "in_push (Push_top x b) = True"
| "in_push (Push_array x b t) = True"
| "in_push (Push_check x b t a) = True"
| "in_push (Push_put x b a) = True"
| "in_push (Push_publish x b) = True"
| "in_push pc = False"

fun in_pop :: "'t opc \<Rightarrow> bool" where
  "in_pop Pop_bot = True"
| "in_pop (Pop_array b) = True"
| "in_pop (Pop_store b a) = True"
| "in_pop (Pop_top b a) = True"
| "in_pop (Pop_branch b a t) = True"
| "in_pop (Pop_cas b t raw) = True"
| "in_pop (Pop_restore b r) = True"
| "in_pop pc = False"

definition owner_step :: "'t dq \<Rightarrow> 't opc \<Rightarrow> 't dq \<times> 't opc" where
  "owner_step d pc = (if in_push pc then push_step d pc else pop_step d pc)"

section \<open>The thief's operation\<close>

datatype 't tpc =
    TIdle
  | Steal_top                            \<comment> \<open>load \<^verbatim>\<open>top_\<close>\<close>
  | Steal_bot int                        \<comment> \<open>load \<^verbatim>\<open>bot_\<close>, compare\<close>
  | Steal_array int                      \<comment> \<open>load \<^verbatim>\<open>array_\<close>\<close>
  | Steal_get int nat                    \<comment> \<open>load the cell\<close>
  | Steal_cas int "'t option"            \<comment> \<open>CAS on \<^verbatim>\<open>top_\<close>\<close>
  | StealRet "'t steal_result"

fun thief_step :: "'t dq \<Rightarrow> 't tpc \<Rightarrow> 't dq \<times> 't tpc" where
  "thief_step d Steal_top = (d, Steal_bot (dtop d))"
| "thief_step d (Steal_bot t) =
     (if t \<ge> dbot d then (d, StealRet \<lparr>res_task = None, res_empty = True\<rparr>)
      else (d, Steal_array t))"
| "thief_step d (Steal_array t) = (d, Steal_get t (darray d))"
| "thief_step d (Steal_get t a) = (d, Steal_cas t (circ_get (darrays d ! a) t))"
| "thief_step d (Steal_cas t raw) =
     (let (won, d1) = cas_top d t
      in if \<not> won then (d1, StealRet \<lparr>res_task = None, res_empty = False\<rparr>)
         else (d1, StealRet \<lparr>res_task = raw, res_empty = False\<rparr>))"
| "thief_step d pc = (d, pc)"

fun in_steal :: "'t tpc \<Rightarrow> bool" where
  "in_steal TIdle = False"
| "in_steal (StealRet r) = False"
| "in_steal pc = True"

section \<open>The interleaved system\<close>

record 't dsys =
  shared :: "'t dq"
  opc :: "'t opc"
  tpc :: "nat \<Rightarrow> 't tpc"

text \<open>
  A label says what an operation returned: \<open>DPushed x\<close> when the push of \<open>x\<close> takes
  effect and returns, \<open>DPopped r\<close> and \<open>DStolen i r\<close> when a pop or the steal of
  thief \<open>i\<close> has its result.
\<close>

datatype 't dlabel = DTau | DPushed 't | DPopped "'t option" | DStolen nat "'t steal_result"

definition owner_label :: "'t opc \<Rightarrow> 't opc \<Rightarrow> 't dlabel" where
  "owner_label pc pc' =
     (case pc of Push_publish x b \<Rightarrow> DPushed x
      | _ \<Rightarrow> (case pc' of PopRet r \<Rightarrow> DPopped r | _ \<Rightarrow> DTau))"

fun thief_label :: "nat \<Rightarrow> 't tpc \<Rightarrow> 't dlabel" where
  "thief_label i (StealRet r) = DStolen i r"
| "thief_label i pc = DTau"

definition dsys_init :: "'t dsys" where
  "dsys_init = \<lparr>shared = dq_new, opc = OIdle, tpc = (\<lambda>_. TIdle)\<rparr>"

inductive dq_step :: "'t dsys \<Rightarrow> 't dlabel \<Rightarrow> 't dsys \<Rightarrow> bool" where
  call_push: "opc s = OIdle \<Longrightarrow> dq_step s DTau (s\<lparr>opc := Push_bot x\<rparr>)"
| call_pop: "opc s = OIdle \<Longrightarrow> dq_step s DTau (s\<lparr>opc := Pop_bot\<rparr>)"
| owner: "in_push (opc s) \<or> in_pop (opc s) \<Longrightarrow> owner_step (shared s) (opc s) = (d, pc) \<Longrightarrow>
    dq_step s (owner_label (opc s) pc) (s\<lparr>shared := d, opc := pc\<rparr>)"
| push_return: "opc s = PushRet \<Longrightarrow> dq_step s DTau (s\<lparr>opc := OIdle\<rparr>)"
| pop_return: "opc s = PopRet r \<Longrightarrow> dq_step s DTau (s\<lparr>opc := OIdle\<rparr>)"
| call_steal: "tpc s i = TIdle \<Longrightarrow> dq_step s DTau (s\<lparr>tpc := (tpc s)(i := Steal_top)\<rparr>)"
| thief: "in_steal (tpc s i) \<Longrightarrow> thief_step (shared s) (tpc s i) = (d, pc) \<Longrightarrow>
    dq_step s (thief_label i pc) (s\<lparr>shared := d, tpc := (tpc s)(i := pc)\<rparr>)"
| steal_return: "tpc s i = StealRet r \<Longrightarrow> dq_step s DTau (s\<lparr>tpc := (tpc s)(i := TIdle)\<rparr>)"

section \<open>The invariant\<close>

text \<open>
  While a pop is between its store of \<open>bot_\<close> and its decision, the deque logically still
  holds the entry at \<open>b\<close>: its logical end \<open>lbot\<close> is one past \<open>bot_\<close>. Once the pop has
  seen \<open>t < b\<close> the entry at \<open>b\<close> is the owner's, and thieves can win indices below
  \<open>climit\<close> only.
\<close>

fun lbot :: "'t dq \<Rightarrow> 't opc \<Rightarrow> int" where
  "lbot d (Pop_top b a) = dbot d + 1"
| "lbot d (Pop_branch b a t) = dbot d + 1"
| "lbot d (Pop_cas b t raw) = dbot d + 1"
| "lbot d (Pop_restore b r) = dbot d + 1"
| "lbot d pc = dbot d"

fun climit :: "'t dq \<Rightarrow> 't opc \<Rightarrow> int" where
  "climit d (Pop_branch b a t) = (if t < b then dbot d else dbot d + 1)"
| "climit d pc = lbot d pc"

text \<open>What the owner's local variables say about the shared state, at each control point.\<close>

fun owner_ok :: "'t dq \<Rightarrow> 't opc \<Rightarrow> bool" where
  "owner_ok d (Push_top x b) \<longleftrightarrow> b = dbot d"
| "owner_ok d (Push_array x b t) \<longleftrightarrow>
     b = dbot d \<and> t \<le> dtop d \<and> b - t \<le> capacity (live_array d) - 1"
| "owner_ok d (Push_check x b t a) \<longleftrightarrow>
     b = dbot d \<and> t \<le> dtop d \<and> b - t \<le> capacity (live_array d) - 1 \<and> a = darray d"
| "owner_ok d (Push_put x b a) \<longleftrightarrow>
     b = dbot d \<and> a = darray d \<and> b - dtop d < capacity (live_array d) - 1"
| "owner_ok d (Push_publish x b) \<longleftrightarrow>
     b = dbot d \<and> b - dtop d < capacity (live_array d) - 1 \<and> circ_get (live_array d) b = Some x"
| "owner_ok d (Pop_array b) \<longleftrightarrow> b = dbot d - 1"
| "owner_ok d (Pop_store b a) \<longleftrightarrow> b = dbot d - 1 \<and> a = darray d"
| "owner_ok d (Pop_top b a) \<longleftrightarrow> b = dbot d \<and> a = darray d"
| "owner_ok d (Pop_branch b a t) \<longleftrightarrow> b = dbot d \<and> a = darray d \<and> t \<le> dtop d"
| "owner_ok d (Pop_cas b t raw) \<longleftrightarrow> b = dbot d \<and> t = b \<and> t \<le> dtop d \<and> raw = circ_get (live_array d) b"
| "owner_ok d (Pop_restore b r) \<longleftrightarrow> b = dbot d \<and> dtop d = b + 1"
| "owner_ok d pc \<longleftrightarrow> True"

text \<open>
  What a thief that has read \<open>t\<close> from \<open>top_\<close> knows, as long as \<open>top_\<close> still is
  \<open>t\<close>: then its CAS will succeed, and it must be right about the entry at \<open>t\<close>.
\<close>

fun thief_ok :: "'t dq \<Rightarrow> int \<Rightarrow> 't tpc \<Rightarrow> bool" where
  "thief_ok d lim (Steal_bot t) \<longleftrightarrow> t \<le> dtop d"
| "thief_ok d lim (Steal_array t) \<longleftrightarrow> t \<le> dtop d \<and> (t = dtop d \<longrightarrow> t < lim)"
| "thief_ok d lim (Steal_get t a) \<longleftrightarrow> t \<le> dtop d \<and> a \<le> darray d
     \<and> (t = dtop d \<longrightarrow> t < lim \<and> circ_get (darrays d ! a) t = circ_get (live_array d) t)"
| "thief_ok d lim (Steal_cas t raw) \<longleftrightarrow> t \<le> dtop d
     \<and> (t = dtop d \<longrightarrow> t < lim \<and> raw = circ_get (live_array d) t)"
| "thief_ok d lim pc \<longleftrightarrow> True"

definition dq_ok :: "'t dq \<Rightarrow> 't opc \<Rightarrow> bool" where
  "dq_ok d pc \<longleftrightarrow> wf_heap d \<and> 0 \<le> dtop d \<and> dtop d \<le> climit d pc
     \<and> lbot d pc - dtop d \<le> capacity (live_array d) - 1
     \<and> (\<forall>i. dtop d \<le> i \<and> i < lbot d pc \<longrightarrow> circ_get (live_array d) i \<noteq> None)
     \<and> owner_ok d pc"

definition dsys_inv :: "'t dsys \<Rightarrow> bool" where
  "dsys_inv s \<longleftrightarrow> dq_ok (shared s) (opc s)
     \<and> (\<forall>i. thief_ok (shared s) (climit (shared s) (opc s)) (tpc s i))"

section \<open>The abstract deque\<close>

text \<open>
  What the deque promises its users: a list, and a task that a pop has won from the thieves
  and is about to return. A push adds at the bottom, a pop takes from the bottom, a steal
  takes from the top; a pop reports an empty deque only when the list is empty.
\<close>

type_synonym 't adeque = "'t list \<times> 't option"

inductive adeque_step :: "'t adeque \<Rightarrow> 't dlabel \<Rightarrow> 't adeque \<Rightarrow> bool" where
  a_tau: "adeque_step q DTau q"
| a_push: "adeque_step (xs, h) (DPushed x) (xs @ [x], h)"
| a_pop: "adeque_step (xs @ [x], None) (DPopped (Some x)) (xs, None)"
| a_pop_win: "adeque_step ([x], None) DTau ([], Some x)"
| a_pop_won: "adeque_step (xs, Some x) (DPopped (Some x)) (xs, None)"
| a_pop_empty: "adeque_step ([], None) (DPopped None) ([], None)"
| a_steal: "adeque_step (x # xs, h) (DStolen i \<lparr>res_task = Some x, res_empty = False\<rparr>) (xs, h)"
| a_steal_none: "adeque_step q (DStolen i \<lparr>res_task = None, res_empty = e\<rparr>) q"

fun held :: "'t opc \<Rightarrow> 't option" where
  "held (Pop_restore b r) = r"
| "held pc = None"

definition dq_abs :: "'t dq \<Rightarrow> 't opc \<Rightarrow> 't adeque" where
  "dq_abs d pc = (map the (items d (dtop d) (lbot d pc)), held pc)"

definition dsys_abs :: "'t dsys \<Rightarrow> 't adeque" where
  "dsys_abs s = dq_abs (shared s) (opc s)"

definition adeque_content :: "'t adeque \<Rightarrow> 't multiset" where
  "adeque_content q = mset (fst q) + (case snd q of None \<Rightarrow> {#} | Some x \<Rightarrow> {#x#})"

fun dputs :: "'t dlabel \<Rightarrow> 't multiset" where
  "dputs (DPushed x) = {#x#}"
| "dputs l = {#}"

fun dtakes :: "'t dlabel \<Rightarrow> 't multiset" where
  "dtakes (DPopped (Some x)) = {#x#}"
| "dtakes (DStolen i r) = (case res_task r of None \<Rightarrow> {#} | Some x \<Rightarrow> {#x#})"
| "dtakes l = {#}"

lemma adeque_conserves:
  "adeque_step q l q' \<Longrightarrow> adeque_content q' + dtakes l = adeque_content q + dputs l"
  by (induction rule: adeque_step.induct) (auto simp: adeque_content_def split: option.splits)

inductive_simps adeque_pushed: "adeque_step q (DPushed x) q'"
inductive_simps adeque_popped: "adeque_step q (DPopped r) q'"
inductive_simps adeque_stolen: "adeque_step q (DStolen i r) q'"

section \<open>Thieves are undisturbed\<close>

text \<open>
  What a step may do to the shared state without invalidating a thief: \<open>top_\<close> only grows,
  arrays are only added, and while \<open>top_\<close> stays the entry at \<open>top_\<close> stays available and is
  the same through every array pointer.
\<close>

definition dq_evolves :: "'t dq \<Rightarrow> int \<Rightarrow> 't dq \<Rightarrow> int \<Rightarrow> bool" where
  "dq_evolves d lim d' lim' \<longleftrightarrow> dtop d \<le> dtop d' \<and> darray d \<le> darray d'
     \<and> (dtop d' = dtop d \<and> dtop d < lim \<longrightarrow> dtop d < lim'
         \<and> circ_get (live_array d') (dtop d) = circ_get (live_array d) (dtop d)
         \<and> (\<forall>a \<le> darray d. circ_get (darrays d' ! a) (dtop d) = circ_get (darrays d ! a) (dtop d)))"

lemma dq_evolves_refl [simp]: "lim \<le> lim' \<Longrightarrow> dq_evolves d lim d lim'"
  by (simp add: dq_evolves_def)

lemma thief_ok_evolves: "dq_evolves d lim d' lim' \<Longrightarrow> thief_ok d lim q \<Longrightarrow> thief_ok d' lim' q"
  by (cases q) (auto simp: dq_evolves_def)

lemma evolves_put_at:
  assumes "wf_heap d" and "dtop d < b \<or> lim \<le> dtop d" and "b - dtop d < capacity (live_array d)"
  shows "dq_evolves d lim (put_at d (darray d) b p) lim"
  using assms wf_heap_live [of d]
  by (auto simp: dq_evolves_def dq_simps nth_put_at get_put_other)
    (auto simp: live_array_def)

lemma evolves_install:
  assumes "wf_heap d" and "b - t \<le> capacity (live_array d)" and "t \<le> dtop d" and "lim \<le> b"
  shows "dq_evolves d lim (install_array d (circ_grow (live_array d) b t)) lim"
  using assms
  by (auto simp: dq_evolves_def dq_simps nth_install grow_get)

section \<open>The owner's steps\<close>

declare adeque_step.intros [intro]

lemmas ok_defs = dsys_abs_def dq_ok_def dq_abs_def owner_step_def owner_label_def

lemma push_step_ok:
  assumes "dq_ok d pc" and "in_push pc" and "push_step d pc = (d', pc')"
  shows "dq_ok d' pc' \<and> dq_evolves d (climit d pc) d' (climit d' pc')
    \<and> adeque_step (dq_abs d pc) (owner_label pc pc') (dq_abs d' pc')"
  using assms(2)
proof (cases pc)
  case (Push_check x b t a)
  let ?c = "live_array d"
  have a: "darrays d ! a = ?c" and wf: "wf_heap d"
    and loc: "b = dbot d" "t \<le> dtop d" "b - t \<le> capacity ?c - 1" "0 \<le> dtop d" "dtop d \<le> b"
    using assms(1) Push_check by (auto simp: dq_ok_def live_array_def)
  show ?thesis
  proof (cases "b - t \<ge> capacity ?c - 1")
    case True
    let ?d = "install_array d (circ_grow ?c b t)"
    have res: "d' = ?d" "pc' = Push_put x b (darray ?d)"
      using assms(3) Push_check True a by (auto simp: Let_def)
    have same: "circ_get (live_array ?d) i = circ_get ?c i" if "dtop d \<le> i" "i < b" for i
      using that loc by (simp add: live_install grow_get)
    have "b - dtop d < capacity (circ_grow ?c b t) - 1"
      using loc capacity_pos [of ?c] by (simp del: capacity_pos)
    moreover have "items ?d (dtop d) b = items d (dtop d) b"
      using loc by (intro items_install_grow) auto
    moreover have "dq_evolves d b ?d b"
      using wf loc by (intro evolves_install) auto
    ultimately show ?thesis
      using assms(1) Push_check res wf loc same
      by (auto simp: ok_defs dq_simps)
  next
    case False
    then show ?thesis
      using assms Push_check a by (auto simp: ok_defs)
  qed
next
  case (Push_put x b a)
  let ?d = "put_at d (darray d) b (Some x)"
  have wf: "wf_heap d" and loc: "b = dbot d" "a = darray d" "dtop d \<le> b"
      "b - dtop d < capacity (live_array d) - 1"
    using assms(1) Push_put by (auto simp: dq_ok_def)
  have res: "d' = ?d" "pc' = Push_publish x b"
    using assms(3) Push_put loc by auto
  have "items ?d (dtop d) b = items d (dtop d) b"
    using wf loc by (intro items_put_at) auto
  moreover have "dq_evolves d b ?d b"
    using wf loc by (intro evolves_put_at) auto
  moreover have "circ_get (live_array ?d) i = (if i = b then Some x else circ_get (live_array d) i)"
    if "dtop d \<le> i" "i \<le> b" for i
    using that wf loc wf_heap_live [OF wf] by (auto simp: live_put_at get_put)
  ultimately show ?thesis
    using assms(1) Push_put res wf loc by (auto simp: ok_defs dq_simps)
next
  case (Push_publish x b)
  then have "dq_ok (d\<lparr>dbot := b + 1\<rparr>) PushRet"
    using assms(1) by (auto simp: dq_ok_def dq_simps less_le)
  then show ?thesis
    using Push_publish assms
    by (auto simp: ok_defs dq_simps items_snoc dq_evolves_def)
qed (use assms in \<open>auto simp: ok_defs dq_simps live_array_def\<close>)

lemma pop_step_ok:
  assumes "dq_ok d pc" and "in_pop pc" and "pop_step d pc = (d', pc')"
  shows "dq_ok d' pc' \<and> dq_evolves d (climit d pc) d' (climit d' pc')
    \<and> adeque_step (dq_abs d pc) (owner_label pc pc') (dq_abs d' pc')"
  using assms(2)
proof (cases pc)
  case (Pop_branch b a t)
  have live: "darrays d ! a = live_array d" and loc: "b = dbot d" "t \<le> dtop d"
      "dtop d \<le> climit d pc"
    using assms(1) Pop_branch by (auto simp: dq_ok_def live_array_def)
  show ?thesis
  proof (cases "t < b")
    case True
    with loc Pop_branch have top: "dtop d \<le> b" by simp
    with assms(1) Pop_branch loc obtain x where x: "circ_get (live_array d) b = Some x"
      by (auto simp: dq_ok_def)
    have "items d (dtop d) (b + 1) = items d (dtop d) b @ [Some x]"
      using top x by (simp add: items_snoc)
    then show ?thesis
      using assms Pop_branch True live loc x by (auto simp: ok_defs)
  next
    case False
    then show ?thesis
      using assms Pop_branch live loc by (auto simp: ok_defs Let_def split: if_splits)
  qed
next
  case (Pop_cas b t raw)
  show ?thesis
  proof (cases "dtop d = t")
    case True
    with assms(1) Pop_cas obtain x where x: "circ_get (live_array d) b = Some x"
      by (auto simp: dq_ok_def)
    have "items d b (b + 1) = [Some x]"
      using x by (simp add: items_snoc)
    then show ?thesis
      using assms Pop_cas True x
      by (auto simp: ok_defs cas_top_def dq_simps dq_evolves_def)
  next
    case False
    then show ?thesis
      using assms Pop_cas by (auto simp: ok_defs cas_top_def)
  qed
next
  case (Pop_restore b r)
  then show ?thesis
    using assms by (cases r) (auto simp: ok_defs dq_simps dq_evolves_def)
qed (use assms in \<open>auto simp: ok_defs dq_simps dq_evolves_def\<close>)

lemma owner_step_ok:
  assumes "dq_ok d pc" and "in_push pc \<or> in_pop pc" and "owner_step d pc = (d', pc')"
  shows "dq_ok d' pc'" and "dq_evolves d (climit d pc) d' (climit d' pc')"
    and "adeque_step (dq_abs d pc) (owner_label pc pc') (dq_abs d' pc')"
  using assms push_step_ok [of d pc d' pc'] pop_step_ok [of d pc d' pc']
  by (auto simp: owner_step_def split: if_splits)

section \<open>A thief's steps\<close>

lemma dq_ok_top_bump:
  assumes "dq_ok d pc" and "dtop d < climit d pc"
  shows "dq_ok (d\<lparr>dtop := dtop d + 1\<rparr>) pc"
proof -
  have "lbot (d\<lparr>dtop := t\<rparr>) pc = lbot d pc" "climit (d\<lparr>dtop := t\<rparr>) pc = climit d pc" for t
    by (cases pc; simp)+
  moreover have "owner_ok (d\<lparr>dtop := dtop d + 1\<rparr>) pc"
    using assms by (cases pc) (auto simp: dq_ok_def dq_simps)
  ultimately show ?thesis
    using assms by (auto simp: dq_ok_def dq_simps)
qed

lemma climit_le_lbot: "climit d pc \<le> lbot d pc"
  by (cases pc) auto

lemma thief_step_ok:
  assumes "dq_ok d pc" and "thief_ok d (climit d pc) q" and "thief_step d q = (d', q')" and "in_steal q"
  shows "dq_ok d' pc \<and> thief_ok d' (climit d' pc) q' \<and> dq_evolves d (climit d pc) d' (climit d' pc)
    \<and> adeque_step (dq_abs d pc) (thief_label i q') (dq_abs d' pc)"
  using assms(4)
proof (cases q)
  case (Steal_bot t)
  have "dbot d \<le> climit d pc" if "\<not> (\<exists>b a t. pc = Pop_branch b a t \<and> t < b)"
    using that by (cases pc) auto
  then show ?thesis
    using assms Steal_bot by (cases pc) (auto split: if_splits)
next
  case (Steal_get t a)
  then show ?thesis using assms by auto
next
  case (Steal_cas t raw)
  show ?thesis
  proof (cases "dtop d = t")
    case True
    have lim: "dtop d < climit d pc" "raw = circ_get (live_array d) t"
      using assms(2) Steal_cas True by auto
    then have lt: "dtop d < lbot d pc" using climit_le_lbot [of d pc] by simp
    then obtain x where x: "circ_get (live_array d) (dtop d) = Some x"
      using assms(1) by (auto simp: dq_ok_def)
    have "lbot (d\<lparr>dtop := t + 1\<rparr>) pc = lbot d pc" "climit (d\<lparr>dtop := t + 1\<rparr>) pc = climit d pc"
      by (cases pc; simp)+
    then show ?thesis
      using assms Steal_cas True dq_ok_top_bump [OF assms(1) lim(1)] x lim lt
      by (auto simp: cas_top_def dq_abs_def dq_simps dq_evolves_def items_Cons)
  next
    case False
    then show ?thesis using assms Steal_cas by (auto simp: cas_top_def)
  qed
qed (use assms in \<open>auto simp: dq_ok_def live_array_def\<close>)

section \<open>The system\<close>

lemma dsys_inv_init: "dsys_inv dsys_init"
  using dq_inv_new
  by (auto simp: dsys_inv_def dsys_init_def dq_ok_def dq_inv_def)
    (auto simp: dq_new_def)

lemma dq_step_ok:
  assumes "dsys_inv s" and "dq_step s l s'"
  shows "dsys_inv s' \<and> adeque_step (dsys_abs s) l (dsys_abs s')"
  using assms(2,1)
proof (cases rule: dq_step.cases)
  case (owner d pc)
  with assms(1) show ?thesis
    using owner_step_ok [of "shared s" "opc s" d pc]
    by (auto simp: dsys_inv_def dsys_abs_def intro: thief_ok_evolves)
next
  case (thief i d pc)
  have ok: "dq_ok (shared s) (opc s)" "thief_ok (shared s) (climit (shared s) (opc s)) (tpc s i)"
    using assms(1) by (auto simp: dsys_inv_def)
  from thief_step_ok [OF ok thief(4) thief(3), of i] assms(1) thief(1,2)
  show ?thesis
    by (auto simp: dsys_inv_def dsys_abs_def intro: thief_ok_evolves)
qed (auto simp: dsys_inv_def ok_defs)

interpretation dpool: task_pool dsys_init dq_step dsys_inv
    "\<lambda>s. adeque_content (dsys_abs s)" dputs dtakes
  using dq_step_ok by unfold_locales
    (auto simp: dsys_inv_init adeque_conserves,
     simp add: dsys_init_def dsys_abs_def dq_abs_def dq_new_def adeque_content_def)

lemma run_refines: "lts_run dq_step dsys_init ls s \<Longrightarrow> lts_run adeque_step ([], None) ls (dsys_abs s)"
proof (induction rule: lts_run.induct)
  case run_nil
  have "dsys_abs dsys_init = ([], None)"
    by (simp add: dsys_abs_def dsys_init_def dq_abs_def dq_new_def)
  then show ?case by (simp add: lts_run_Nil_iff)
next
  case (run_snoc ls s l s')
  then show ?case
    using dq_step_ok [OF dpool.run_inv [OF run_snoc.hyps(1)] run_snoc.hyps(2)]
    by (auto intro: lts_run.run_snoc)
qed

section \<open>Solo runs agree with the sequential operations\<close>

text \<open>An operation that no other thread interrupts computes the sequential function.\<close>

definition owner_solo :: "nat \<Rightarrow> 't dq \<Rightarrow> 't opc \<Rightarrow> 't dq \<times> 't opc" where
  "owner_solo n d pc = ((\<lambda>(d, pc). owner_step d pc) ^^ n) (d, pc)"

definition thief_solo :: "nat \<Rightarrow> 't dq \<Rightarrow> 't tpc \<Rightarrow> 't dq \<times> 't tpc" where
  "thief_solo n d pc = ((\<lambda>(d, pc). thief_step d pc) ^^ n) (d, pc)"

lemma solo_simps:
  "owner_solo 0 d pc = (d, pc)" "thief_solo 0 d q = (d, q)"
  "owner_solo (Suc n) d pc = case_prod (owner_solo n) (owner_step d pc)"
  "thief_solo (Suc n) d q = case_prod (thief_solo n) (thief_step d q)"
  by (simp_all add: owner_solo_def thief_solo_def funpow_Suc_right split_def del: funpow.simps(2))

lemma push_solo: "owner_solo 6 d (Push_bot x) = (dq_push d (Some x), PushRet)"
  by (simp add: numeral_eq_Suc solo_simps owner_step_def dq_push_def Let_def live_array_def dq_simps
      install_array_def)

lemma pop_solo: "owner_solo 7 d Pop_bot = (snd (dq_pop d), PopRet (fst (dq_pop d)))"
  by (simp add: numeral_eq_Suc solo_simps owner_step_def dq_pop_def Let_def live_array_def cas_top_def)

lemma steal_solo: "thief_solo 5 d Steal_top = (snd (dq_steal d), StealRet (fst (dq_steal d)))"
  by (simp add: numeral_eq_Suc solo_simps dq_steal_def Let_def live_array_def cas_top_def)

text \<open>The labels of a solo run, and the run of the interleaved system that it is.\<close>

primrec owner_labels :: "nat \<Rightarrow> 't dq \<Rightarrow> 't opc \<Rightarrow> 't dlabel list" where
  "owner_labels 0 d pc = []"
| "owner_labels (Suc n) d pc =
     owner_label pc (snd (owner_step d pc)) # case_prod (owner_labels n) (owner_step d pc)"

primrec thief_labels :: "nat \<Rightarrow> nat \<Rightarrow> 't dq \<Rightarrow> 't tpc \<Rightarrow> 't dlabel list" where
  "thief_labels i 0 d pc = []"
| "thief_labels i (Suc n) d pc =
     thief_label i (snd (thief_step d pc)) # case_prod (thief_labels i n) (thief_step d pc)"

primrec owner_busy :: "nat \<Rightarrow> 't dq \<Rightarrow> 't opc \<Rightarrow> bool" where
  "owner_busy 0 d pc = True"
| "owner_busy (Suc n) d pc \<longleftrightarrow> (in_push pc \<or> in_pop pc) \<and> case_prod (owner_busy n) (owner_step d pc)"

primrec thief_busy :: "nat \<Rightarrow> 't dq \<Rightarrow> 't tpc \<Rightarrow> bool" where
  "thief_busy 0 d pc = True"
| "thief_busy (Suc n) d pc \<longleftrightarrow> in_steal pc \<and> case_prod (thief_busy n) (thief_step d pc)"

lemma owner_run:
  "owner_busy n (shared s) (opc s) \<Longrightarrow> owner_solo n (shared s) (opc s) = (d, pc) \<Longrightarrow>
    lts_run dq_step s (owner_labels n (shared s) (opc s)) (s\<lparr>shared := d, opc := pc\<rparr>)"
proof (induction n arbitrary: s)
  case 0
  then have "s\<lparr>shared := d, opc := pc\<rparr> = s" by (simp add: solo_simps)
  then show ?case by (simp add: lts_run_Nil_iff del: dsys.simps)
next
  case (Suc n)
  obtain d1 pc1 where st: "owner_step (shared s) (opc s) = (d1, pc1)" by fastforce
  let ?s = "s\<lparr>shared := d1, opc := pc1\<rparr>"
  have "lts_run dq_step ?s (owner_labels n d1 pc1) (s\<lparr>shared := d, opc := pc\<rparr>)"
    using Suc.IH [of ?s] Suc.prems st by (simp add: solo_simps)
  then show ?case
    using dq_step.owner [of s d1 pc1] st Suc.prems by (auto intro: lts_run_Cons)
qed

lemma thief_run:
  "thief_busy n (shared s) (tpc s i) \<Longrightarrow> thief_solo n (shared s) (tpc s i) = (d, pc) \<Longrightarrow>
    lts_run dq_step s (thief_labels i n (shared s) (tpc s i)) (s\<lparr>shared := d, tpc := (tpc s)(i := pc)\<rparr>)"
proof (induction n arbitrary: s)
  case 0
  then have "s\<lparr>shared := d, tpc := (tpc s)(i := pc)\<rparr> = s" by (auto simp: solo_simps)
  then show ?case by (simp add: lts_run_Nil_iff del: dsys.simps fun_upd_apply)
next
  case (Suc n)
  obtain d1 pc1 where st: "thief_step (shared s) (tpc s i) = (d1, pc1)" by fastforce
  let ?s = "s\<lparr>shared := d1, tpc := (tpc s)(i := pc1)\<rparr>"
  have "lts_run dq_step ?s (thief_labels i n d1 pc1) (s\<lparr>shared := d, tpc := (tpc s)(i := pc)\<rparr>)"
    using Suc.IH [of ?s] Suc.prems st by (simp add: solo_simps fun_upd_same del: fun_upd_apply)
  then show ?case
    using dq_step.thief [of s i d1 pc1] st Suc.prems
    by (auto intro: lts_run_Cons simp del: fun_upd_apply)
qed

text \<open>A whole push by the owner, and a whole steal from a deque with an entry.\<close>

lemma push_run:
  assumes "opc s = OIdle"
  shows "lts_run dq_step s (replicate 6 DTau @ [DPushed x]) (s\<lparr>shared := dq_push (shared s) (Some x), opc := PushRet\<rparr>)"
proof -
  have "owner_busy 6 (shared s) (Push_bot x)"
    and "owner_labels 6 (shared s) (Push_bot x) = replicate 5 DTau @ [DPushed x]"
    by (simp_all add: numeral_eq_Suc owner_step_def owner_label_def Let_def)
  with owner_run [of 6 "s\<lparr>opc := Push_bot x\<rparr>" "dq_push (shared s) (Some x)" PushRet]
  have "lts_run dq_step (s\<lparr>opc := Push_bot x\<rparr>) (replicate 5 DTau @ [DPushed x])
      (s\<lparr>shared := dq_push (shared s) (Some x), opc := PushRet\<rparr>)"
    by (simp add: push_solo)
  with call_push [OF assms] show ?thesis
    by (auto simp: numeral_eq_Suc intro: lts_run_Cons)
qed

lemma steal_run:
  assumes "tpc s i = TIdle" and "dtop (shared s) < dbot (shared s)"
  shows "lts_run dq_step s (replicate 5 DTau @ [DStolen i (fst (dq_steal (shared s)))])
    (s\<lparr>shared := snd (dq_steal (shared s)), tpc := (tpc s)(i := StealRet (fst (dq_steal (shared s))))\<rparr>)"
proof -
  have "thief_busy 5 (shared s) Steal_top"
    and "thief_labels i 5 (shared s) Steal_top = replicate 4 DTau @ [DStolen i (fst (dq_steal (shared s)))]"
    using assms(2) by (simp_all add: numeral_eq_Suc Let_def cas_top_def dq_steal_def live_array_def)
  with thief_run [of 5 "s\<lparr>tpc := (tpc s)(i := Steal_top)\<rparr>" i "snd (dq_steal (shared s))"
      "StealRet (fst (dq_steal (shared s)))"]
  have "lts_run dq_step (s\<lparr>tpc := (tpc s)(i := Steal_top)\<rparr>)
      (replicate 4 DTau @ [DStolen i (fst (dq_steal (shared s)))])
      (s\<lparr>shared := snd (dq_steal (shared s)), tpc := (tpc s)(i := StealRet (fst (dq_steal (shared s))))\<rparr>)"
    by (simp add: steal_solo)
  with call_steal [OF assms(1)] show ?thesis
    by (auto simp: numeral_eq_Suc intro: lts_run_Cons)
qed

text \<open>The run in which the owner pushes 7 and thief 0 steals it.\<close>

definition demo_labels :: "nat dlabel list" where
  "demo_labels = replicate 6 DTau @ [DPushed 7] @ replicate 5 DTau
     @ [DStolen 0 \<lparr>res_task = Some 7, res_empty = False\<rparr>]"

lemma demo_run: "\<exists>s. lts_run dq_step dsys_init demo_labels s \<and> dsys_abs s = ([], None)"
proof -
  let ?s0 = "dsys_init :: nat dsys" and ?d1 = "dq_push dq_new (Some 7) :: nat dq"
  let ?s1 = "dsys_init\<lparr>shared := ?d1, opc := PushRet\<rparr>"
  have d1: "dq_inv ?d1" "dq_list ?d1 = [Some 7]"
    using dq_push_refines [OF dq_inv_new, of "Some (7::nat)"] by (simp_all add: dq_list_new)
  then have "dtop ?d1 < dbot ?d1"
    using items_eq_Nil_iff [of ?d1 "dtop ?d1" "dbot ?d1"] by (simp add: dq_list_def)
  moreover have st: "fst (dq_steal ?d1) = \<lparr>res_task = Some 7, res_empty = False\<rparr>"
      "dq_list (snd (dq_steal ?d1)) = []"
    using dq_steal_refines [OF d1(1)] d1(2) by simp_all
  ultimately have "lts_run dq_step ?s1 (replicate 5 DTau @ [DStolen 0 \<lparr>res_task = Some 7, res_empty = False\<rparr>])
      (?s1\<lparr>shared := snd (dq_steal ?d1), tpc := (tpc ?s1)(0 := StealRet (fst (dq_steal ?d1)))\<rparr>)"
    using steal_run [of ?s1 0] by (simp add: dsys_init_def)
  from lts_run_append [OF this, of ?s0 "replicate 6 DTau @ [DPushed 7]"] push_run [of ?s0 7] st(2)
  show ?thesis
    by (auto simp: demo_labels_def dsys_init_def dsys_abs_def dq_abs_def dq_list_def)
qed

lemma demo_tally: "tally dputs demo_labels = {#7#}" "tally dtakes demo_labels = {#7#}"
  by (simp_all add: demo_labels_def numeral_eq_Suc)

section \<open>What the results say\<close>

lemma popped_none_empty: "dsys_inv s \<Longrightarrow> dq_step s (DPopped None) s' \<Longrightarrow> fst (dsys_abs s) = []"
  using dq_step_ok [of s "DPopped None" s'] by (auto simp: adeque_popped)

text \<open>
  A steal may report an empty deque while a pop is under way on its last entry, and only
  then while the deque holds one.
\<close>

lemma steal_empty_report:
  assumes "dsys_inv s" and "dq_step s (DStolen i r) s'" and "res_empty r"
  shows "fst (dsys_abs s) = [] \<or>
    (\<exists>x. fst (dsys_abs s) = [x]) \<and> lbot (shared s) (opc s) = dbot (shared s) + 1"
proof -
  let ?d = "shared s"
  from assms(2) have "\<exists>t. tpc s i = Steal_bot t \<and> dbot ?d \<le> t"
  proof (cases rule: dq_step.cases)
    case (owner d pc)
    then show ?thesis by (cases "opc s"; cases pc) (auto simp: owner_label_def)
  next
    case (thief j d pc)
    then show ?thesis using assms(3)
      by (cases "tpc s j"; cases pc) (auto simp: cas_top_def split: if_splits)
  qed
  then obtain t where t: "tpc s i = Steal_bot t" "dbot ?d \<le> t" by blast
  then have top: "dbot ?d \<le> dtop ?d"
    using assms(1) by (auto simp: dsys_inv_def dest: spec [of _ i])
  have lb: "lbot ?d (opc s) = dbot ?d \<or> lbot ?d (opc s) = dbot ?d + 1"
    by (cases "opc s") auto
  then show ?thesis
  proof
    assume "lbot ?d (opc s) = dbot ?d"
    with top show ?thesis by (simp add: dsys_abs_def dq_abs_def items_eq_Nil_iff)
  next
    assume e: "lbot ?d (opc s) = dbot ?d + 1"
    show ?thesis
    proof (cases "dtop ?d = dbot ?d")
      case True
      with e items_snoc [of "dtop ?d" "dtop ?d" ?d] show ?thesis
        by (simp add: dsys_abs_def dq_abs_def)
    next
      case False
      with e top show ?thesis by (simp add: dsys_abs_def dq_abs_def items_eq_Nil_iff)
    qed
  qed
qed

text \<open>A steal that loses its race lost it to a thread that has taken an entry since.\<close>

lemma steal_lost_race:
  assumes "dq_step s (DStolen i r) s'" and "dsys_inv s" and "res_task r = None" and "\<not> res_empty r"
  shows "\<exists>t raw. tpc s i = Steal_cas t raw \<and> t < dtop (shared s)"
  using assms(1)
proof (cases rule: dq_step.cases)
  case (owner d pc)
  then show ?thesis by (cases "opc s"; cases pc) (auto simp: owner_label_def)
next
  case (thief j d pc)
  have ok: "dq_ok (shared s) (opc s)" "thief_ok (shared s) (climit (shared s) (opc s)) (tpc s j)"
    using assms(2) by (auto simp: dsys_inv_def)
  have lim: "climit (shared s) (opc s) \<le> lbot (shared s) (opc s)" by (rule climit_le_lbot)
  from thief assms(3,4) have j: "j = i" "pc = StealRet r"
    by (cases pc; simp)+
  then obtain t raw where q: "tpc s i = Steal_cas t raw"
    using thief assms(4) by (cases "tpc s i") (auto split: if_splits)
  have "dtop (shared s) \<noteq> t"
  proof
    assume "dtop (shared s) = t"
    then have "raw \<noteq> None" and "r = \<lparr>res_task = raw, res_empty = False\<rparr>"
      using thief j q ok lim by (auto simp: cas_top_def dq_ok_def)
    with assms(3) show False by simp
  qed
  with ok q j show ?thesis by auto
qed

section \<open>Indices\<close>

text \<open>
  \<open>top_\<close> never decreases. Every index stays between -1 and the number of pushes, so the
  \<^verbatim>\<open>int64_t\<close> arithmetic of the code is exact for fewer than \<open>2 ^ 63\<close> pushes.
\<close>

lemma dq_step_top_mono:
  assumes "dsys_inv s" and "dq_step s l s'"
  shows "dtop (shared s) \<le> dtop (shared s')"
  using assms(2)
proof (cases rule: dq_step.cases)
  case (owner d pc)
  then show ?thesis
    using owner_step_ok(2) [of "shared s" "opc s" d pc] assms(1) by (auto simp: dsys_inv_def dq_evolves_def)
next
  case (thief i d pc)
  then show ?thesis
    using thief_step_ok [of "shared s" "opc s" "tpc s i" d pc] assms(1)
    by (auto simp: dsys_inv_def dq_evolves_def)
qed auto

lemma dq_step_lbot:
  assumes "dsys_inv s" and "dq_step s l s'"
  shows "lbot (shared s') (opc s') \<le> lbot (shared s) (opc s) + int (size (dputs l))"
  using assms(2)
proof (cases rule: dq_step.cases)
  case (owner d pc)
  have "owner_ok (shared s) (opc s)" using assms(1) by (auto simp: dsys_inv_def dq_ok_def)
  with owner show ?thesis
    by (cases "opc s")
      (auto simp: owner_step_def owner_label_def Let_def cas_top_def dq_simps install_array_def split: if_splits)
next
  case (thief i d pc)
  have "lbot d (opc s) = lbot (shared s) (opc s)"
    using thief by (cases "tpc s i"; cases "opc s") (auto simp: cas_top_def split: if_splits)
  with thief show ?thesis by simp
qed auto

lemma run_indices:
  assumes "lts_run dq_step dsys_init ls s"
  shows "0 \<le> dtop (shared s) \<and> dtop (shared s) \<le> int (size (tally dputs ls))
    \<and> -1 \<le> dbot (shared s) \<and> dbot (shared s) \<le> int (size (tally dputs ls))"
proof -
  have inv: "dsys_inv s" by (rule dpool.run_inv [OF assms])
  have "lbot (shared s) (opc s) \<le> int (size (tally dputs ls))"
    using assms
  proof (induction rule: lts_run.induct)
    case run_nil
    then show ?case by (simp add: dsys_init_def dq_new_def)
  next
    case (run_snoc ls s l s')
    then show ?case using dq_step_lbot [OF dpool.run_inv [OF run_snoc.hyps(1)] run_snoc.hyps(2)] by simp
  qed
  moreover have "dbot (shared s) \<le> lbot (shared s) (opc s)" "lbot (shared s) (opc s) \<le> dbot (shared s) + 1"
    by (cases "opc s"; simp)+
  ultimately show ?thesis
    using inv climit_le_lbot [of "shared s" "opc s"] by (auto simp: dsys_inv_def dq_ok_def)
qed

text \<open>A number in this range is the one its 64-bit word stands for.\<close>

lemma int64_exact:
  assumes "-1 \<le> i" and "i \<le> int m" and "m < 2 ^ 63"
  shows "sint (of_int i :: 64 word) = i"
proof -
  have "int m < 2 ^ 63" using assms(3) by (metis of_nat_less_iff of_nat_numeral of_nat_power)
  with assms(1,2) show ?thesis by (simp add: signed_of_int signed_take_bit_int_eq_self)
qed

section \<open>Properties\<close>

text \<open>C1. No task is lost or duplicated, whatever the interleaving of the owner and the thieves:
  the tasks pushed are those still in the deque and those returned by pops and steals, each as
  often as it was pushed.\<close>

theorem deque_conserves_tasks:
  assumes "lts_run dq_step dsys_init ls s"
  shows "tally dputs ls = adeque_content (dsys_abs s) + tally dtakes ls"
  by (rule dpool.conservation [OF assms])

theorem deque_conserves_tasks_witness:
  "\<exists>s. lts_run dq_step dsys_init demo_labels s
    \<and> tally dputs demo_labels = adeque_content (dsys_abs s) + tally dtakes demo_labels
    \<and> tally dtakes demo_labels = {#7#}"
  using demo_run deque_conserves_tasks [of demo_labels] by (auto simp: demo_tally)

text \<open>C9. The concurrent deque implements the abstract deque: every interleaved run, with the
  results its operations return, is a run of a list that is pushed and popped at the bottom and
  stolen from at the top.\<close>

theorem deque_implements_abstract:
  assumes "lts_run dq_step dsys_init ls s"
  shows "lts_run adeque_step ([], None) ls (dsys_abs s)"
  by (rule run_refines [OF assms])

theorem deque_implements_abstract_witness:
  "lts_run adeque_step ([], None) demo_labels ([], None)"
  using demo_run deque_implements_abstract [of demo_labels] by metis

text \<open>C21. What the results say is true when they are returned: a pop returns null only if the deque
  is empty; a steal reports empty only if the deque is empty or its one entry is being popped; a
  steal that lost its race lost it to a thread that has moved \<open>top_\<close> past the index it read.\<close>

theorem deque_results_truthful:
  assumes "lts_run dq_step dsys_init ls s" and "dq_step s l s'"
  shows "(l = DPopped None \<longrightarrow> fst (dsys_abs s) = [])
    \<and> (\<forall>i r. l = DStolen i r \<and> res_empty r \<longrightarrow> fst (dsys_abs s) = []
         \<or> (\<exists>x. fst (dsys_abs s) = [x]) \<and> lbot (shared s) (opc s) = dbot (shared s) + 1)
    \<and> (\<forall>i r. l = DStolen i r \<and> res_task r = None \<and> \<not> res_empty r \<longrightarrow>
         (\<exists>t raw. tpc s i = Steal_cas t raw \<and> t < dtop (shared s)))"
proof -
  have inv: "dsys_inv s" by (rule dpool.run_inv [OF assms(1)])
  from popped_none_empty [OF inv] steal_empty_report [OF inv] steal_lost_race [OF _ inv] assms(2)
  show ?thesis by blast
qed

theorem deque_results_truthful_witness:
  "\<exists>s s'. dq_step s (DStolen 0 \<lparr>res_task = None, res_empty = True\<rparr>) (s' :: nat dsys)
    \<and> fst (dsys_abs s) = []"
proof -
  let ?s0 = "dsys_init :: nat dsys"
  let ?s1 = "?s0\<lparr>tpc := (tpc ?s0)(0 := Steal_top)\<rparr>"
  let ?s2 = "?s1\<lparr>shared := shared ?s1, tpc := (tpc ?s1)(0 := Steal_bot 0)\<rparr>"
  have 1: "dq_step ?s0 DTau ?s1"
    by (rule call_steal) (simp add: dsys_init_def)
  have 2: "dq_step ?s1 (thief_label 0 (Steal_bot 0)) ?s2"
    by (rule thief) (simp_all add: dsys_init_def dq_new_def)
  have 3: "dq_step ?s2 (thief_label 0 (StealRet \<lparr>res_task = None, res_empty = True\<rparr>))
    (?s2\<lparr>shared := shared ?s2, tpc := (tpc ?s2)(0 := StealRet \<lparr>res_task = None, res_empty = True\<rparr>)\<rparr>)"
    by (rule thief) (simp_all add: dsys_init_def dq_new_def)
  have "lts_run dq_step ?s0 [DTau, thief_label 0 (Steal_bot 0)] ?s2"
    using 1 2 by (blast intro: lts_run_Cons run_nil)
  from deque_results_truthful [OF this 3] 3 show ?thesis
    by (fastforce simp: dsys_abs_def dq_abs_def dsys_init_def dq_new_def)
qed

text \<open>C33. In every interleaving \<open>top_\<close> stays between 0 and the number of pushes and \<open>bot_\<close> between -1
  and the number of pushes, also while operations are under way. So with fewer than \<open>2 ^ 63\<close> pushes
  both are the values of the 64-bit words that hold them: \<^verbatim>\<open>int64_t\<close> does not overflow.\<close>

theorem deque_indices_bounded:
  assumes "lts_run dq_step dsys_init ls s"
  shows "0 \<le> dtop (shared s) \<and> dtop (shared s) \<le> int (size (tally dputs ls))
    \<and> -1 \<le> dbot (shared s) \<and> dbot (shared s) \<le> int (size (tally dputs ls))
    \<and> (size (tally dputs ls) < 2 ^ 63 \<longrightarrow>
         sint (of_int (dtop (shared s)) :: 64 word) = dtop (shared s)
         \<and> sint (of_int (dbot (shared s)) :: 64 word) = dbot (shared s))"
  using run_indices [OF assms] by (auto intro!: int64_exact)

theorem deque_indices_bounded_witness:
  "\<exists>s. lts_run dq_step dsys_init demo_labels s \<and> dbot (shared s) \<le> 1
    \<and> sint (of_int (dbot (shared s)) :: 64 word) = dbot (shared s)"
proof -
  obtain s where s: "lts_run dq_step dsys_init demo_labels s" using demo_run by blast
  have "size (tally dputs demo_labels) = 1" by (simp add: demo_tally)
  with deque_indices_bounded [OF s] s show ?thesis by auto
qed

end
