(* ===== verification/Deque_TSO.thy ===== *)
theory Deque_TSO
  imports Deque_Machine
begin

text \<open>
  \<^verbatim>\<open>ChaseLevDeque\<close> on a machine with store buffers, as x86 processors have them: a store goes
  into the buffer of its thread, which the machine empties into memory in order and at a time of
  its own choosing; a load sees the own buffered stores, then memory. \<^verbatim>\<open>atomic_thread_fence(seq_cst)\<close>
  and the compare-and-swap wait until the buffer is empty. Relaxed, acquire and release accesses
  and the release fence are plain loads and stores there. Thieves write by compare-and-swap only, so only
  the owner's buffer is ever filled. The steps are those of \<open>Deque_Machine\<close>.
\<close>

section \<open>The machine\<close>

text \<open>
  The new array is not reachable before \<^verbatim>\<open>array_.store(next)\<close>, and the stores that fill it precede
  that store in the buffer, so the growth is one buffered store.
\<close>

datatype 't store = St_install "'t circ" | St_put nat int "'t option" | St_bot int

fun apply_store :: "'t store \<Rightarrow> 't dq \<Rightarrow> 't dq" where
  "apply_store (St_install c) d = install_array d c"
| "apply_store (St_put a b p) d = put_at d a b p"
| "apply_store (St_bot b) d = d\<lparr>dbot := b\<rparr>"

text \<open>What a step of the owner stores.\<close>

fun owner_stores :: "'t dq \<Rightarrow> 't opc \<Rightarrow> 't store list" where
  "owner_stores d (Push_check x b t a) =
     (if b - t \<ge> capacity (darrays d ! a) - 1 then [St_install (circ_grow (darrays d ! a) b t)] else [])"
| "owner_stores d (Push_put x b a) = [St_put a b (Some x)]"
| "owner_stores d (Push_publish x b) = [St_bot (b + 1)]"
| "owner_stores d (Pop_store b a) = [St_bot b]"
| "owner_stores d (Pop_restore b r) = [St_bot (b + 1)]"
| "owner_stores d pc = []"

text \<open>The fence of \<open>pop_bottom\<close> stands before its load of \<^verbatim>\<open>top_\<close>.\<close>

fun needs_drained :: "'t opc \<Rightarrow> bool" where
  "needs_drained (Pop_top b a) = True"
| "needs_drained (Pop_cas b t raw) = True"
| "needs_drained pc = False"

fun is_cas :: "'t opc \<Rightarrow> bool" where
  "is_cas (Pop_cas b t raw) = True"
| "is_cas pc = False"

record 't tso =
  tmem :: "'t dq"
  tbuf :: "'t store list"
  towner :: "'t opc"
  tthief :: "nat \<Rightarrow> 't tpc"

definition tso_init :: "'t tso" where
  "tso_init = \<lparr>tmem = dq_new, tbuf = [], towner = OIdle, tthief = (\<lambda>_. TIdle)\<rparr>"

definition owner_view :: "'t tso \<Rightarrow> 't dq" where
  "owner_view s = fold apply_store (tbuf s) (tmem s)"

inductive tso_step :: "'t tso \<Rightarrow> 't dlabel \<Rightarrow> 't tso \<Rightarrow> bool" where
  flush: "tbuf s = st # buf \<Longrightarrow> tso_step s DTau (s\<lparr>tmem := apply_store st (tmem s), tbuf := buf\<rparr>)"
| call_push: "towner s = OIdle \<Longrightarrow> tso_step s DTau (s\<lparr>towner := Push_bot x\<rparr>)"
| call_pop: "towner s = OIdle \<Longrightarrow> tso_step s DTau (s\<lparr>towner := Pop_bot\<rparr>)"
| owner: "in_push (towner s) \<or> in_pop (towner s) \<Longrightarrow>
    (needs_drained (towner s) \<Longrightarrow> tbuf s = []) \<Longrightarrow>
    owner_step (owner_view s) (towner s) = (d, pc) \<Longrightarrow>
    tso_step s (owner_label (towner s) pc)
      (s\<lparr>tmem := if is_cas (towner s) then d else tmem s,
         tbuf := tbuf s @ owner_stores (owner_view s) (towner s), towner := pc\<rparr>)"
| push_return: "towner s = PushRet \<Longrightarrow> tso_step s DTau (s\<lparr>towner := OIdle\<rparr>)"
| pop_return: "towner s = PopRet r \<Longrightarrow> tso_step s DTau (s\<lparr>towner := OIdle\<rparr>)"
| call_steal: "tthief s i = TIdle \<Longrightarrow> tso_step s DTau (s\<lparr>tthief := (tthief s)(i := Steal_top)\<rparr>)"
| thief: "in_steal (tthief s i) \<Longrightarrow> thief_step (tmem s) (tthief s i) = (d, q) \<Longrightarrow>
    tso_step s (thief_label i q) (s\<lparr>tmem := d, tthief := (tthief s)(i := q)\<rparr>)"
| steal_return: "tthief s i = StealRet r \<Longrightarrow> tso_step s DTau (s\<lparr>tthief := (tthief s)(i := TIdle)\<rparr>)"

text \<open>What the owner buffers is what it changes in its own view.\<close>

lemma owner_step_stores:
  "owner_step d pc = (d', pc') \<Longrightarrow> \<not> is_cas pc \<Longrightarrow> d' = fold apply_store (owner_stores d pc) d"
  by (cases pc) (auto simp: owner_step_def Let_def split: if_splits)

section \<open>Memory catches up with the owner\<close>

text \<open>
  From \<open>m\<close> to \<open>m'\<close> indices grow and arrays are added, and the entries below the old \<open>bot_\<close> stay the
  same through every array pointer.
\<close>

definition grows :: "'t dq \<Rightarrow> 't dq \<Rightarrow> bool" where
  "grows m m' \<longleftrightarrow> wf_heap m \<and> wf_heap m' \<and> dtop m' = dtop m \<and> darray m \<le> darray m' \<and> dbot m \<le> dbot m'
     \<and> (\<forall>i. dtop m \<le> i \<and> i < dbot m \<longrightarrow> circ_get (live_array m') i = circ_get (live_array m) i
         \<and> (\<forall>a \<le> darray m. circ_get (darrays m' ! a) i = circ_get (darrays m ! a) i))"

lemma grows_refl [simp]: "grows m m = wf_heap m"
  by (auto simp: grows_def)

lemma grows_trans: "grows m m' \<Longrightarrow> grows m' m'' \<Longrightarrow> grows m m''"
  unfolding grows_def by (auto dest: order.trans order.strict_trans2)

lemma grows_put:
  assumes "wf_heap d" and "dbot d - dtop d < capacity (live_array d)"
  shows "grows d (put_at d (darray d) (dbot d) p)"
  using assms wf_heap_live [of d]
  by (auto simp: grows_def dq_simps nth_put_at get_put_other) (auto simp: live_array_def)

lemma grows_install:
  assumes "wf_heap d" and "dbot d - t \<le> capacity (live_array d)" and "t \<le> dtop d"
  shows "grows d (install_array d (circ_grow (live_array d) (dbot d) t))"
  using assms by (auto simp: grows_def dq_simps nth_install grow_get)

lemma grows_bot: "wf_heap d \<Longrightarrow> dbot d \<le> b \<Longrightarrow> grows d (d\<lparr>dbot := b\<rparr>)"
  by (simp add: grows_def dq_simps)

lemma grows_top: "grows m m' \<Longrightarrow> grows (m\<lparr>dtop := dtop m + 1\<rparr>) (m'\<lparr>dtop := dtop m + 1\<rparr>)"
  by (auto simp: grows_def dq_simps)

lemma grows_evolves: "grows m m' \<Longrightarrow> dbot m' \<le> lim \<Longrightarrow> dq_evolves m (dbot m) m' lim"
  by (auto simp: grows_def dq_evolves_def)

text \<open>Every buffered store lets memory grow.\<close>

fun chain :: "'t store list \<Rightarrow> 't dq \<Rightarrow> bool" where
  "chain [] m = wf_heap m"
| "chain (st # sts) m \<longleftrightarrow> grows m (apply_store st m) \<and> chain sts (apply_store st m)"

lemma chain_grows: "chain sts m \<Longrightarrow> grows m (fold apply_store sts m)"
  by (induction sts arbitrary: m) (auto intro: grows_trans)

lemma chain_wf: "chain sts m \<Longrightarrow> wf_heap m"
  by (cases sts) (auto simp: grows_def)

lemma chain_append: "chain (sts @ sts') m \<longleftrightarrow> chain sts m \<and> chain sts' (fold apply_store sts m)"
  using chain_wf by (induction sts arbitrary: m) auto

lemma apply_store_top: "apply_store st (d\<lparr>dtop := t\<rparr>) = (apply_store st d)\<lparr>dtop := t\<rparr>"
  by (cases st) (simp_all add: install_array_def put_at_def)

lemma fold_stores_top: "fold apply_store sts (d\<lparr>dtop := t\<rparr>) = (fold apply_store sts d)\<lparr>dtop := t\<rparr>"
  by (induction sts arbitrary: d) (simp_all add: apply_store_top)

lemma apply_store_keeps_top [simp]: "dtop (apply_store st d) = dtop d"
  by (cases st) (simp_all add: dq_simps)

lemma fold_stores_keeps_top [simp]: "dtop (fold apply_store sts d) = dtop d"
  by (induction sts arbitrary: d) simp_all

lemma chain_top: "chain sts m \<Longrightarrow> chain sts (m\<lparr>dtop := dtop m + 1\<rparr>)"
proof (induction sts arbitrary: m)
  case (Cons st sts)
  then show ?case
    using grows_top [of m "apply_store st m"] Cons.IH [of "apply_store st m"] by (simp add: apply_store_top)
qed (simp add: dq_simps)

lemma owner_stores_chain:
  assumes "dq_ok d pc" and "\<nexists>b a. pc = Pop_store b a"
  shows "chain (owner_stores d pc) d"
proof (cases pc)
  case (Push_check x b t a)
  then show ?thesis
    using assms grows_install [of d t] by (auto simp: dq_ok_def live_array_def grows_def)
next
  case (Push_put x b a)
  then show ?thesis using assms grows_put [of d "Some x"] by (auto simp: dq_ok_def grows_def)
qed (use assms grows_bot [of d] in \<open>auto simp: dq_ok_def dq_simps\<close>)

section \<open>The invariant\<close>

text \<open>
  A pop that waits at its fence counts as standing before its store of \<^verbatim>\<open>bot_\<close>, which no other
  thread has seen. All other stores count as done: the deque is what the owner sees.
\<close>

definition lagging :: "'t tso \<Rightarrow> bool" where
  "lagging s \<longleftrightarrow> tbuf s \<noteq> [] \<and> (\<exists>b a. towner s = Pop_top b a)"

fun before_store :: "'t opc \<Rightarrow> 't opc" where
  "before_store (Pop_top b a) = Pop_store b a"
| "before_store pc = pc"

definition pending :: "'t tso \<Rightarrow> 't store list" where
  "pending s = (if lagging s then butlast (tbuf s) else tbuf s)"

definition tso_owner :: "'t tso \<Rightarrow> 't opc" where
  "tso_owner s = (if lagging s then before_store (towner s) else towner s)"

definition tso_shared :: "'t tso \<Rightarrow> 't dq" where
  "tso_shared s = fold apply_store (pending s) (tmem s)"

definition tso_abs :: "'t tso \<Rightarrow> 't adeque" where
  "tso_abs s = dq_abs (tso_shared s) (tso_owner s)"

text \<open>While a pop is deciding, its fence has emptied the buffer.\<close>

fun open_pop :: "'t opc \<Rightarrow> bool" where
  "open_pop (Pop_top b a) = True"
| "open_pop (Pop_branch b a t) = True"
| "open_pop (Pop_cas b t raw) = True"
| "open_pop (Pop_restore b r) = True"
| "open_pop pc = False"

fun buf_ok :: "'t store list \<Rightarrow> 't opc \<Rightarrow> bool" where
  "buf_ok buf (Pop_top b a) \<longleftrightarrow> buf = [] \<or> last buf = St_bot b"
| "buf_ok buf pc \<longleftrightarrow> buf = [] \<or> \<not> open_pop pc"

text \<open>Thieves can win the indices below this limit.\<close>

definition visible :: "'t tso \<Rightarrow> int" where
  "visible s = (if tbuf s = [] then climit (tmem s) (towner s) else dbot (tmem s))"

definition tso_inv :: "'t tso \<Rightarrow> bool" where
  "tso_inv s \<longleftrightarrow> dq_ok (tso_shared s) (tso_owner s) \<and> chain (pending s) (tmem s)
     \<and> buf_ok (tbuf s) (towner s) \<and> (\<forall>i. thief_ok (tmem s) (visible s) (tthief s i))"

lemmas tso_defs = lagging_def pending_def tso_owner_def tso_shared_def visible_def tso_abs_def owner_view_def

lemma climit_closed: "\<not> open_pop pc \<Longrightarrow> climit d pc = dbot d \<and> lbot d pc = dbot d"
  by (cases pc) auto

lemma dbot_le_climit: "dbot d \<le> climit d pc"
  by (cases pc) auto

lemma tso_facts:
  assumes "tso_inv s"
  shows "grows (tmem s) (tso_shared s)" and "dtop (tso_shared s) = dtop (tmem s)"
    and "visible s \<le> climit (tso_shared s) (tso_owner s)" and "dbot (tmem s) \<le> visible s"
    and "dtop (tmem s) \<le> i \<Longrightarrow> i < visible s \<Longrightarrow> circ_get (live_array (tmem s)) i = circ_get (live_array (tso_shared s)) i"
proof -
  show g: "grows (tmem s) (tso_shared s)" using assms chain_grows unfolding tso_inv_def tso_shared_def by blast
  show "dtop (tso_shared s) = dtop (tmem s)" by (simp add: tso_shared_def)
  show "dbot (tmem s) \<le> visible s" by (simp add: visible_def dbot_le_climit)
  have same: "tso_shared s = tmem s" "tso_owner s = towner s" if "tbuf s = []" using that by (simp_all add: tso_defs)
  show "visible s \<le> climit (tso_shared s) (tso_owner s)"
    using g dbot_le_climit [of "tso_shared s" "tso_owner s"] same by (auto simp: visible_def grows_def intro: order.trans)
  show "dtop (tmem s) \<le> i \<Longrightarrow> i < visible s \<Longrightarrow> circ_get (live_array (tmem s)) i = circ_get (live_array (tso_shared s)) i"
    using g same by (cases "tbuf s = []") (auto simp: visible_def grows_def)
qed

section \<open>The steps\<close>

definition keeps :: "'t tso \<Rightarrow> 't dlabel \<Rightarrow> 't tso \<Rightarrow> bool" where
  "keeps s l s' \<longleftrightarrow> tso_inv s' \<and> adeque_step (tso_abs s) l (tso_abs s')"

lemma thieves_evolve:
  assumes "tso_inv s" and "dq_evolves (tmem s) (visible s) m lim"
  shows "thief_ok m lim (tthief s i)"
  using assms(1) thief_ok_evolves [OF assms(2)] unfolding tso_inv_def by blast

text \<open>The store that the fence waits for reaches memory: now the pop takes its step.\<close>

lemma fence_passed:
  assumes inv: "tso_inv s" and lag: "lagging s" and buf: "tbuf s = [st]"
  shows "keeps s DTau (s\<lparr>tmem := apply_store st (tmem s), tbuf := []\<rparr>)"
proof -
  obtain b a where pc: "towner s = Pop_top b a" using lag by (auto simp: lagging_def)
  then have st: "st = St_bot b" using inv buf by (simp add: tso_inv_def)
  let ?s = "s\<lparr>tmem := (tmem s)\<lparr>dbot := b\<rparr>, tbuf := []\<rparr>"
  have old: "tso_shared s = tmem s" "tso_owner s = Pop_store b a" and vis: "visible s = climit (tmem s) (Pop_store b a)"
    using lag buf pc by (simp_all add: tso_defs)
  have new: "tso_shared ?s = (tmem s)\<lparr>dbot := b\<rparr>" "tso_owner ?s = Pop_top b a" "pending ?s = []"
      "visible ?s = climit ((tmem s)\<lparr>dbot := b\<rparr>) (Pop_top b a)"
    using pc by (simp_all add: tso_defs)
  have ok: "dq_ok (tmem s) (Pop_store b a)" and wf: "wf_heap (tmem s)"
    using inv old by (auto simp: tso_inv_def dest: chain_wf)
  note step = owner_step_ok [OF ok, of "(tmem s)\<lparr>dbot := b\<rparr>" "Pop_top b a", simplified owner_step_def, simplified]
  have "thief_ok (tmem ?s) (visible ?s) (tthief s i)" for i
    using step(2) vis by (intro thieves_evolve [OF inv]) (simp add: new)
  with step(1,3) wf pc show ?thesis
    by (simp add: keeps_def tso_inv_def tso_abs_def old new st owner_label_def dq_simps)
qed

lemma flush_ok:
  assumes inv: "tso_inv s" and buf: "tbuf s = st # buf"
  shows "keeps s DTau (s\<lparr>tmem := apply_store st (tmem s), tbuf := buf\<rparr>)"
proof (cases "lagging s \<and> buf = []")
  case True
  with inv buf show ?thesis using fence_passed by blast
next
  case False
  let ?s = "s\<lparr>tmem := apply_store st (tmem s), tbuf := buf\<rparr>"
  have pend: "pending s = st # pending ?s" and pc: "tso_owner ?s = tso_owner s"
    using False buf by (auto simp: tso_defs)
  have shared: "tso_shared ?s = tso_shared s" by (simp add: tso_shared_def pend)
  have grow: "grows (tmem s) (apply_store st (tmem s))" and chain: "chain (pending ?s) (apply_store st (tmem s))"
    using inv pend by (auto simp: tso_inv_def)
  have "visible s = dbot (tmem s)" "dbot (tmem ?s) \<le> visible ?s" using buf by (simp_all add: visible_def dbot_le_climit)
  with grow have "thief_ok (tmem ?s) (visible ?s) (tthief s i)" for i
    by (intro thieves_evolve [OF inv]) (simp add: grows_evolves)
  moreover have "buf_ok buf (towner s)"
    using inv buf False by (cases "towner s") (auto simp: tso_inv_def lagging_def split: if_splits)
  ultimately show ?thesis
    using inv chain by (auto simp: keeps_def tso_inv_def tso_abs_def shared pc)
qed

lemma thief_keeps:
  assumes inv: "tso_inv s" and busy: "in_steal (tthief s i)" and st: "thief_step (tmem s) (tthief s i) = (d, q)"
  shows "keeps s (thief_label i q) (s\<lparr>tmem := d, tthief := (tthief s)(i := q)\<rparr>)"
proof -
  have old: "thief_ok (tmem s) (visible s) (tthief s i)" using inv by (simp add: tso_inv_def)
  have reads: ?thesis if "d = tmem s" and "thief_ok (tmem s) (visible s) q" and "adeque_step (tso_abs s) (thief_label i q) (tso_abs s)"
  proof -
    let ?s = "s\<lparr>tmem := tmem s, tthief := (tthief s)(i := q)\<rparr>"
    have "pending ?s = pending s" "tso_owner ?s = tso_owner s" "tso_shared ?s = tso_shared s" "visible ?s = visible s"
      by (simp_all add: tso_defs)
    with that inv show ?thesis by (simp add: keeps_def tso_inv_def tso_abs_def)
  qed
  show ?thesis
  proof (cases "\<exists>raw. tthief s i = Steal_cas (dtop (tmem s)) raw")
    case False
    define p where "p = tthief s i"
    note local = False [folded p_def] st [folded p_def] old [folded p_def] busy [folded p_def]
    have "d = tmem s \<and> thief_ok (tmem s) (visible s) q \<and> adeque_step (tso_abs s) (thief_label i q) (tso_abs s)"
      using local tso_facts(4) [OF inv] by (cases p) (auto simp: cas_top_def live_array_def split: if_splits)
    then show ?thesis using reads by blast
  next
    case True
    let ?t = "dtop (tmem s)" and ?D = "tso_shared s" and ?pc = "tso_owner s"
    obtain raw where cas: "tthief s i = Steal_cas ?t raw" using True by blast
    with old have lt: "?t < visible s" "raw = circ_get (live_array (tmem s)) ?t" by auto
    then have "thief_ok ?D (climit ?D ?pc) (Steal_cas ?t raw)" using tso_facts [OF inv] by auto
    moreover have "dq_ok ?D ?pc" using inv by (simp add: tso_inv_def)
    moreover have q: "d = (tmem s)\<lparr>dtop := ?t + 1\<rparr>" "q = StealRet \<lparr>res_task = raw, res_empty = False\<rparr>"
      using st cas by (simp_all add: cas_top_def)
    moreover have "thief_step ?D (Steal_cas ?t raw) = (?D\<lparr>dtop := ?t + 1\<rparr>, q)"
      using tso_facts(2) [OF inv] by (simp add: cas_top_def q(2))
    ultimately have won: "dq_ok (?D\<lparr>dtop := ?t + 1\<rparr>) ?pc \<and> adeque_step (dq_abs ?D ?pc) (thief_label i q) (dq_abs (?D\<lparr>dtop := ?t + 1\<rparr>) ?pc)"
      using thief_step_ok [of ?D ?pc "Steal_cas ?t raw" _ q i] by (simp del: thief_label.simps)
    let ?s = "s\<lparr>tmem := d, tthief := (tthief s)(i := q)\<rparr>"
    have new: "pending ?s = pending s" "tso_owner ?s = ?pc" "tso_shared ?s = ?D\<lparr>dtop := ?t + 1\<rparr>"
      by (simp_all add: tso_defs q(1) fold_stores_top)
    have "dq_evolves (tmem s) (visible s) d (visible ?s)" by (simp add: dq_evolves_def q(1))
    then have "thief_ok d (visible ?s) (tthief s j)" for j by (rule thieves_evolve [OF inv])
    moreover have "chain (pending s) d" using inv q(1) by (simp add: tso_inv_def chain_top)
    ultimately show ?thesis
      using won inv by (simp add: keeps_def tso_inv_def tso_abs_def new [unfolded q(2)] q(2))
  qed
qed

text \<open>A pop that is deciding runs with an empty buffer: memory is what the owner sees.\<close>

lemma open_pop_keeps:
  assumes inv: "tso_inv s" and pc: "open_pop (towner s)" and buf: "tbuf s = []"
    and st: "owner_step (tmem s) (towner s) = (d, pc')"
  shows "keeps s (owner_label (towner s) pc')
    (s\<lparr>tmem := if is_cas (towner s) then d else tmem s, tbuf := owner_stores (tmem s) (towner s), towner := pc'\<rparr>)"
proof -
  have here: "tso_shared s = tmem s" "tso_owner s = towner s" "visible s = climit (tmem s) (towner s)" using buf by (simp_all add: tso_defs)
  have ok: "dq_ok (tmem s) (towner s)" using inv by (simp add: tso_inv_def here)
  have "in_push (towner s) \<or> in_pop (towner s)" using pc by (cases "towner s") auto
  note step = owner_step_ok [OF ok this st]
  show ?thesis
  proof (cases "\<exists>b r. towner s = Pop_restore b r")
    case True
    then obtain b r where pc: "towner s = Pop_restore b r" by blast
    let ?s = "s\<lparr>tbuf := [St_bot (b + 1)], towner := PopRet r\<rparr>"
    have res: "d = (tmem s)\<lparr>dbot := b + 1\<rparr>" "pc' = PopRet r" using st pc by (auto simp: owner_step_def)
    have new: "pending ?s = [St_bot (b + 1)]" "tso_owner ?s = PopRet r" "tso_shared ?s = d" "visible ?s = dbot (tmem s)"
      by (simp_all add: tso_defs res)
    have "dq_evolves (tmem s) (visible s) (tmem s) (dbot (tmem s))"
      using ok pc by (auto simp: here(3) dq_evolves_def dq_ok_def)
    then have "thief_ok (tmem s) (dbot (tmem s)) (tthief s j)" for j by (rule thieves_evolve [OF inv])
    then show ?thesis
      using step owner_stores_chain [OF ok] pc by (simp add: keeps_def tso_inv_def tso_abs_def here new res)
  next
    case False
    then have none: "owner_stores (tmem s) (towner s) = []" using pc by (cases "towner s") auto
    then have mem: "(if is_cas (towner s) then d else tmem s) = d" using owner_step_stores [OF st] by auto
    let ?s = "s\<lparr>tmem := d, tbuf := [], towner := pc'\<rparr>"
    have new: "pending ?s = []" "tso_owner ?s = pc'" "tso_shared ?s = d" "visible ?s = climit d pc'"
      by (simp_all add: tso_defs)
    have "thief_ok d (climit d pc') (tthief s j)" for j
      using step(2) by (intro thieves_evolve [OF inv]) (simp add: here)
    moreover have "buf_ok [] pc'" by (cases pc') auto
    moreover have "wf_heap d" using step(1) by (simp add: dq_ok_def)
    ultimately show ?thesis
      using step by (simp add: keeps_def tso_inv_def tso_abs_def here new none mem del: if_split)
  qed
qed

text \<open>Everything else the owner does ahead of memory.\<close>

lemma closed_keeps:
  assumes inv: "tso_inv s" and pc: "in_push (towner s) \<or> in_pop (towner s)" "\<not> open_pop (towner s)"
    and st: "owner_step (owner_view s) (towner s) = (d, pc')"
  shows "keeps s (owner_label (towner s) pc')
    (s\<lparr>tbuf := tbuf s @ owner_stores (owner_view s) (towner s), towner := pc'\<rparr>)"
proof -
  let ?s = "s\<lparr>tbuf := tbuf s @ owner_stores (owner_view s) (towner s), towner := pc'\<rparr>"
  have "\<not> lagging s" using pc(2) by (auto simp: lagging_def)
  then have here: "tso_shared s = owner_view s" "tso_owner s = towner s" "pending s = tbuf s"
    by (simp_all add: pending_def tso_owner_def tso_shared_def owner_view_def)
  have ok: "dq_ok (owner_view s) (towner s)" and chain: "chain (tbuf s) (tmem s)" using inv by (simp_all add: tso_inv_def here)
  note step = owner_step_ok [OF ok pc(1) st]
  have low: "visible s = dbot (tmem s)" using climit_closed [OF pc(2)] by (simp add: visible_def)
  show ?thesis
  proof (cases "\<exists>b a. towner s = Pop_store b a")
    case True
    then obtain b a where pc: "towner s = Pop_store b a" by blast
    have res: "pc' = Pop_top b a" using st pc by (auto simp: owner_step_def)
    have new: "pending ?s = tbuf s" "tso_owner ?s = towner s" "tso_shared ?s = tso_shared s" "visible ?s = visible s"
      using pc res low by (simp_all add: here) (simp_all add: tso_defs)
    then show ?thesis
      using inv pc res by (simp add: keeps_def tso_inv_def tso_abs_def here owner_label_def a_tau)
  next
    case False
    have closed: "\<not> open_pop pc'" using st pc False by (cases "towner s") (auto simp: owner_step_def Let_def split: if_splits)
    have "\<not> is_cas (towner s)" using pc(2) by (cases "towner s") auto
    from owner_step_stores [OF st this] have d: "d = fold apply_store (owner_stores (owner_view s) (towner s)) (owner_view s)" .
    have new: "pending ?s = tbuf s @ owner_stores (owner_view s) (towner s)" "tso_owner ?s = pc'" "tso_shared ?s = d"
        "visible ?s = dbot (tmem s)"
      using closed climit_closed [OF closed] d by (auto simp: tso_defs)
    have "buf_ok (tbuf ?s) pc'" using closed by (cases pc') auto
    moreover have "chain (pending ?s) (tmem s)"
      unfolding new chain_append using chain owner_stores_chain [OF ok False] by (simp add: owner_view_def)
    ultimately show ?thesis
      using inv step by (simp add: keeps_def tso_inv_def tso_abs_def here new low)
  qed
qed

lemma tso_step_keeps:
  assumes "tso_inv s" and "tso_step s l s'"
  shows "keeps s l s'"
  using assms(2)
proof (cases rule: tso_step.cases)
  case (flush st buf)
  then show ?thesis using flush_ok [OF assms(1)] by simp
next
  case (owner d pc)
  show ?thesis
  proof (cases "open_pop (towner s)")
    case True
    have "tbuf s = []" using True owner(4) assms(1) by (cases "towner s") (auto simp: tso_inv_def)
    with open_pop_keeps [OF assms(1) True this] owner show ?thesis by (simp add: owner_view_def)
  next
    case False
    then have "\<not> is_cas (towner s)" by (cases "towner s") auto
    then have "s' = s\<lparr>tbuf := tbuf s @ owner_stores (owner_view s) (towner s), towner := pc\<rparr>" using owner(2) by simp
    with closed_keeps [OF assms(1) owner(3) False owner(5)] owner(1) show ?thesis by simp
  qed
next
  case (thief i d q)
  with thief_keeps [OF assms(1)] show ?thesis by simp
qed (use assms(1) in \<open>auto simp: keeps_def tso_inv_def tso_defs ok_defs split: if_splits\<close>)

section \<open>Runs\<close>

lemma tso_inv_init: "tso_inv tso_init"
  using dsys_inv_init
  by (auto simp: tso_inv_def tso_defs tso_init_def dsys_inv_def dsys_init_def dq_ok_def)

interpretation tsopool: task_pool tso_init tso_step tso_inv
    "\<lambda>s. adeque_content (tso_abs s)" dputs dtakes
  using tso_step_keeps unfolding keeps_def
  by unfold_locales (auto simp: tso_inv_init adeque_conserves,
    simp add: tso_init_def tso_defs dq_abs_def dq_new_def adeque_content_def)

lemma tso_run_refines: "lts_run tso_step tso_init ls s \<Longrightarrow> lts_run adeque_step ([], None) ls (tso_abs s)"
proof (induction rule: lts_run.induct)
  case run_nil
  have "tso_abs tso_init = ([], None)"
    by (simp add: tso_defs tso_init_def dq_abs_def dq_new_def)
  then show ?case by (simp add: lts_run_Nil_iff)
next
  case (run_snoc ls s l s')
  then show ?case
    using tso_step_keeps [OF tsopool.run_inv [OF run_snoc.hyps(1)] run_snoc.hyps(2)]
    by (auto simp: keeps_def intro: lts_run.run_snoc)
qed

text \<open>Who moves: the buffer, the owner (a new operation, a step, the return), or a thief.\<close>

datatype 't tso_turn = T_flush | T_push 't | T_pop | T_owner | T_thief nat

fun tso_do :: "'t tso_turn \<Rightarrow> 't tso \<Rightarrow> ('t dlabel \<times> 't tso) option" where
  "tso_do T_flush s =
     (case tbuf s of [] \<Rightarrow> None | st # buf \<Rightarrow> Some (DTau, s\<lparr>tmem := apply_store st (tmem s), tbuf := buf\<rparr>))"
| "tso_do (T_push x) s = (if towner s = OIdle then Some (DTau, s\<lparr>towner := Push_bot x\<rparr>) else None)"
| "tso_do T_pop s = (if towner s = OIdle then Some (DTau, s\<lparr>towner := Pop_bot\<rparr>) else None)"
| "tso_do T_owner s =
     (if in_push (towner s) \<or> in_pop (towner s)
      then if needs_drained (towner s) \<and> tbuf s \<noteq> [] then None
        else case owner_step (owner_view s) (towner s) of (d, pc) \<Rightarrow>
          Some (owner_label (towner s) pc,
            s\<lparr>tmem := if is_cas (towner s) then d else tmem s,
              tbuf := tbuf s @ owner_stores (owner_view s) (towner s), towner := pc\<rparr>)
      else case towner s of OIdle \<Rightarrow> None | _ \<Rightarrow> Some (DTau, s\<lparr>towner := OIdle\<rparr>))"
| "tso_do (T_thief i) s =
     (if in_steal (tthief s i)
      then case thief_step (tmem s) (tthief s i) of (d, q) \<Rightarrow>
          Some (thief_label i q, s\<lparr>tmem := d, tthief := (tthief s)(i := q)\<rparr>)
      else case tthief s i of TIdle \<Rightarrow> Some (DTau, s\<lparr>tthief := (tthief s)(i := Steal_top)\<rparr>)
        | _ \<Rightarrow> Some (DTau, s\<lparr>tthief := (tthief s)(i := TIdle)\<rparr>))"

lemma tso_do_step: "tso_do a s = Some (l, s') \<Longrightarrow> tso_step s l s'"
proof (cases a)
  case T_owner
  assume do: "tso_do a s = Some (l, s')"
  show ?thesis
  proof (cases "in_push (towner s) \<or> in_pop (towner s)")
    case True
    obtain d pc where st: "owner_step (owner_view s) (towner s) = (d, pc)" by fastforce
    have "needs_drained (towner s) \<Longrightarrow> tbuf s = []" using do T_owner True by (auto split: if_splits)
    from tso_step.owner [OF True this st] show ?thesis using do T_owner True st by (auto split: if_splits)
  next
    case False
    with do T_owner show ?thesis by (cases "towner s") (auto intro: tso_step.push_return tso_step.pop_return)
  qed
next
  case (T_thief i)
  assume do: "tso_do a s = Some (l, s')"
  show ?thesis
  proof (cases "in_steal (tthief s i)")
    case True
    obtain d q where st: "thief_step (tmem s) (tthief s i) = (d, q)" by fastforce
    from tso_step.thief [OF True st] show ?thesis using do T_thief True st by simp
  next
    case False
    with do T_thief show ?thesis by (cases "tthief s i") (auto intro: tso_step.call_steal tso_step.steal_return)
  qed
qed (auto split: list.splits if_splits intro: tso_step.intros)

lemma tso_play: "lts_run tso_step s (fst (play tso_do ts s)) (snd (play tso_do ts s))"
  by (rule play_run [OF tso_do_step]) simp_all

definition push_turns :: "'t \<Rightarrow> 't tso_turn list" where
  "push_turns x = T_push x # replicate 7 T_owner"

definition steal_turns :: "nat \<Rightarrow> 't tso_turn list" where
  "steal_turns i = replicate 7 (T_thief i)"

text \<open>1 and 2 are pushed. A thief finds the deque empty while they are buffered, and steals 1 when they
  are not; the owner pops 2.\<close>

definition fenced_run :: "nat dlabel list \<times> nat tso" where
  "fenced_run = play tso_do (push_turns 1 @ push_turns 2 @ steal_turns 0 @ replicate 4 T_flush @ steal_turns 0
     @ [T_pop] @ replicate 9 T_owner @ [T_flush] @ replicate 9 T_owner) tso_init"

section \<open>Properties\<close>

text \<open>C10. Store buffers do not break the deque: with the owner's stores reaching memory in order but
  arbitrarily late, every interleaved run is a run of the abstract list, with the results that its
  operations return, and no task is lost or duplicated.\<close>

theorem deque_tolerates_store_buffers:
  assumes "lts_run tso_step tso_init ls s"
  shows "lts_run adeque_step ([], None) ls (tso_abs s)
    \<and> tally dputs ls = adeque_content (tso_abs s) + tally dtakes ls"
  using tso_run_refines [OF assms] tsopool.conservation [OF assms] by blast

theorem deque_tolerates_store_buffers_witness:
  "DStolen 0 \<lparr>res_task = None, res_empty = True\<rparr> \<in> set (fst fenced_run)
   \<and> tally dputs (fst fenced_run) = tally dtakes (fst fenced_run) \<and> adeque_content (tso_abs (snd fenced_run)) = {#}"
proof -
  have "lts_run tso_step tso_init (fst fenced_run) (snd fenced_run)"
    unfolding fenced_run_def by (rule tso_play)
  note kept = deque_tolerates_store_buffers [OF this, THEN conjunct2]
  have "DStolen 0 \<lparr>res_task = None, res_empty = True\<rparr> \<in> set (fst fenced_run)" by code_simp
  moreover have "tally dputs (fst fenced_run) = {#1, 2#}" by code_simp
  moreover have "tally dtakes (fst fenced_run) = {#1, 2#}" by code_simp
  ultimately show ?thesis using kept by simp
qed

end
