(* ===== verification/Scheduler.thy ===== *)
theory Scheduler
  imports Prelude
begin

text \<open>
  The interface \<^verbatim>\<open>IScheduler\<close> of \<^verbatim>\<open>include/scheduler.hpp\<close> and the tasks of
  \<^verbatim>\<open>include/task.hpp\<close>. A task is its identity, of any type: what its callable does is
  user code, so while a worker runs a task it may call \<open>submit\<close> any number of times, with
  any tasks, and then return. A scheduler is a labelled step system; its labels are what
  its user sees: the calls and returns of \<open>submit\<close> and \<open>run\<close>, and the begin and end of
  every task's callable. \<open>sched_spec\<close> is what \<open>submit\<close> and \<open>run\<close> promise, and the locale
  \<open>scheduler\<close> says that an implementation keeps the promise.
\<close>

section \<open>Threads, labels, the promise\<close>

text \<open>The thread that owns the scheduler and calls \<open>run\<close>, and the workers \<open>run\<close> launches.\<close>

datatype thread = Main | Worker nat

lemma all_thread: "(\<forall>th. P th) \<longleftrightarrow> P Main \<and> (\<forall>w. P (Worker w))"
  by (metis thread.exhaust)

datatype 't slabel =
    STau                  \<comment> \<open>a step inside the scheduler\<close>
  | SCall thread 't       \<comment> \<open>the thread calls \<open>submit\<close>\<close>
  | SRet thread           \<comment> \<open>its \<open>submit\<close> returns\<close>
  | SStart nat 't         \<comment> \<open>a worker calls the task's \<open>run\<close>\<close>
  | SFinish nat 't        \<comment> \<open>the task's \<open>run\<close> returns\<close>
  | SRunCall nat          \<comment> \<open>\<open>run\<close> is called with a number of workers\<close>
  | SRunRet               \<comment> \<open>\<open>run\<close> returns\<close>

record 't sched_state =
  sp_queued :: "'t multiset"
  sp_running :: "nat \<Rightarrow> 't option"
  sp_phase :: "nat option"

definition spec_init :: "'t sched_state" where
  "spec_init = \<lparr>sp_queued = {#}, sp_running = (\<lambda>_. None), sp_phase = None\<rparr>"

inductive sched_spec :: "'t sched_state \<Rightarrow> 't slabel \<Rightarrow> 't sched_state \<Rightarrow> bool" where
  sp_tau: "sched_spec p STau p"
| sp_call_main: "sp_phase p = None \<Longrightarrow>
    sched_spec p (SCall Main t) (p\<lparr>sp_queued := add_mset t (sp_queued p)\<rparr>)"
| sp_call_worker: "sp_running p w \<noteq> None \<Longrightarrow>
    sched_spec p (SCall (Worker w) t) (p\<lparr>sp_queued := add_mset t (sp_queued p)\<rparr>)"
| sp_ret: "sched_spec p (SRet th) p"
| sp_start: "sp_phase p = Some n \<Longrightarrow> w < n \<Longrightarrow> sp_running p w = None \<Longrightarrow> sp_queued p = add_mset t q \<Longrightarrow>
    sched_spec p (SStart w t) (p\<lparr>sp_queued := q, sp_running := (sp_running p)(w := Some t)\<rparr>)"
| sp_finish: "sp_running p w = Some t \<Longrightarrow>
    sched_spec p (SFinish w t) (p\<lparr>sp_running := (sp_running p)(w := None)\<rparr>)"
| sp_run: "sp_phase p = None \<Longrightarrow> sched_spec p (SRunCall n) (p\<lparr>sp_phase := Some n\<rparr>)"
| sp_run_ret: "sp_phase p \<noteq> None \<Longrightarrow> sp_queued p = {#} \<Longrightarrow> \<forall>w. sp_running p w = None \<Longrightarrow>
    sched_spec p SRunRet (p\<lparr>sp_phase := None\<rparr>)"

declare sched_spec.intros [intro]

inductive_simps sched_spec_simps:
  "sched_spec p STau p'"
  "sched_spec p (SCall th t) p'"
  "sched_spec p (SRet th) p'"
  "sched_spec p (SStart w t) p'"
  "sched_spec p (SFinish w t) p'"
  "sched_spec p (SRunCall n) p'"
  "sched_spec p SRunRet p'"

text \<open>A task runs only inside \<open>run\<close>, on one of the workers it launched.\<close>

definition spec_wf :: "'t sched_state \<Rightarrow> bool" where
  "spec_wf p \<longleftrightarrow> (\<forall>w. (case sp_phase p of None \<Rightarrow> True | Some n \<Rightarrow> n \<le> w) \<longrightarrow> sp_running p w = None)"

lemma spec_wf_step: "spec_wf p \<Longrightarrow> sched_spec p l p' \<Longrightarrow> spec_wf p'"
  by (auto simp: spec_wf_def elim!: sched_spec.cases split: option.splits)

definition active_tasks :: "(nat \<Rightarrow> 't option) \<Rightarrow> 't multiset" where
  "active_tasks r = image_mset (\<lambda>w. the (r w)) (mset_set (dom r))"

lemma active_empty [simp]: "active_tasks (\<lambda>_. None) = {#}"
  by (simp add: active_tasks_def)

lemma active_start: "finite (dom r) \<Longrightarrow> r w = None \<Longrightarrow> active_tasks (r(w := Some t)) = add_mset t (active_tasks r)"
  by (auto simp: active_tasks_def domIff intro!: image_mset_cong)

lemma active_finish:
  assumes "finite (dom r)" and "r w = Some t"
  shows "active_tasks r = add_mset t (active_tasks (r(w := None)))"
proof -
  have "active_tasks ((r(w := None))(w := Some t)) = add_mset t (active_tasks (r(w := None)))"
    using assms(1) by (intro active_start) auto
  moreover have "(r(w := None))(w := Some t) = r"
    using assms(2) by auto
  ultimately show ?thesis by metis
qed

lemma spec_wf_finite: "spec_wf p \<Longrightarrow> finite (dom (sp_running p))"
proof -
  assume wf: "spec_wf p"
  let ?n = "case sp_phase p of None \<Rightarrow> 0 | Some n \<Rightarrow> n"
  have "sp_running p w = None" if "?n \<le> w" for w
    using wf that unfolding spec_wf_def by (cases "sp_phase p") auto
  then have "dom (sp_running p) \<subseteq> {..< ?n}"
    by (metis domIff lessThan_iff not_le subsetI)
  then show ?thesis by (rule finite_subset) simp
qed

fun submitted :: "'t slabel \<Rightarrow> 't multiset" where
  "submitted (SCall th t) = {#t#}"
| "submitted l = {#}"

fun started :: "'t slabel \<Rightarrow> 't multiset" where
  "started (SStart w t) = {#t#}"
| "started l = {#}"

fun finished :: "'t slabel \<Rightarrow> 't multiset" where
  "finished (SFinish w t) = {#t#}"
| "finished l = {#}"

lemma spec_queue_step: "sched_spec p l p' \<Longrightarrow> sp_queued p' + started l = sp_queued p + submitted l"
  by (auto elim!: sched_spec.cases)

lemma spec_active_step:
  assumes "spec_wf p" and "sched_spec p l p'"
  shows "active_tasks (sp_running p') + finished l = active_tasks (sp_running p) + started l"
  using assms(2) spec_wf_finite [OF assms(1)]
  by cases (auto simp: active_start dest: active_finish)

text \<open>
  A schedule of a scheduler: who moves next, and what the user's code does. \<open>Do th\<close> is
  the next step of a thread inside the scheduler.
\<close>

datatype 't act = Submit thread 't | Finish nat | Run nat | Do thread

section \<open>The contract of an implementation\<close>

locale scheduler =
  fixes init :: 's
    and step :: "'s \<Rightarrow> 't slabel \<Rightarrow> 's \<Rightarrow> bool"
    and inv :: "'s \<Rightarrow> bool"
    and view :: "'s \<Rightarrow> 't sched_state"
  assumes init_ok: "inv init" "view init = spec_init"
    and step_inv: "inv s \<Longrightarrow> step s l s' \<Longrightarrow> inv s'"
    and step_spec: "inv s \<Longrightarrow> step s l s' \<Longrightarrow> sched_spec (view s) l (view s')"
begin

lemma wf_step: "inv s \<and> spec_wf (view s) \<Longrightarrow> step s l s' \<Longrightarrow> inv s' \<and> spec_wf (view s')"
  using step_inv step_spec spec_wf_step by blast

lemma wf_init: "inv init \<and> spec_wf (view init)"
  using init_ok by (simp add: spec_wf_def spec_init_def)

end

text \<open>
  A scheduler is two task pools in a row: tasks go from \<open>submit\<close> to the queue and from the
  queue to the workers.
\<close>

sublocale scheduler \<subseteq> waiting: task_pool init step "\<lambda>s. inv s \<and> spec_wf (view s)"
    "\<lambda>s. sp_queued (view s)" submitted started
proof
  show "inv init \<and> spec_wf (view init)" by (rule wf_init)
  show "sp_queued (view init) = {#}" by (simp add: init_ok spec_init_def)
  show "inv s' \<and> spec_wf (view s')" if "inv s \<and> spec_wf (view s)" and "step s l s'" for s l s'
    using that by (rule wf_step)
  show "sp_queued (view s') + started l = sp_queued (view s) + submitted l"
    if "inv s \<and> spec_wf (view s)" and "step s l s'" for s l s'
    using that by (intro spec_queue_step step_spec) auto
qed

sublocale scheduler \<subseteq> executing: task_pool init step "\<lambda>s. inv s \<and> spec_wf (view s)"
    "\<lambda>s. active_tasks (sp_running (view s))" started finished
proof
  show "inv init \<and> spec_wf (view init)" by (rule wf_init)
  show "active_tasks (sp_running (view init)) = {#}" by (simp add: init_ok spec_init_def)
  show "inv s' \<and> spec_wf (view s')" if "inv s \<and> spec_wf (view s)" and "step s l s'" for s l s'
    using that by (rule wf_step)
  show "active_tasks (sp_running (view s')) + finished l = active_tasks (sp_running (view s)) + started l"
    if "inv s \<and> spec_wf (view s)" and "step s l s'" for s l s'
    using that by (intro spec_active_step step_spec) auto
qed

context scheduler begin

lemma run_view: "lts_run step init ls s \<Longrightarrow> lts_run sched_spec spec_init ls (view s)"
proof (induction rule: lts_run.induct)
  case run_nil
  then show ?case by (simp add: init_ok lts_run_Nil_iff)
next
  case (run_snoc ls s l s')
  then show ?case
    using waiting.run_inv [OF run_snoc.hyps(1)] step_spec by (blast intro: lts_run.run_snoc)
qed

lemma account:
  "lts_run step init ls s \<Longrightarrow>
    tally submitted ls = sp_queued (view s) + active_tasks (sp_running (view s)) + tally finished ls"
  using waiting.conservation [of ls s] executing.conservation [of ls s] by (simp add: ac_simps)

lemma never_twice:
  "lts_run step init ls s \<Longrightarrow>
    tally started ls \<subseteq># tally submitted ls \<and> tally finished ls \<subseteq># tally started ls"
  using waiting.takes_subset executing.takes_subset by blast

lemma return_complete:
  assumes "lts_run step init (ls @ [SRunRet]) s"
  shows "tally started ls = tally submitted ls \<and> tally finished ls = tally submitted ls"
proof -
  from assms obtain s1 where s1: "lts_run step init ls s1" "step s1 SRunRet s"
    by (auto simp: lts_run_snoc_iff)
  then have "sched_spec (view s1) SRunRet (view s)"
    using waiting.run_inv step_spec by blast
  then have "sp_queued (view s1) = {#}" "sp_running (view s1) = (\<lambda>_. None)"
    by (auto simp: sched_spec_simps)
  with waiting.conservation [OF s1(1)] executing.conservation [OF s1(1)]
  show ?thesis by simp
qed

end

end
