(* ===== verification/Mutex_Queue.thy ===== *)
theory Mutex_Queue
  imports Scheduler
begin

text \<open>
  \<^verbatim>\<open>class MutexQueueScheduler\<close> of \<^verbatim>\<open>include/mutex_queue_scheduler.hpp\<close>: one queue under a
  mutex, workers that sleep on \<^verbatim>\<open>cv_\<close>, and a caller of \<open>run\<close> that sleeps on \<^verbatim>\<open>done_cv_\<close>. A
  thread is a program counter; a step is one acquisition or release of the mutex, one access
  to a shared variable, or one notification. Waiting on a condition variable is the code's
  loop: evaluate the predicate under the lock; if it fails, release the lock and sleep (one
  atomic step of \<^verbatim>\<open>wait\<close>); when woken, acquire the lock again and evaluate again.
\<close>

section \<open>State\<close>

text \<open>The stages of \<open>submit\<close>.\<close>

datatype 't msub =
    Sub_lock 't | Sub_add 't | Sub_push 't | Sub_unlock | Sub_notify

text \<open>The stages of \<open>worker_loop\<close>.\<close>

datatype 't mworker =
    W_lock                     \<comment> \<open>acquire \<^verbatim>\<open>mu_\<close> (first, or woken)\<close>
  | W_check                    \<comment> \<open>the predicate of \<^verbatim>\<open>cv_.wait\<close>\<close>
  | W_block                    \<comment> \<open>release \<^verbatim>\<open>mu_\<close> and sleep\<close>
  | W_sleep
  | W_take                     \<comment> \<open>exit, or pop the front\<close>
  | W_run 't                   \<comment> \<open>inside the task\<close>
  | W_submit 't "'t msub"      \<comment> \<open>inside a \<open>submit\<close> called by the task\<close>
  | W_dec                      \<comment> \<open>\<^verbatim>\<open>pending_.fetch_sub\<close>\<close>
  | W_notify                   \<comment> \<open>\<^verbatim>\<open>done_cv_.notify_all\<close>\<close>
  | W_exit

text \<open>The stages of the thread that calls \<open>submit\<close> and \<open>run\<close>.\<close>

datatype 't mmain =
    M_idle
  | M_submit "'t msub"
  | R_lock | R_reset | R_spawn
  | R_lock2 | R_check | R_block | R_sleep | R_shut
  | R_notify | R_join

record 't mq =
  mq_mu :: "thread option"
  mq_queue :: "'t list"
  mq_pending :: int
  mq_shutdown :: bool
  mq_n :: nat
  mq_main :: "'t mmain"
  mq_workers :: "'t mworker list"

definition mq_init :: "'t mq" where
  "mq_init = \<lparr>mq_mu = None, mq_queue = [], mq_pending = 0, mq_shutdown = False, mq_n = 0,
     mq_main = M_idle, mq_workers = []\<rparr>"

section \<open>Steps\<close>

text \<open>The body of \<open>submit\<close> up to its notification; a locked mutex blocks (\<open>None\<close>).\<close>

fun mq_submit_step :: "thread \<Rightarrow> 't mq \<Rightarrow> 't msub \<Rightarrow> ('t mq \<times> 't msub) option" where
  "mq_submit_step th s (Sub_lock t) =
     (if mq_mu s = None then Some (s\<lparr>mq_mu := Some th\<rparr>, Sub_add t) else None)"
| "mq_submit_step th s (Sub_add t) = Some (s\<lparr>mq_pending := mq_pending s + 1\<rparr>, Sub_push t)"
| "mq_submit_step th s (Sub_push t) = Some (s\<lparr>mq_queue := mq_queue s @ [t]\<rparr>, Sub_unlock)"
| "mq_submit_step th s Sub_unlock = Some (s\<lparr>mq_mu := None\<rparr>, Sub_notify)"
| "mq_submit_step th s Sub_notify = None"

text \<open>\<^verbatim>\<open>cv_.notify_one\<close> wakes some sleeping worker, if any; \<^verbatim>\<open>cv_.notify_all\<close> every one.\<close>

inductive notify_one :: "'t mworker list \<Rightarrow> 't mworker list \<Rightarrow> bool" where
  wake_one: "j < length ws \<Longrightarrow> ws ! j = W_sleep \<Longrightarrow> notify_one ws (ws[j := W_lock])"
| wake_none: "W_sleep \<notin> set ws \<Longrightarrow> notify_one ws ws"

definition notify_all :: "'t mworker list \<Rightarrow> 't mworker list" where
  "notify_all ws = map (\<lambda>pc. case pc of W_sleep \<Rightarrow> W_lock | _ \<Rightarrow> pc) ws"

definition notify_done :: "'t mmain \<Rightarrow> 't mmain" where
  "notify_done pc = (case pc of R_sleep \<Rightarrow> R_lock2 | _ \<Rightarrow> pc)"

definition set_worker :: "'t mq \<Rightarrow> nat \<Rightarrow> 't mworker \<Rightarrow> 't mq" where
  "set_worker s w pc = s\<lparr>mq_workers := (mq_workers s)[w := pc]\<rparr>"

definition at_worker :: "'t mq \<Rightarrow> nat \<Rightarrow> 't mworker \<Rightarrow> bool" where
  "at_worker s w pc \<longleftrightarrow> w < length (mq_workers s) \<and> mq_workers s ! w = pc"

text \<open>The steps of a worker that its environment does not see.\<close>

fun mq_worker_step :: "nat \<Rightarrow> 't mq \<Rightarrow> 't mworker \<Rightarrow> ('t mq \<times> 't mworker) option" where
  "mq_worker_step w s W_lock =
     (if mq_mu s = None then Some (s\<lparr>mq_mu := Some (Worker w)\<rparr>, W_check) else None)"
| "mq_worker_step w s W_check =
     (if mq_queue s \<noteq> [] \<or> mq_shutdown s then Some (s, W_take) else Some (s, W_block))"
| "mq_worker_step w s W_block = Some (s\<lparr>mq_mu := None\<rparr>, W_sleep)"
| "mq_worker_step w s W_take =
     (if mq_queue s = [] then Some (s\<lparr>mq_mu := None\<rparr>, W_exit) else None)"
| "mq_worker_step w s (W_submit t p) =
     (case mq_submit_step (Worker w) s p of None \<Rightarrow> None | Some (s', p') \<Rightarrow> Some (s', W_submit t p'))"
| "mq_worker_step w s W_dec =
     (let remaining = mq_pending s - 1
      in Some (s\<lparr>mq_pending := remaining\<rparr>, if remaining = 0 then W_notify else W_lock))"
| "mq_worker_step w s W_notify = Some (s\<lparr>mq_main := notify_done (mq_main s)\<rparr>, W_lock)"
| "mq_worker_step w s pc = None"

text \<open>The steps of \<open>run\<close> that its environment does not see.\<close>

fun mq_main_step :: "'t mq \<Rightarrow> 't mmain \<Rightarrow> ('t mq \<times> 't mmain) option" where
  "mq_main_step s (M_submit p) =
     (case mq_submit_step Main s p of None \<Rightarrow> None | Some (s', p') \<Rightarrow> Some (s', M_submit p'))"
| "mq_main_step s R_lock = (if mq_mu s = None then Some (s\<lparr>mq_mu := Some Main\<rparr>, R_reset) else None)"
| "mq_main_step s R_reset = Some (s\<lparr>mq_shutdown := False, mq_mu := None\<rparr>, R_spawn)"
| "mq_main_step s R_spawn =
     (if length (mq_workers s) < mq_n s
      then Some (s\<lparr>mq_workers := mq_workers s @ [W_lock]\<rparr>, R_spawn) else Some (s, R_lock2))"
| "mq_main_step s R_lock2 = (if mq_mu s = None then Some (s\<lparr>mq_mu := Some Main\<rparr>, R_check) else None)"
| "mq_main_step s R_check = Some (s, if mq_pending s = 0 then R_shut else R_block)"
| "mq_main_step s R_block = Some (s\<lparr>mq_mu := None\<rparr>, R_sleep)"
| "mq_main_step s R_shut = Some (s\<lparr>mq_shutdown := True, mq_mu := None\<rparr>, R_notify)"
| "mq_main_step s R_notify = Some (s\<lparr>mq_workers := notify_all (mq_workers s)\<rparr>, R_join)"
| "mq_main_step s pc = None"

text \<open>A condition variable may wake a sleeper without a notification.\<close>

inductive spurious_wake :: "'t mq \<Rightarrow> 't mq \<Rightarrow> bool" where
  wake_worker: "at_worker s w W_sleep \<Longrightarrow> spurious_wake s (set_worker s w W_lock)"
| wake_main: "mq_main s = R_sleep \<Longrightarrow> spurious_wake s (s\<lparr>mq_main := R_lock2\<rparr>)"

inductive mq_move :: "'t mq \<Rightarrow> 't slabel \<Rightarrow> 't mq \<Rightarrow> bool" where
  main_call: "mq_main s = M_idle \<Longrightarrow> mq_move s (SCall Main t) (s\<lparr>mq_main := M_submit (Sub_lock t)\<rparr>)"
| main_return: "mq_main s = M_submit Sub_notify \<Longrightarrow> notify_one (mq_workers s) ws \<Longrightarrow>
    mq_move s (SRet Main) (s\<lparr>mq_main := M_idle, mq_workers := ws\<rparr>)"
| run_call: "mq_main s = M_idle \<Longrightarrow> mq_move s (SRunCall n) (s\<lparr>mq_main := R_lock, mq_n := n\<rparr>)"
| main: "mq_main_step s (mq_main s) = Some (s', pc) \<Longrightarrow> mq_move s STau (s'\<lparr>mq_main := pc\<rparr>)"
| run_return: "mq_main s = R_join \<Longrightarrow> list_all (\<lambda>pc. pc = W_exit) (mq_workers s) \<Longrightarrow>
    mq_move s SRunRet (s\<lparr>mq_main := M_idle, mq_workers := []\<rparr>)"
| worker: "at_worker s w pc \<Longrightarrow> mq_worker_step w s pc = Some (s', pc') \<Longrightarrow>
    mq_move s STau (set_worker s' w pc')"
| take: "at_worker s w W_take \<Longrightarrow> mq_queue s = t # q \<Longrightarrow>
    mq_move s (SStart w t) (set_worker (s\<lparr>mq_queue := q, mq_mu := None\<rparr>) w (W_run t))"
| task_call: "at_worker s w (W_run t) \<Longrightarrow>
    mq_move s (SCall (Worker w) u) (set_worker s w (W_submit t (Sub_lock u)))"
| task_return: "at_worker s w (W_submit t Sub_notify) \<Longrightarrow> notify_one (mq_workers s) ws \<Longrightarrow>
    mq_move s (SRet (Worker w)) (set_worker (s\<lparr>mq_workers := ws\<rparr>) w (W_run t))"
| task_finish: "at_worker s w (W_run t) \<Longrightarrow> mq_move s (SFinish w t) (set_worker s w W_dec)"

inductive mq_step :: "'t mq \<Rightarrow> 't slabel \<Rightarrow> 't mq \<Rightarrow> bool" where
  move: "mq_move s l s' \<Longrightarrow> mq_step s l s'"
| spurious: "spurious_wake s s' \<Longrightarrow> mq_step s STau s'"

text \<open>The destructor, once no thread uses the scheduler.\<close>

definition mq_destroy :: "'t mq \<Rightarrow> 't mq option" where
  "mq_destroy s = (if mq_mu s = None
     then Some (s\<lparr>mq_shutdown := True, mq_workers := notify_all (mq_workers s)\<rparr>) else None)"

section \<open>The invariant\<close>

fun sub_called :: "'t msub \<Rightarrow> 't multiset" where
  "sub_called (Sub_lock t) = {#t#}"
| "sub_called (Sub_add t) = {#t#}"
| "sub_called (Sub_push t) = {#t#}"
| "sub_called p = {#}"

fun sub_counted :: "'t msub \<Rightarrow> int" where
  "sub_counted (Sub_push t) = 1"
| "sub_counted p = 0"

fun worker_called :: "'t mworker \<Rightarrow> 't multiset" where
  "worker_called (W_submit t p) = sub_called p"
| "worker_called pc = {#}"

fun main_called :: "'t mmain \<Rightarrow> 't multiset" where
  "main_called (M_submit p) = sub_called p"
| "main_called pc = {#}"

text \<open>What a thread contributes to \<^verbatim>\<open>pending_\<close> beyond the queue.\<close>

fun worker_counted :: "'t mworker \<Rightarrow> int" where
  "worker_counted (W_run t) = 1"
| "worker_counted (W_submit t p) = 1 + sub_counted p"
| "worker_counted W_dec = 1"
| "worker_counted pc = 0"

fun main_counted :: "'t mmain \<Rightarrow> int" where
  "main_counted (M_submit p) = sub_counted p"
| "main_counted pc = 0"

fun worker_task :: "'t mworker \<Rightarrow> 't option" where
  "worker_task (W_run t) = Some t"
| "worker_task (W_submit t p) = Some t"
| "worker_task pc = None"

fun main_outside :: "'t mmain \<Rightarrow> bool" where
  "main_outside M_idle = True"
| "main_outside (M_submit p) = True"
| "main_outside pc = False"

text \<open>\<open>run\<close> before it has launched workers, and after it has seen \<^verbatim>\<open>pending_ == 0\<close>.\<close>

fun main_starting :: "'t mmain \<Rightarrow> bool" where
  "main_starting R_lock = True"
| "main_starting R_reset = True"
| "main_starting pc = False"

fun main_closing :: "'t mmain \<Rightarrow> bool" where
  "main_closing R_shut = True"
| "main_closing R_notify = True"
| "main_closing R_join = True"
| "main_closing pc = False"

definition running_of :: "'t mworker list \<Rightarrow> nat \<Rightarrow> 't option" where
  "running_of ws w = (if w < length ws then worker_task (ws ! w) else None)"

definition mq_view :: "'t mq \<Rightarrow> 't sched_state" where
  "mq_view s = \<lparr>
     sp_queued = mset (mq_queue s) + main_called (mq_main s) + sum_over worker_called (mq_workers s),
     sp_running = running_of (mq_workers s),
     sp_phase = (if main_outside (mq_main s) then None else Some (mq_n s))\<rparr>"

definition mq_inv :: "'t mq \<Rightarrow> bool" where
  "mq_inv s \<longleftrightarrow>
     mq_pending s = int (length (mq_queue s)) + main_counted (mq_main s) + sum_over worker_counted (mq_workers s)
     \<and> (main_outside (mq_main s) \<or> main_starting (mq_main s) \<longrightarrow> mq_workers s = [])
     \<and> length (mq_workers s) \<le> (if main_outside (mq_main s) then 0 else mq_n s)
     \<and> (main_closing (mq_main s) \<longrightarrow> mq_pending s = 0)"

section \<open>What notifications and updates leave unchanged\<close>

lemma running_of_Nil [simp]: "running_of [] = (\<lambda>_. None)"
  by (simp add: running_of_def fun_eq_iff)

lemma running_of_update: "w < length ws \<Longrightarrow> running_of (ws[w := pc]) = (running_of ws)(w := worker_task pc)"
  by (auto simp: running_of_def fun_eq_iff nth_list_update)

lemma running_of_same:
  "w < length ws \<Longrightarrow> worker_task pc = worker_task (ws ! w) \<Longrightarrow> running_of (ws[w := pc]) = running_of ws"
  by (auto simp: running_of_def fun_eq_iff nth_list_update)

lemma running_of_spawn: "running_of (ws @ [W_lock]) = running_of ws"
  by (auto simp: running_of_def fun_eq_iff nth_append)

lemma running_of_cong: "map worker_task ws = map worker_task ws' \<Longrightarrow> running_of ws = running_of ws'"
  by (auto simp: running_of_def fun_eq_iff dest: map_eq_imp_length_eq)
    (metis length_map nth_map)

lemma notify_one_map:
  assumes "notify_one ws ws'" and "f W_lock = f W_sleep"
  shows "map f ws' = map f ws"
  using assms(1)
proof cases
  case (wake_one j)
  then show ?thesis using assms(2) by (metis list_update_id map_update)
qed simp

lemma notify_all_map:
  assumes "f W_lock = f W_sleep"
  shows "map f (notify_all ws) = map f ws"
  using assms by (auto simp: notify_all_def split: mworker.splits)

lemma notify_one_views:
  assumes "notify_one ws ws'"
  shows "sum_over worker_called ws' = sum_over worker_called ws"
    "sum_over worker_counted ws' = sum_over worker_counted ws"
    "running_of ws' = running_of ws" "length ws' = length ws"
  using notify_one_map [OF assms, of worker_called] notify_one_map [OF assms, of worker_counted]
    notify_one_map [OF assms, of worker_task]
  by (auto intro: sum_over_cong running_of_cong dest: map_eq_imp_length_eq)

lemma notify_one_other: "notify_one ws ws' \<Longrightarrow> ws ! w \<noteq> W_sleep \<Longrightarrow> ws' ! w = ws ! w"
  by (auto elim!: notify_one.cases simp: nth_list_update)

lemma length_notify_all [simp]: "length (notify_all ws) = length ws"
  by (simp add: notify_all_def)

lemma notify_all_views:
  "sum_over worker_called (notify_all ws) = sum_over worker_called ws"
  "sum_over worker_counted (notify_all ws) = sum_over worker_counted ws"
  "running_of (notify_all ws) = running_of ws"
  by (rule sum_over_cong running_of_cong, rule notify_all_map, simp)+

lemma notify_done_views [simp]:
  "main_called (notify_done m) = main_called m" "main_counted (notify_done m) = main_counted m"
  "main_outside (notify_done m) = main_outside m"
  "main_starting (notify_done m) = main_starting m" "main_closing (notify_done m) = main_closing m"
  by (auto simp: notify_done_def split: mmain.splits)

lemma counted_nonneg [simp]:
  "0 \<le> sub_counted (p :: 'a msub)" "0 \<le> worker_counted (pc :: 'a mworker)" "0 \<le> main_counted (m :: 'a mmain)"
proof -
  show s: "0 \<le> sub_counted p" for p :: "'a msub" by (cases p) auto
  show "0 \<le> worker_counted pc"
  proof (cases pc)
    case (W_submit t p)
    then show ?thesis using s [of p] by simp
  qed simp_all
  show "0 \<le> main_counted m" using s by (cases m) auto
qed

text \<open>With nothing pending, nothing is queued and no worker is in a task.\<close>

lemma pending_zero:
  assumes "mq_inv s" and "mq_pending s = 0"
  shows "mq_queue s = []" and "sum_over worker_counted (mq_workers s) = 0"
    and "pc \<in> set (mq_workers s) \<Longrightarrow> worker_counted pc = 0"
proof -
  have nn: "0 \<le> sum_over worker_counted (mq_workers s)" by (rule sum_over_nonneg) simp
  have sum: "int (length (mq_queue s)) + main_counted (mq_main s) + sum_over worker_counted (mq_workers s) = 0"
    using assms by (simp add: mq_inv_def)
  have m: "0 \<le> main_counted (mq_main s)" by simp
  from sum nn m have "int (length (mq_queue s)) = 0" by linarith
  then show "mq_queue s = []" by simp
  from sum nn m show z: "sum_over worker_counted (mq_workers s) = 0" by linarith
  show "worker_counted pc = 0" if "pc \<in> set (mq_workers s)"
    using sum_over_member_le [of worker_counted pc "mq_workers s"] that z by (simp add: antisym)
qed

lemma uncounted_idle: "worker_counted pc = 0 \<Longrightarrow> worker_called pc = {#} \<and> worker_task pc = None"
proof (cases pc)
  case (W_submit t p)
  moreover assume "worker_counted pc = 0"
  ultimately show ?thesis using counted_nonneg(1) [of p] by (simp del: counted_nonneg)
qed auto

section \<open>Every step keeps the invariant and the promise\<close>

definition mq_good :: "'t mq \<Rightarrow> 't slabel \<Rightarrow> 't mq \<Rightarrow> bool" where
  "mq_good s l s' \<longleftrightarrow> mq_inv s' \<and> sched_spec (mq_view s) l (mq_view s')"

lemmas mq_defs = mq_good_def mq_inv_def mq_view_def sched_spec_simps

lemma submit_step_frame:
  "mq_submit_step th s p = Some (s', p') \<Longrightarrow>
    mq_workers s' = mq_workers s \<and> mq_main s' = mq_main s \<and> mq_n s' = mq_n s
    \<and> mq_shutdown s' = mq_shutdown s
    \<and> mset (mq_queue s') + sub_called p' = mset (mq_queue s) + sub_called p
    \<and> mq_pending s' - int (length (mq_queue s')) - sub_counted p'
      = mq_pending s - int (length (mq_queue s)) - sub_counted p"
  by (cases p) (auto split: if_splits)

lemma main_step_good:
  assumes "mq_inv s" and "mq_main_step s (mq_main s) = Some (s', pc)"
  shows "mq_good s STau (s'\<lparr>mq_main := pc\<rparr>)"
proof (cases "mq_main s")
  case (M_submit p)
  with assms(2) obtain p' where p': "mq_submit_step Main s p = Some (s', p')" "pc = M_submit p'"
    by (auto split: option.splits)
  show ?thesis
    using assms(1) M_submit p'(2) submit_step_frame [OF p'(1)] by (auto simp: mq_defs ac_simps)
qed (use assms in \<open>auto simp: mq_defs running_of_spawn notify_all_views split: if_splits\<close>)

lemma worker_update_good:
  assumes "mq_inv s" and w: "at_worker s w old"
    and frame: "mq_workers s' = mq_workers s" "mq_n s' = mq_n s"
      "main_called (mq_main s') = main_called (mq_main s)" "main_counted (mq_main s') = main_counted (mq_main s)"
      "main_outside (mq_main s') = main_outside (mq_main s)"
      "main_closing (mq_main s') = main_closing (mq_main s)"
      "main_starting (mq_main s') = main_starting (mq_main s)"
    and queue: "mset (mq_queue s') + worker_called new = mset (mq_queue s) + worker_called old"
    and pending: "mq_pending s' - int (length (mq_queue s')) - worker_counted new
      = mq_pending s - int (length (mq_queue s)) - worker_counted old"
    and zero: "worker_counted old = 0 \<Longrightarrow> mq_pending s' = mq_pending s"
    and task: "worker_task new = worker_task old"
  shows "mq_good s STau (set_worker s' w new)"
proof -
  have len: "w < length (mq_workers s)" "mq_workers s ! w = old" using w by (auto simp: at_worker_def)
  have zero': "mq_pending s' = 0" if "main_closing (mq_main s)"
  proof -
    have p0: "mq_pending s = 0" using that assms(1) by (simp add: mq_inv_def)
    have "worker_counted old = 0"
      using pending_zero(3) [OF assms(1) p0, of old] len nth_mem by blast
    with zero p0 show ?thesis by simp
  qed
  have "mq_pending s = int (length (mq_queue s)) + main_counted (mq_main s) + sum_over worker_counted (mq_workers s)"
    using assms(1) by (simp add: mq_inv_def)
  moreover have "sum_over worker_counted ((mq_workers s)[w := new])
      = sum_over worker_counted (mq_workers s) + worker_counted new - worker_counted old"
    using sum_over_update_int [of w "mq_workers s" worker_counted new] len by simp
  ultimately have pending': "mq_pending s' = int (length (mq_queue s')) + main_counted (mq_main s)
      + sum_over worker_counted ((mq_workers s)[w := new])"
    using pending by linarith
  have ne: "mq_workers s \<noteq> []" using len by auto
  then have phase: "\<not> main_outside (mq_main s)" "\<not> main_starting (mq_main s)"
      "length (mq_workers s) \<le> mq_n s"
    using assms(1) by (auto simp: mq_inv_def)
  have inv: "mq_inv (set_worker s' w new)"
  proof -
    have "main_closing (mq_main s) \<longrightarrow> mq_pending s' = 0" using zero' by blast
    moreover have "mq_pending s' = int (length (mq_queue s')) + main_counted (mq_main s')
        + sum_over worker_counted ((mq_workers s')[w := new])"
      using pending' frame by metis
    ultimately show ?thesis
      unfolding mq_inv_def set_worker_def using phase frame by simp
  qed
  have "sum_over worker_called ((mq_workers s)[w := new]) + worker_called old
      = sum_over worker_called (mq_workers s) + worker_called new"
    using sum_over_update [of w "mq_workers s" worker_called new] len by simp
  then have "mset (mq_queue s') + sum_over worker_called ((mq_workers s)[w := new])
      = mset (mq_queue s) + sum_over worker_called (mq_workers s)"
    by (rule exchange_cancel [OF queue])
  moreover have "running_of ((mq_workers s)[w := new]) = running_of (mq_workers s)"
    using len task by (intro running_of_same) auto
  ultimately have "mq_view (set_worker s' w new) = mq_view s"
    using frame by (simp add: mq_view_def set_worker_def ac_simps)
  with inv show ?thesis by (auto simp: mq_good_def)
qed

lemma worker_step_good:
  assumes "mq_inv s" and w: "at_worker s w pc" and "mq_worker_step w s pc = Some (s', pc')"
  shows "mq_good s STau (set_worker s' w pc')"
proof (cases pc)
  case (W_submit t p)
  with assms(3) obtain p' where p': "mq_submit_step (Worker w) s p = Some (s', p')" "pc' = W_submit t p'"
    by (auto split: option.splits)
  have "worker_counted (W_submit t p) \<noteq> 0" using counted_nonneg(1) [of p] by (simp del: counted_nonneg)
  then show ?thesis
    using W_submit p'(2) submit_step_frame [OF p'(1)]
    by (intro worker_update_good [OF assms(1) w]) auto
next
  case W_check
  then show ?thesis
    using assms(3) by (intro worker_update_good [OF assms(1) w]) (auto split: if_splits)
qed (use assms in \<open>auto intro!: worker_update_good [OF assms(1) w] simp: Let_def split: if_splits\<close>)

lemma spurious_good:
  assumes "mq_inv s" and "spurious_wake s s'"
  shows "mq_good s STau s'"
  using assms(2)
proof cases
  case (wake_worker w)
  have "mq_good s STau (set_worker s w W_lock)"
    using wake_worker by (intro worker_update_good [OF assms(1) wake_worker(2)]) auto
  with wake_worker show ?thesis by simp
next
  case wake_main
  then show ?thesis using assms(1) by (auto simp: mq_defs)
qed

lemma mq_move_good:
  assumes inv: "mq_inv s" and "mq_move s l s'"
  shows "mq_good s l s'"
  using assms(2)
proof cases
  case (main_return ws)
  then show ?thesis
    using inv notify_one_views [OF main_return(4)] by (auto simp: mq_defs)
next
  case (main s1 pc)
  then show ?thesis using main_step_good [OF inv] by simp
next
  case run_return
  have "mq_pending s = 0" using inv run_return by (auto simp: mq_inv_def)
  note zero = pending_zero [OF inv this]
  have "sum_over worker_called (mq_workers s) = {#}"
    by (intro sum_over_zero) (use zero(3) uncounted_idle in blast)
  moreover have "running_of (mq_workers s) w = None" for w
    using zero(3) [of "mq_workers s ! w"] uncounted_idle [of "mq_workers s ! w"]
    by (simp add: running_of_def)
  ultimately show ?thesis
    using inv run_return zero by (auto simp: mq_defs fun_eq_iff)
next
  case (worker w pc s1 pc')
  then show ?thesis using worker_step_good [OF inv] by simp
next
  case (take w t q)
  have w: "w < length (mq_workers s)" "mq_workers s ! w = W_take" using take by (auto simp: at_worker_def)
  have "\<not> main_closing (mq_main s)"
    using inv take(4) pending_zero(1) [OF inv] by (auto simp: mq_inv_def)
  moreover have "\<not> main_outside (mq_main s)" and "w < mq_n s"
    using inv w by (auto simp: mq_inv_def split: if_splits)
  moreover have "running_of (mq_workers s) w = None" using w by (simp add: running_of_def)
  ultimately show ?thesis
    using inv take(1,2,4) w
    by (auto simp: mq_defs set_worker_def sum_over_update_int sum_over_update_same running_of_update)
next
  case (task_call w t u)
  have w: "w < length (mq_workers s)" "mq_workers s ! w = W_run t" using task_call by (auto simp: at_worker_def)
  then have "running_of (mq_workers s) w = Some t" by (simp add: running_of_def)
  then show ?thesis
    using inv task_call(1,2) w
    by (auto simp: mq_defs set_worker_def sum_over_update_int sum_over_update_add running_of_same)
next
  case (task_return w t ws)
  have w: "w < length ws" "ws ! w = W_submit t Sub_notify"
    using task_return notify_one_views(4) [OF task_return(4)] notify_one_other [OF task_return(4), of w]
    by (auto simp: at_worker_def)
  then show ?thesis
    using inv task_return(1,2) notify_one_views [OF task_return(4)]
    by (auto simp: mq_defs set_worker_def sum_over_update_int sum_over_update_same running_of_same)
next
  case (task_finish w t)
  have w: "w < length (mq_workers s)" "mq_workers s ! w = W_run t" using task_finish by (auto simp: at_worker_def)
  then have "running_of (mq_workers s) w = Some t" by (simp add: running_of_def)
  then show ?thesis
    using inv task_finish(1,2) w
    by (auto simp: mq_defs set_worker_def sum_over_update_int sum_over_update_same running_of_update)
qed (use inv in \<open>auto simp: mq_defs\<close>)

lemma mq_step_good: "mq_inv s \<Longrightarrow> mq_step s l s' \<Longrightarrow> mq_good s l s'"
  by (auto elim!: mq_step.cases intro: mq_move_good spurious_good)

interpretation mq: scheduler mq_init mq_step mq_inv mq_view
  using mq_step_good
  by unfold_locales
    (auto simp: mq_good_def, auto simp: mq_inv_def mq_view_def mq_init_def spec_init_def)

section \<open>The lock protects the queue\<close>

fun sub_critical :: "'t msub \<Rightarrow> bool" where
  "sub_critical (Sub_lock t) = False"
| "sub_critical Sub_notify = False"
| "sub_critical p = True"

text \<open>The stages that access \<^verbatim>\<open>queue_\<close> or \<^verbatim>\<open>shutdown_\<close>, or decide to sleep.\<close>

fun worker_critical :: "'t mworker \<Rightarrow> bool" where
  "worker_critical W_check = True"
| "worker_critical W_block = True"
| "worker_critical W_take = True"
| "worker_critical (W_submit t p) = sub_critical p"
| "worker_critical pc = False"

fun main_critical :: "'t mmain \<Rightarrow> bool" where
  "main_critical (M_submit p) = sub_critical p"
| "main_critical R_reset = True"
| "main_critical R_check = True"
| "main_critical R_block = True"
| "main_critical R_shut = True"
| "main_critical pc = False"

fun critical :: "'t mq \<Rightarrow> thread \<Rightarrow> bool" where
  "critical s Main = main_critical (mq_main s)"
| "critical s (Worker w) = (w < length (mq_workers s) \<and> worker_critical (mq_workers s ! w))"

text \<open>The holder of the lock is the one thread in a critical stage; a worker about to sleep has
  seen an empty queue, a worker about to take or exit has not, or has seen the shutdown.\<close>

definition mq_lock_inv :: "'t mq \<Rightarrow> bool" where
  "mq_lock_inv s \<longleftrightarrow> (\<forall>th. critical s th \<longleftrightarrow> mq_mu s = Some th)
     \<and> (\<forall>w. at_worker s w W_block \<longrightarrow> mq_queue s = [] \<and> \<not> mq_shutdown s)
     \<and> (\<forall>w. at_worker s w W_take \<longrightarrow> mq_queue s \<noteq> [] \<or> mq_shutdown s)"

lemma lock_inv_alt:
  "mq_lock_inv s \<longleftrightarrow> (main_critical (mq_main s) \<longleftrightarrow> mq_mu s = Some Main)
     \<and> (\<forall>w. w < length (mq_workers s) \<and> worker_critical (mq_workers s ! w) \<longleftrightarrow> mq_mu s = Some (Worker w))
     \<and> (\<forall>w. at_worker s w W_block \<longrightarrow> mq_queue s = [] \<and> \<not> mq_shutdown s)
     \<and> (\<forall>w. at_worker s w W_take \<longrightarrow> mq_queue s \<noteq> [] \<or> mq_shutdown s)"
  by (simp add: mq_lock_inv_def all_thread)

lemma worker_lock_update:
  assumes inv: "mq_lock_inv s" and w: "at_worker s w old"
    and frame: "mq_workers s' = mq_workers s" "main_critical (mq_main s') = main_critical (mq_main s)"
    and enter: "worker_critical new \<Longrightarrow> \<not> worker_critical old \<Longrightarrow> mq_mu s = None"
    and mu: "mq_mu s' = (if worker_critical new then Some (Worker w) else if worker_critical old then None else mq_mu s)"
    and data: "\<not> worker_critical old \<Longrightarrow> mq_queue s' = mq_queue s \<and> mq_shutdown s' = mq_shutdown s"
    and block: "new = W_block \<Longrightarrow> mq_queue s' = [] \<and> \<not> mq_shutdown s'"
    and take: "new = W_take \<Longrightarrow> mq_queue s' \<noteq> [] \<or> mq_shutdown s'"
  shows "mq_lock_inv (set_worker s' w new)"
proof -
  let ?ws = "mq_workers s"
  have wl: "w < length ?ws" "?ws ! w = old" using w by (auto simp: at_worker_def)
  have main: "main_critical (mq_main s) \<longleftrightarrow> mq_mu s = Some Main"
    and crit: "\<And>v. v < length ?ws \<and> worker_critical (?ws ! v) \<longleftrightarrow> mq_mu s = Some (Worker v)"
    using inv by (auto simp: lock_inv_alt)
  have other: "mq_mu s' = Some th \<longleftrightarrow> mq_mu s = Some th" if "th \<noteq> Worker w" for th
    using that mu enter crit [of w] wl by (auto split: if_splits)
  have self: "mq_mu s' = Some (Worker w) \<longleftrightarrow> worker_critical new"
    using mu enter crit [of w] wl by (auto split: if_splits)
  have at: "at_worker s v pc" if "at_worker (set_worker s' w new) v pc" "v \<noteq> w" for v pc
    using that frame by (auto simp: at_worker_def set_worker_def)
  have same: "mq_queue s' = mq_queue s \<and> mq_shutdown s' = mq_shutdown s"
    if "v \<noteq> w" "at_worker s v pc" "worker_critical pc" for v pc
  proof (rule data)
    have "mq_mu s = Some (Worker v)" using that crit [of v] by (auto simp: at_worker_def)
    then show "\<not> worker_critical old" using crit [of w] wl that(1) by auto
  qed
  have blk: "at_worker s v W_block \<Longrightarrow> mq_queue s = [] \<and> \<not> mq_shutdown s"
    and tk: "at_worker s v W_take \<Longrightarrow> mq_queue s \<noteq> [] \<or> mq_shutdown s" for v
    using inv by (auto simp: lock_inv_alt)
  have "v < length ?ws \<and> worker_critical (?ws[w := new] ! v) \<longleftrightarrow> mq_mu s' = Some (Worker v)" for v
    using self other [of "Worker v"] crit [of v] wl by (cases "v = w") auto
  moreover have "mq_queue s' = [] \<and> \<not> mq_shutdown s'" if "at_worker (set_worker s' w new) v W_block" for v
    using that block at [OF that] blk [of v] same [of v W_block] frame
    by (cases "v = w") (auto simp: at_worker_def set_worker_def)
  moreover have "mq_queue s' \<noteq> [] \<or> mq_shutdown s'" if "at_worker (set_worker s' w new) v W_take" for v
    using that take at [OF that] tk [of v] same [of v W_take] frame
    by (cases "v = w") (auto simp: at_worker_def set_worker_def)
  ultimately show ?thesis
    using main other [of Main] frame
    by (auto simp: lock_inv_alt set_worker_def)
qed

lemma lock_inv_workers_cong:
  assumes "mq_lock_inv s" and "length ws = length (mq_workers s)"
    and "\<And>v. v < length ws \<Longrightarrow> ws ! v = mq_workers s ! v \<or> (ws ! v = W_lock \<and> mq_workers s ! v = W_sleep)"
  shows "mq_lock_inv (s\<lparr>mq_workers := ws\<rparr>)"
proof -
  have "worker_critical (ws ! v) = worker_critical (mq_workers s ! v)"
    "(ws ! v = W_block) = (mq_workers s ! v = W_block)" "(ws ! v = W_take) = (mq_workers s ! v = W_take)"
    if "v < length ws" for v
    using assms(3) [OF that] by auto
  with assms(1,2) show ?thesis
    by (simp add: lock_inv_alt at_worker_def cong: conj_cong)
qed

lemma notify_one_nth:
  "notify_one ws ws' \<Longrightarrow> v < length ws' \<Longrightarrow> ws' ! v = ws ! v \<or> (ws' ! v = W_lock \<and> ws ! v = W_sleep)"
  by (auto elim!: notify_one.cases simp: nth_list_update split: if_splits)

lemma notify_all_nth:
  "v < length ws \<Longrightarrow> notify_all ws ! v = (case ws ! v of W_sleep \<Rightarrow> W_lock | pc \<Rightarrow> pc)"
  by (simp add: notify_all_def split: mworker.splits)

lemma main_lock_update:
  assumes inv: "mq_lock_inv s" and frame: "mq_workers s' = mq_workers s"
    and enter: "main_critical new \<Longrightarrow> \<not> main_critical (mq_main s) \<Longrightarrow> mq_mu s = None"
    and mu: "mq_mu s' = (if main_critical new then Some Main
      else if main_critical (mq_main s) then None else mq_mu s)"
    and data: "\<not> main_critical (mq_main s) \<Longrightarrow> mq_queue s' = mq_queue s \<and> mq_shutdown s' = mq_shutdown s"
  shows "mq_lock_inv (s'\<lparr>mq_main := new\<rparr>)"
proof -
  let ?ws = "mq_workers s"
  have main: "main_critical (mq_main s) \<longleftrightarrow> mq_mu s = Some Main"
    and crit: "v < length ?ws \<and> worker_critical (?ws ! v) \<longleftrightarrow> mq_mu s = Some (Worker v)" for v
    using inv by (auto simp: lock_inv_alt)
  have mu': "mq_mu s' = Some (Worker v) \<longleftrightarrow> mq_mu s = Some (Worker v)"
    "main_critical new \<longleftrightarrow> mq_mu s' = Some Main" for v
    using mu main enter by (auto split: if_splits)
  have quiet: "\<not> main_critical (mq_main s)" if "at_worker s v pc" "worker_critical pc" for v pc
    using that main crit [of v] by (auto simp: at_worker_def)
  have "at_worker s v W_block \<Longrightarrow> mq_queue s' = [] \<and> \<not> mq_shutdown s'"
    "at_worker s v W_take \<Longrightarrow> mq_queue s' \<noteq> [] \<or> mq_shutdown s'" for v
    using inv quiet [of v W_block] quiet [of v W_take] data by (auto simp: lock_inv_alt)
  then show ?thesis
    using crit mu' by (simp add: lock_inv_alt at_worker_def frame)
qed

lemma submit_step_lock:
  assumes "mq_submit_step th s p = Some (s', p')" and "sub_critical p \<Longrightarrow> mq_mu s = Some th"
  shows "(sub_critical p' \<and> \<not> sub_critical p \<longrightarrow> mq_mu s = None)
    \<and> mq_mu s' = (if sub_critical p' then Some th else if sub_critical p then None else mq_mu s)
    \<and> (\<not> sub_critical p \<longrightarrow> mq_queue s' = mq_queue s \<and> mq_shutdown s' = mq_shutdown s)"
  using assms by (cases p) (auto split: if_splits)

lemma main_step_lock:
  assumes inv: "mq_lock_inv s" and step: "mq_main_step s (mq_main s) = Some (s', pc)"
  shows "mq_lock_inv (s'\<lparr>mq_main := pc\<rparr>)"
proof (cases "mq_main s")
  case (M_submit p)
  with step obtain p' where p': "mq_submit_step Main s p = Some (s', p')" "pc = M_submit p'"
    by (auto split: option.splits)
  have "sub_critical p \<Longrightarrow> mq_mu s = Some Main"
    using inv M_submit by (auto simp: lock_inv_alt)
  note st = submit_step_lock [OF p'(1) this] submit_step_frame [OF p'(1)]
  show ?thesis
    by (rule main_lock_update [OF inv]) (use st M_submit p'(2) in \<open>simp_all split: if_splits\<close>)
next
  case R_notify
  have "mq_lock_inv (s\<lparr>mq_main := R_join\<rparr>)"
    using R_notify by (intro main_lock_update [OF inv]) simp_all
  then have "mq_lock_inv (s\<lparr>mq_main := R_join, mq_workers := notify_all (mq_workers s)\<rparr>)"
    by (rule lock_inv_workers_cong) (auto simp: notify_all_nth split: mworker.splits)
  moreover have "s'\<lparr>mq_main := pc\<rparr> = s\<lparr>mq_main := R_join, mq_workers := notify_all (mq_workers s)\<rparr>"
    using step R_notify by auto
  ultimately show ?thesis by simp
next
  case R_spawn
  have keep: "mq_lock_inv (s\<lparr>mq_main := R_lock2\<rparr>)"
    using R_spawn by (intro main_lock_update [OF inv]) simp_all
  have crit: "v < Suc (length (mq_workers s)) \<and> worker_critical ((mq_workers s @ [W_lock]) ! v)
      \<longleftrightarrow> v < length (mq_workers s) \<and> worker_critical (mq_workers s ! v)"
    "v < Suc (length (mq_workers s)) \<and> (mq_workers s @ [W_lock]) ! v = pc
      \<longleftrightarrow> v < length (mq_workers s) \<and> mq_workers s ! v = pc" if "pc \<noteq> W_lock" for v pc
    using that by (auto simp: nth_append less_Suc_eq)
  have "mq_lock_inv (s\<lparr>mq_workers := mq_workers s @ [W_lock], mq_main := R_spawn\<rparr>)"
    using inv R_spawn by (simp add: lock_inv_alt at_worker_def crit(2) crit(1) [of W_block])
  with keep show ?thesis using step R_spawn by (simp split: if_splits)
next
  case R_check
  have "mq_mu s = Some Main" using inv R_check by (simp add: lock_inv_alt)
  with R_check show ?thesis
    using step by (auto intro!: main_lock_update [OF inv] split: if_splits)
qed (use step in \<open>auto intro!: main_lock_update [OF inv] split: if_splits\<close>)

lemma worker_step_lock:
  assumes "mq_lock_inv s" and w: "at_worker s w pc" and "mq_worker_step w s pc = Some (s', pc')"
  shows "mq_lock_inv (set_worker s' w pc')"
proof (cases pc)
  case (W_submit t p)
  with assms(3) obtain p' where p': "mq_submit_step (Worker w) s p = Some (s', p')" "pc' = W_submit t p'"
    by (auto split: option.splits)
  have "sub_critical p \<Longrightarrow> mq_mu s = Some (Worker w)"
    using assms(1) w W_submit by (auto simp: lock_inv_alt at_worker_def)
  note st = submit_step_lock [OF p'(1) this] submit_step_frame [OF p'(1)]
  show ?thesis
    by (rule worker_lock_update [OF assms(1) w]) (use st W_submit p'(2) in \<open>simp_all split: if_splits\<close>)
next
  case W_notify
  have "main_critical (notify_done (mq_main s)) = main_critical (mq_main s)"
    by (auto simp: notify_done_def split: mmain.splits)
  with W_notify show ?thesis using assms(3) by (intro worker_lock_update [OF assms(1) w]) auto
next
  case W_check
  have "mq_mu s = Some (Worker w)"
    using assms(1) w W_check by (auto simp: lock_inv_alt at_worker_def)
  with W_check show ?thesis
    using assms(3) by (intro worker_lock_update [OF assms(1) w]) (auto split: if_splits)
qed (use assms(3) in \<open>auto intro!: worker_lock_update [OF assms(1) w] simp: Let_def split: if_splits\<close>)

lemma mq_step_lock:
  assumes inv: "mq_lock_inv s" and "mq_step s l s'"
  shows "mq_lock_inv s'"
  using assms(2)
proof cases
  case move
  then show ?thesis
  proof cases
    case (main_return ws)
    have "mq_lock_inv (s\<lparr>mq_main := M_idle\<rparr>)"
      using inv main_return by (simp add: lock_inv_alt at_worker_def)
    then show ?thesis
      unfolding main_return(2)
      by (rule lock_inv_workers_cong)
        (use notify_one_views(4) [OF main_return(4)] notify_one_nth [OF main_return(4)] in auto)
  next
    case (main s1 pc)
    then show ?thesis using main_step_lock [OF inv] by simp
  next
    case (worker w pc s1 pc')
    then show ?thesis using worker_step_lock [OF inv] by simp
  next
    case (take w t q)
    show ?thesis unfolding take(2) by (rule worker_lock_update [OF inv take(3)]) auto
  next
    case (task_call w t u)
    show ?thesis unfolding task_call(2) by (rule worker_lock_update [OF inv task_call(3)]) auto
  next
    case (task_return w t ws)
    have "mq_lock_inv (s\<lparr>mq_workers := ws\<rparr>)"
      by (rule lock_inv_workers_cong [OF inv])
        (use notify_one_views(4) [OF task_return(4)] notify_one_nth [OF task_return(4)] in auto)
    moreover have "at_worker (s\<lparr>mq_workers := ws\<rparr>) w (W_submit t Sub_notify)"
      using task_return(3) notify_one_views(4) [OF task_return(4)] notify_one_other [OF task_return(4), of w]
      by (simp add: at_worker_def)
    ultimately show ?thesis unfolding task_return(2) by (rule worker_lock_update) auto
  next
    case (task_finish w t)
    show ?thesis unfolding task_finish(2) by (rule worker_lock_update [OF inv task_finish(3)]) auto
  next
    case run_return
    have "mq_mu s \<noteq> Some (Worker w)" for w
      using inv run_return(4) by (auto simp: lock_inv_alt list_all_length dest!: spec [of _ w])
    then show ?thesis using inv run_return by (auto simp: lock_inv_alt at_worker_def)
  qed (use inv in \<open>auto simp: lock_inv_alt at_worker_def\<close>)
next
  case spurious
  from spurious(2) show ?thesis
  proof cases
    case (wake_worker w)
    show ?thesis unfolding wake_worker(1) by (rule worker_lock_update [OF inv wake_worker(2)]) auto
  next
    case wake_main
    then show ?thesis using inv by (auto simp: lock_inv_alt at_worker_def)
  qed
qed

lemma mq_run_lock: "lts_run mq_step mq_init ls s \<Longrightarrow> mq_lock_inv s"
proof (induction rule: lts_run.induct)
  case run_nil
  show ?case by (simp add: mq_init_def lock_inv_alt at_worker_def)
qed (rule mq_step_lock)

section \<open>Progress\<close>

fun main_launched :: "'t mmain \<Rightarrow> bool" where
  "main_launched R_lock2 = True"
| "main_launched R_check = True"
| "main_launched R_block = True"
| "main_launched R_sleep = True"
| "main_launched R_shut = True"
| "main_launched pc = False"

definition awake :: "'t mworker \<Rightarrow> bool" where
  "awake pc \<longleftrightarrow> pc \<noteq> W_sleep \<and> pc \<noteq> W_exit"

text \<open>
  A queued task has a worker awake to take it: a worker goes to sleep only with the queue
  empty, and only a worker that is awake submits while workers run. No worker exits before
  \<open>run\<close> has shut them down, and none sleeps after that.
\<close>

definition mq_wake_inv :: "'t mq \<Rightarrow> bool" where
  "mq_wake_inv s \<longleftrightarrow>
     (mq_queue s \<noteq> [] \<and> mq_workers s \<noteq> [] \<longrightarrow> (\<exists>pc \<in> set (mq_workers s). awake pc))
     \<and> (mq_main s = R_spawn \<or> main_launched (mq_main s) \<longrightarrow>
          \<not> mq_shutdown s \<and> W_exit \<notin> set (mq_workers s))
     \<and> (main_launched (mq_main s) \<longrightarrow> length (mq_workers s) = mq_n s)
     \<and> (mq_main s = R_notify \<or> mq_main s = R_join \<longrightarrow> mq_shutdown s)
     \<and> (mq_main s = R_join \<longrightarrow> W_sleep \<notin> set (mq_workers s))"

lemma worker_wake_update:
  assumes inv: "mq_wake_inv s" and w: "at_worker s w old"
    and frame: "mq_workers s' = mq_workers s" "mq_n s' = mq_n s" "mq_shutdown s' = mq_shutdown s"
      "mq_main s' = mq_main s \<or> mq_main s = R_sleep \<and> mq_main s' = R_lock2"
    and stop: "\<not> awake new \<Longrightarrow> mq_queue s' = []"
    and sleep: "new = W_sleep \<Longrightarrow> \<not> mq_shutdown s"
    and exit: "new = W_exit \<Longrightarrow> mq_shutdown s"
  shows "mq_wake_inv (set_worker s' w new)"
proof -
  have wl: "w < length (mq_workers s)" using w by (auto simp: at_worker_def)
  have new: "new \<in> set ((mq_workers s)[w := new])" using wl by (rule set_update_memI)
  have old: "pc \<in> set ((mq_workers s)[w := new]) \<Longrightarrow> pc = new \<or> pc \<in> set (mq_workers s)" for pc
    using set_update_subset_insert [of "mq_workers s" w new] by auto
  have stage: "mq_main s' = R_spawn \<longleftrightarrow> mq_main s = R_spawn" "main_launched (mq_main s') = main_launched (mq_main s)"
    "mq_main s' = R_notify \<longleftrightarrow> mq_main s = R_notify" "mq_main s' = R_join \<longleftrightarrow> mq_main s = R_join"
    using frame(4) by auto
  have "mq_queue s' \<noteq> [] \<Longrightarrow> \<exists>pc \<in> set ((mq_workers s)[w := new]). awake pc"
    using new stop by blast
  moreover have "mq_main s = R_spawn \<or> main_launched (mq_main s) \<Longrightarrow> W_exit \<notin> set ((mq_workers s)[w := new])"
    using inv exit old [of W_exit] by (auto simp: mq_wake_inv_def)
  moreover have "mq_main s = R_join \<Longrightarrow> W_sleep \<notin> set ((mq_workers s)[w := new])"
    using inv sleep old [of W_sleep] by (auto simp: mq_wake_inv_def)
  ultimately show ?thesis
    using inv by (simp add: mq_wake_inv_def set_worker_def stage frame(1,2,3))
qed

lemma wake_workers_cong:
  assumes inv: "mq_wake_inv s" and len: "length ws = length (mq_workers s)"
    and same: "\<And>v. v < length ws \<Longrightarrow> ws ! v = mq_workers s ! v \<or> (ws ! v = W_lock \<and> mq_workers s ! v = W_sleep)"
  shows "mq_wake_inv (s\<lparr>mq_workers := ws\<rparr>)"
proof -
  have up: "\<exists>pc \<in> set ws. awake pc" if "\<exists>pc \<in> set (mq_workers s). awake pc"
  proof -
    from that obtain v where v: "v < length ws" "awake (mq_workers s ! v)"
      by (auto simp: in_set_conv_nth len)
    then have "ws ! v = mq_workers s ! v" using same [of v] by (auto simp: awake_def)
    with v show ?thesis by (metis nth_mem)
  qed
  have down: "pc \<in> set (mq_workers s)" if "pc \<in> set ws" "pc \<noteq> W_lock" for pc
    using that same by (metis in_set_conv_nth len)
  have "ws = [] \<longleftrightarrow> mq_workers s = []" using len by (metis length_0_conv)
  then show ?thesis
    using inv up down [of W_exit] down [of W_sleep] by (simp add: mq_wake_inv_def len) blast
qed

lemma submit_step_shutdown: "mq_submit_step th s p = Some (s', p') \<Longrightarrow> mq_shutdown s' = mq_shutdown s"
  by (cases p) (auto split: if_splits)

lemma main_step_wake:
  assumes inv: "mq_wake_inv s" and base: "mq_inv s" and "mq_main_step s (mq_main s) = Some (s', pc)"
  shows "mq_wake_inv (s'\<lparr>mq_main := pc\<rparr>)"
proof (cases "mq_main s")
  case (M_submit p)
  with assms(3) obtain p' where p': "mq_submit_step Main s p = Some (s', p')" "pc = M_submit p'"
    by (auto split: option.splits)
  moreover have "mq_workers s = []" using base M_submit by (auto simp: mq_inv_def)
  ultimately show ?thesis
    using submit_step_frame [OF p'(1)] by (simp add: mq_wake_inv_def)
next
  case R_notify
  have "W_sleep \<notin> set (notify_all (mq_workers s))"
    by (auto simp: notify_all_def split: mworker.splits)
  moreover have "mq_queue s = []"
    using base R_notify by (intro pending_zero(1) [OF base]) (simp add: mq_inv_def)
  ultimately show ?thesis using R_notify inv assms(3) by (auto simp: mq_wake_inv_def)
next
  case R_spawn
  then show ?thesis using inv base assms(3)
    by (auto simp: mq_wake_inv_def mq_inv_def awake_def split: if_splits)
qed (use inv base assms(3) in \<open>auto simp: mq_wake_inv_def mq_inv_def split: if_splits\<close>)

lemma worker_step_wake:
  assumes inv: "mq_wake_inv s" and lock: "mq_lock_inv s" and w: "at_worker s w pc"
    and "mq_worker_step w s pc = Some (s', pc')"
  shows "mq_wake_inv (set_worker s' w pc')"
proof (cases pc)
  case (W_submit t p)
  with assms(4) obtain p' where p': "mq_submit_step (Worker w) s p = Some (s', p')" "pc' = W_submit t p'"
    by (auto split: option.splits)
  then show ?thesis
    using submit_step_frame [OF p'(1)] W_submit
    by (intro worker_wake_update [OF inv w]) (auto simp: awake_def)
next
  case W_block
  then have "mq_queue s = [] \<and> \<not> mq_shutdown s" using lock w by (auto simp: lock_inv_alt)
  then show ?thesis
    using W_block assms(4) by (intro worker_wake_update [OF inv w]) (auto simp: awake_def)
next
  case W_take
  then have "mq_queue s = [] \<Longrightarrow> mq_shutdown s" using lock w by (auto simp: lock_inv_alt)
  then show ?thesis
    using W_take assms(4) by (intro worker_wake_update [OF inv w]) (auto simp: awake_def split: if_splits)
next
  case W_notify
  then show ?thesis
    using assms(4)
    by (intro worker_wake_update [OF inv w]) (auto simp: awake_def notify_done_def split: mmain.splits)
next
  case W_check
  then show ?thesis
    using assms(4) by (intro worker_wake_update [OF inv w]) (auto simp: awake_def split: if_splits)
qed (use assms(4) in \<open>auto intro!: worker_wake_update [OF inv w] simp: awake_def Let_def split: if_splits\<close>)


lemma mq_step_wake:
  assumes inv: "mq_wake_inv s" and base: "mq_inv s" and lock: "mq_lock_inv s" and "mq_step s l s'"
  shows "mq_wake_inv s'"
  using assms(4)
proof cases
  case move
  then show ?thesis
  proof cases
    case main_call
    with base inv show ?thesis by (simp add: mq_wake_inv_def mq_inv_def)
  next
    case (main_return ws)
    have "mq_workers s = []" using base main_return by (simp add: mq_inv_def)
    moreover from this have "ws = []" using notify_one_views(4) [OF main_return(4)] by simp
    ultimately show ?thesis unfolding main_return(2) by (simp add: mq_wake_inv_def)
  next
    case run_call
    with base inv show ?thesis by (simp add: mq_wake_inv_def mq_inv_def)
  next
    case (main s1 pc)
    then show ?thesis using main_step_wake [OF inv base] by simp
  next
    case run_return
    then show ?thesis by (simp add: mq_wake_inv_def)
  next
    case (worker w pc s1 pc')
    then show ?thesis using worker_step_wake [OF inv lock] by simp
  next
    case (take w t q)
    show ?thesis unfolding take(2) by (rule worker_wake_update [OF inv take(3)]) (auto simp: awake_def)
  next
    case (task_call w t u)
    show ?thesis unfolding task_call(2)
      by (rule worker_wake_update [OF inv task_call(3)]) (auto simp: awake_def)
  next
    case (task_return w t ws)
    have "mq_wake_inv (s\<lparr>mq_workers := ws\<rparr>)"
      by (rule wake_workers_cong [OF inv])
        (use notify_one_views(4) [OF task_return(4)] notify_one_nth [OF task_return(4)] in auto)
    moreover have "at_worker (s\<lparr>mq_workers := ws\<rparr>) w (W_submit t Sub_notify)"
      using task_return(3) notify_one_views(4) [OF task_return(4)] notify_one_other [OF task_return(4), of w]
      by (simp add: at_worker_def)
    ultimately show ?thesis unfolding task_return(2)
      by (rule worker_wake_update) (auto simp: awake_def)
  next
    case (task_finish w t)
    show ?thesis unfolding task_finish(2)
      by (rule worker_wake_update [OF inv task_finish(3)]) (auto simp: awake_def)
  qed
next
  case spurious
  from spurious(2) show ?thesis
  proof cases
    case (wake_worker w)
    show ?thesis unfolding wake_worker(1)
      by (rule worker_wake_update [OF inv wake_worker(2)]) (auto simp: awake_def)
  next
    case wake_main
    with inv show ?thesis by (simp add: mq_wake_inv_def)
  qed
qed

text \<open>All three invariants hold along every run.\<close>

lemma mq_reachable:
  assumes "lts_run mq_step mq_init ls s"
  shows "mq_inv s" and "mq_lock_inv s" and "mq_wake_inv s"
proof -
  have "mq_inv s \<and> mq_lock_inv s \<and> mq_wake_inv s"
    using assms
  proof (induction rule: lts_run.induct)
    case run_nil
    show ?case
      by (simp add: mq_init_def mq_inv_def lock_inv_alt at_worker_def mq_wake_inv_def)
  next
    case (run_snoc ls s l s')
    then show ?case
      using mq_step_good mq_step_lock mq_step_wake unfolding mq_good_def by blast
  qed
  then show "mq_inv s" "mq_lock_inv s" "mq_wake_inv s" by blast+
qed

subsection \<open>Who can move\<close>

definition can_move :: "'t mq \<Rightarrow> bool" where
  "can_move s \<longleftrightarrow> (\<exists>l s'. mq_move s l s')"

lemma can_moveI: "mq_move s l s' \<Longrightarrow> can_move s"
  by (auto simp: can_move_def)

lemma notify_one_ex: "\<exists>ws'. notify_one ws ws'"
proof (cases "W_sleep \<in> set ws")
  case True
  then show ?thesis by (auto simp: in_set_conv_nth intro: wake_one)
qed (auto intro: wake_none)

lemma worker_can_move:
  assumes w: "at_worker s w pc" and "awake pc" and "mq_mu s = None \<or> worker_critical pc"
  shows "can_move s"
proof -
  have step: "can_move s" if "mq_worker_step w s pc = Some r" for r
    using mq_move.worker [OF w] that by (cases r) (auto intro: can_moveI)
  show ?thesis
  proof (cases pc)
    case (W_run t)
    with w show ?thesis by (auto intro: can_moveI mq_move.task_finish)
  next
    case (W_submit t p)
    show ?thesis
    proof (cases p)
      case Sub_notify
      with w W_submit show ?thesis
        using notify_one_ex [of "mq_workers s"] by (auto intro: can_moveI mq_move.task_return)
    qed (use step assms(3) W_submit in auto)
  next
    case W_take
    show ?thesis
    proof (cases "mq_queue s")
      case (Cons t q)
      with w W_take show ?thesis by (auto intro: can_moveI mq_move.take)
    qed (use step W_take in auto)
  next
    case W_check
    then show ?thesis using step by (cases "mq_queue s \<noteq> [] \<or> mq_shutdown s") auto
  qed (use step assms(2,3) in \<open>auto simp: awake_def Let_def\<close>)
qed

lemma main_can_move:
  assumes "mq_main s \<noteq> R_sleep" and "mq_main s \<noteq> R_join" and "mq_mu s = None \<or> main_critical (mq_main s)"
  shows "can_move s"
proof -
  have step: "can_move s" if "mq_main_step s (mq_main s) = Some r" for r
    using mq_move.main that by (cases r) (auto intro: can_moveI)
  show ?thesis
  proof (cases "mq_main s")
    case M_idle
    then show ?thesis by (auto intro: can_moveI mq_move.run_call)
  next
    case (M_submit p)
    show ?thesis
    proof (cases p)
      case Sub_notify
      with M_submit show ?thesis
        using notify_one_ex [of "mq_workers s"] by (auto intro: can_moveI mq_move.main_return)
    qed (use step assms(3) M_submit in auto)
  next
    case R_spawn
    then show ?thesis using step by (cases "length (mq_workers s) < mq_n s") auto
  qed (use step assms in auto)
qed

lemma locked_can_move:
  assumes "mq_lock_inv s" and "mq_mu s = Some th"
  shows "can_move s"
proof (cases th)
  case Main
  with assms have "main_critical (mq_main s)" by (simp add: lock_inv_alt)
  then show ?thesis by (intro main_can_move) auto
next
  case (Worker w)
  with assms have "at_worker s w (mq_workers s ! w)" "worker_critical (mq_workers s ! w)"
    by (auto simp: lock_inv_alt at_worker_def)
  then show ?thesis by (intro worker_can_move) (auto simp: awake_def)
qed

text \<open>
  If nobody can move, \<open>run\<close> sleeps, so does every worker, the lock is free and there is no
  task a worker could run.
\<close>

lemma stuck_shape:
  assumes run: "lts_run mq_step mq_init ls s" and stuck: "\<not> can_move s"
  shows "mq_main s = R_sleep" and "mq_mu s = None" and "\<forall>pc \<in> set (mq_workers s). pc = W_sleep"
    and "length (mq_workers s) = mq_n s" and "mq_workers s \<noteq> [] \<Longrightarrow> mq_queue s = []"
    and "mq_pending s = int (length (mq_queue s))"
proof -
  note inv = mq_reachable [OF run]
  show mu: "mq_mu s = None"
    using locked_can_move [OF inv(2)] stuck by (cases "mq_mu s") auto
  have rest: "\<not> awake pc" if "pc \<in> set (mq_workers s)" for pc
    using that worker_can_move [of s _ pc] stuck mu by (auto simp: in_set_conv_nth at_worker_def)
  show main: "mq_main s = R_sleep"
  proof (rule ccontr)
    assume "mq_main s \<noteq> R_sleep"
    then have join: "mq_main s = R_join" using main_can_move stuck mu by blast
    then have "list_all (\<lambda>pc. pc = W_exit) (mq_workers s)"
      using rest inv(3) by (auto simp: mq_wake_inv_def awake_def list_all_iff)
    then have "can_move s" using mq_move.run_return [OF join] by (auto intro: can_moveI)
    with stuck show False by simp
  qed
  show sleep: "\<forall>pc \<in> set (mq_workers s). pc = W_sleep"
    using rest inv(3) main by (auto simp: mq_wake_inv_def awake_def)
  show "length (mq_workers s) = mq_n s" using inv(3) main by (simp add: mq_wake_inv_def)
  show "mq_queue s = []" if "mq_workers s \<noteq> []"
    using that inv(3) rest by (auto simp: mq_wake_inv_def)
  have "sum_over worker_counted (mq_workers s) = 0"
    by (rule sum_over_zero) (use sleep in auto)
  with inv(1) main show "mq_pending s = int (length (mq_queue s))" by (simp add: mq_inv_def)
qed

section \<open>Replaying a schedule\<close>

primrec notify_first :: "'t mworker list \<Rightarrow> 't mworker list" where
  "notify_first [] = []"
| "notify_first (pc # ws) = (case pc of W_sleep \<Rightarrow> W_lock # ws | _ \<Rightarrow> pc # notify_first ws)"

lemma notify_one_Cons: "notify_one ws ws' \<Longrightarrow> pc \<noteq> W_sleep \<Longrightarrow> notify_one (pc # ws) (pc # ws')"
proof (erule notify_one.cases)
  fix j vs
  assume "ws = vs" "ws' = vs[j := W_lock]" "j < length vs" "vs ! j = W_sleep"
  then show "notify_one (pc # ws) (pc # ws')" using wake_one [of "Suc j" "pc # ws"] by simp
qed (auto intro: wake_none)

lemma notify_first_one: "notify_one ws (notify_first ws)"
proof (induction ws)
  case (Cons pc ws)
  then show ?case
    using wake_one [of 0 "pc # ws"] by (cases "pc = W_sleep") (auto intro: notify_one_Cons split: mworker.splits)
qed (simp add: wake_none)

definition mq_do_main :: "'t mq \<Rightarrow> ('t slabel \<times> 't mq) option" where
  "mq_do_main s = (case mq_main s of
       M_submit Sub_notify \<Rightarrow> Some (SRet Main, s\<lparr>mq_main := M_idle, mq_workers := notify_first (mq_workers s)\<rparr>)
     | R_join \<Rightarrow> if list_all (\<lambda>pc. pc = W_exit) (mq_workers s)
                 then Some (SRunRet, s\<lparr>mq_main := M_idle, mq_workers := []\<rparr>) else None
     | pc \<Rightarrow> (case mq_main_step s pc of None \<Rightarrow> None | Some (s', pc') \<Rightarrow> Some (STau, s'\<lparr>mq_main := pc'\<rparr>)))"

definition mq_do_worker :: "nat \<Rightarrow> 't mq \<Rightarrow> ('t slabel \<times> 't mq) option" where
  "mq_do_worker w s =
     (if length (mq_workers s) \<le> w then None
      else case mq_workers s ! w of
        W_submit t Sub_notify \<Rightarrow>
          Some (SRet (Worker w), set_worker (s\<lparr>mq_workers := notify_first (mq_workers s)\<rparr>) w (W_run t))
      | pc \<Rightarrow> (case mq_worker_step w s pc of
            Some (s', pc') \<Rightarrow> Some (STau, set_worker s' w pc')
          | None \<Rightarrow> (case (pc, mq_queue s) of
                (W_take, t # q) \<Rightarrow> Some (SStart w t, set_worker (s\<lparr>mq_queue := q, mq_mu := None\<rparr>) w (W_run t))
              | _ \<Rightarrow> None)))"

definition worker_in :: "'t mq \<Rightarrow> nat \<Rightarrow> 't option" where
  "worker_in s w = (if length (mq_workers s) \<le> w then None
     else case mq_workers s ! w of W_run t \<Rightarrow> Some t | _ \<Rightarrow> None)"

definition mq_do :: "'t act \<Rightarrow> 't mq \<Rightarrow> ('t slabel \<times> 't mq) option" where
  "mq_do a s = (case a of
       Submit Main t \<Rightarrow> (case mq_main s of
           M_idle \<Rightarrow> Some (SCall Main t, s\<lparr>mq_main := M_submit (Sub_lock t)\<rparr>) | _ \<Rightarrow> None)
     | Submit (Worker w) u \<Rightarrow> (case worker_in s w of None \<Rightarrow> None
         | Some t \<Rightarrow> Some (SCall (Worker w) u, set_worker s w (W_submit t (Sub_lock u))))
     | Run n \<Rightarrow> (case mq_main s of
           M_idle \<Rightarrow> Some (SRunCall n, s\<lparr>mq_main := R_lock, mq_n := n\<rparr>) | _ \<Rightarrow> None)
     | Finish w \<Rightarrow> (case worker_in s w of None \<Rightarrow> None
         | Some t \<Rightarrow> Some (SFinish w t, set_worker s w W_dec))
     | Do Main \<Rightarrow> mq_do_main s
     | Do (Worker w) \<Rightarrow> mq_do_worker w s)"

lemma worker_in_at: "worker_in s w = Some t \<Longrightarrow> at_worker s w (W_run t)"
  by (auto simp: worker_in_def at_worker_def split: if_splits mworker.splits)

lemma mq_do_main_move:
  assumes "mq_do_main s = Some (l, s')"
  shows "mq_move s l s'"
proof -
  have step: ?thesis if "(case mq_main_step s (mq_main s) of None \<Rightarrow> None
      | Some (s', pc') \<Rightarrow> Some (STau, s'\<lparr>mq_main := pc'\<rparr>)) = Some (l, s')"
    using that by (auto split: option.splits intro: mq_move.main)
  show ?thesis
  proof (cases "mq_main s")
    case (M_submit p)
    show ?thesis
    proof (cases p)
      case Sub_notify
      with M_submit show ?thesis
        using assms by (auto simp: mq_do_main_def intro: mq_move.main_return notify_first_one)
    qed (rule step, use assms M_submit in \<open>simp add: mq_do_main_def\<close>)+
  next
    case R_join
    then show ?thesis
      using assms mq_move.run_return [OF R_join] by (auto simp: mq_do_main_def split: if_splits)
  qed (rule step, use assms in \<open>simp add: mq_do_main_def\<close>)+
qed

lemma mq_do_worker_move:
  assumes "mq_do_worker w s = Some (l, s')"
  shows "mq_move s l s'"
proof -
  let ?pc = "mq_workers s ! w"
  have w: "at_worker s w ?pc" using assms by (auto simp: mq_do_worker_def at_worker_def split: if_splits)
  have step: ?thesis if "mq_worker_step w s ?pc = Some (s1, pc')" "l = STau" "s' = set_worker s1 w pc'" for s1 pc'
    using mq_move.worker [OF w that(1)] that(2,3) by simp
  show ?thesis
  proof (cases "\<exists>t. ?pc = W_submit t Sub_notify")
    case True
    then show ?thesis
      using assms w by (auto simp: mq_do_worker_def split: if_splits intro: mq_move.task_return notify_first_one)
  next
    case False
    show ?thesis
    proof (cases "mq_worker_step w s ?pc")
      case (Some r)
      with assms False have "l = STau \<and> s' = set_worker (fst r) w (snd r)"
        by (auto simp: mq_do_worker_def split: if_splits mworker.splits msub.splits)
      with step [of "fst r" "snd r"] Some show ?thesis by simp
    next
      case None
      with assms False obtain t q where "?pc = W_take" "mq_queue s = t # q" "l = SStart w t"
        "s' = set_worker (s\<lparr>mq_queue := q, mq_mu := None\<rparr>) w (W_run t)"
        by (auto simp: mq_do_worker_def split: if_splits mworker.splits msub.splits list.splits)
      with w show ?thesis by (auto intro: mq_move.take)
    qed
  qed
qed

lemma mq_do_step: "mq_do a s = Some (l, s') \<Longrightarrow> mq_step s l s'"
  by (auto simp: mq_do_def intro!: mq_step.move
      intro: mq_move.intros mq_do_main_move mq_do_worker_move dest!: worker_in_at
      split: act.splits thread.splits mmain.splits option.splits)

lemmas mq_replay = replay_run [of mq_do mq_step, OF mq_do_step]


text \<open>Task 7 spawns task 8; two workers run them, one of which had gone to sleep.\<close>

definition mq_demo :: "nat act list" where
  "mq_demo = Submit Main 7 # replicate 5 (Do Main) @ Run 2 # replicate 5 (Do Main)
     @ replicate 3 (Do (Worker 1)) @ replicate 3 (Do (Worker 0))
     @ Submit (Worker 1) 8 # replicate 5 (Do (Worker 1)) @ replicate 3 (Do (Worker 0))
     @ replicate 3 (Do Main) @ [Finish 1, Do (Worker 1), Finish 0, Do (Worker 0), Do (Worker 0)]
     @ replicate 4 (Do Main) @ replicate 3 (Do (Worker 0)) @ replicate 3 (Do (Worker 1))"

definition mq_demo_labels :: "nat slabel list" where
  "mq_demo_labels = [SCall Main 7, STau, STau, STau, STau, SRet Main, SRunCall 2]
     @ replicate 7 STau @ [SStart 1 7, STau, STau, STau, SCall (Worker 1) 8, STau, STau, STau, STau,
     SRet (Worker 1), STau, STau, SStart 0 8, STau, STau, STau, SFinish 1 7, STau, SFinish 0 8]
     @ replicate 12 STau"

definition mq_demo_state :: "nat mq" where
  "mq_demo_state = \<lparr>mq_mu = None, mq_queue = [], mq_pending = 0, mq_shutdown = True, mq_n = 2,
     mq_main = R_join, mq_workers = [W_exit, W_exit]\<rparr>"

lemma mq_demo_run: "lts_run mq_step mq_init mq_demo_labels mq_demo_state"
proof (rule mq_replay)
  show "replay mq_do mq_demo mq_init = Some (mq_demo_labels, mq_demo_state)" by code_simp
qed

lemma mq_demo_return: "lts_run mq_step mq_init (mq_demo_labels @ [SRunRet])
   (mq_demo_state\<lparr>mq_main := M_idle, mq_workers := []\<rparr>)"
  by (rule run_snoc [OF mq_demo_run], intro mq_step.move mq_move.run_return)
    (simp_all add: mq_demo_state_def)

text \<open>The worker's decrement and notification fall between the evaluation of the predicate by
  \<open>run\<close> and its going to sleep.\<close>

definition mq_lost :: "nat act list" where
  "mq_lost = Submit Main 7 # replicate 5 (Do Main) @ Run 1 # replicate 4 (Do Main)
     @ replicate 3 (Do (Worker 0)) @ replicate 2 (Do Main)
     @ Finish 0 # replicate 2 (Do (Worker 0)) @ Do Main # replicate 3 (Do (Worker 0))"

definition mq_lost_labels :: "nat slabel list" where
  "mq_lost_labels = [SCall Main 7, STau, STau, STau, STau, SRet Main, SRunCall 1]
     @ replicate 6 STau @ [SStart 0 7, STau, STau, SFinish 0 7] @ replicate 6 STau"

definition mq_lost_state :: "nat mq" where
  "mq_lost_state = \<lparr>mq_mu = None, mq_queue = [], mq_pending = 0, mq_shutdown = False, mq_n = 1,
     mq_main = R_sleep, mq_workers = [W_sleep]\<rparr>"

lemma mq_lost_run: "lts_run mq_step mq_init mq_lost_labels mq_lost_state"
proof (rule mq_replay)
  show "replay mq_do mq_lost mq_init = Some (mq_lost_labels, mq_lost_state)" by code_simp
qed

lemma asleep_stuck:
  assumes "mq_main s = R_sleep" and "\<forall>pc \<in> set (mq_workers s). pc = W_sleep"
  shows "\<not> can_move s"
proof
  assume "can_move s"
  then obtain l s' where "mq_move s l s'" by (auto simp: can_move_def)
  moreover have asleep: "at_worker s w pc \<Longrightarrow> pc = W_sleep" for w pc
    using assms(2) by (auto simp: at_worker_def)
  ultimately show False
  proof cases
    case (worker w pc s1 pc')
    then show False using asleep by fastforce
  qed (use assms(1) in \<open>auto dest: asleep\<close>)
qed

section \<open>Properties\<close>

text \<open>C5. \<open>run\<close> returns only when every task submitted to the scheduler, before \<open>run\<close> or by a
  running task, has been started exactly once and has finished.\<close>

theorem mutex_run_completes:
  assumes "lts_run mq_step mq_init (ls @ [SRunRet]) s"
  shows "tally started ls = tally submitted ls \<and> tally finished ls = tally submitted ls"
  by (rule mq.return_complete [OF assms])

theorem mutex_run_completes_witness:
  "tally started mq_demo_labels = tally submitted mq_demo_labels
   \<and> tally finished mq_demo_labels = tally submitted mq_demo_labels"
  by (rule mutex_run_completes [OF mq_demo_return])

text \<open>At every moment of every run, each submitted task is in exactly one place: being
  submitted or in the queue, inside one worker, or finished.\<close>

theorem mutex_accounts_tasks:
  assumes "lts_run mq_step mq_init ls s"
  shows "tally submitted ls =
      mset (mq_queue s) + main_called (mq_main s) + sum_over worker_called (mq_workers s)
      + active_tasks (running_of (mq_workers s)) + tally finished ls"
  using mq.account [OF assms] by (simp add: mq_view_def)

theorem mutex_accounts_tasks_witness:
  "tally submitted mq_lost_labels = mset (mq_queue mq_lost_state) + main_called (mq_main mq_lost_state)
      + sum_over worker_called (mq_workers mq_lost_state)
      + active_tasks (running_of (mq_workers mq_lost_state)) + tally finished mq_lost_labels"
  by (rule mutex_accounts_tasks [OF mq_lost_run])

text \<open>C13. Every run of the class, with spurious wake-ups, is label for label a run of the
  abstract scheduler: \<open>submit\<close> adds to a bag, a worker that runs nothing takes from it inside
  \<open>run\<close>, and \<open>run\<close> returns with the bag empty and the workers idle.\<close>

theorem mutex_implements_scheduler:
  assumes "lts_run mq_step mq_init ls s"
  shows "lts_run sched_spec spec_init ls (mq_view s)"
  by (rule mq.run_view [OF assms])

theorem mutex_implements_scheduler_witness:
  "lts_run sched_spec spec_init mq_demo_labels (mq_view mq_demo_state)"
  by (rule mutex_implements_scheduler [OF mq_demo_run])

text \<open>C32. The mutex protects the queue: a thread in a stage that accesses \<^verbatim>\<open>queue_\<close> or
  \<^verbatim>\<open>shutdown_\<close> holds \<^verbatim>\<open>mu_\<close> and is the only one there. A worker that finds the queue empty
  after its wait has indeed been shut down, nothing is pending any more, and \<open>run\<close> is past
  its wait.\<close>

theorem mutex_lock_discipline:
  assumes "lts_run mq_step mq_init ls s"
  shows "(\<forall>th. critical s th \<longleftrightarrow> mq_mu s = Some th)
    \<and> (\<forall>w. at_worker s w W_take \<and> mq_queue s = [] \<longrightarrow>
         mq_shutdown s \<and> mq_pending s = 0 \<and> mq_main s \<in> {R_notify, R_join})
    \<and> (\<forall>w. at_worker s w W_exit \<longrightarrow> mq_pending s = 0 \<and> mq_main s \<in> {R_notify, R_join})"
proof -
  note inv = mq_reachable [OF assms]
  have closed: "mq_pending s = 0 \<and> mq_main s \<in> {R_notify, R_join}"
    if "at_worker s w pc" "mq_main s \<noteq> R_spawn" "\<not> main_launched (mq_main s)" for w pc
  proof -
    have "mq_workers s \<noteq> []" using that(1) by (auto simp: at_worker_def)
    with inv(1) that(2,3) show ?thesis
      by (cases "mq_main s") (auto simp: mq_inv_def)
  qed
  have take: "mq_shutdown s \<and> mq_pending s = 0 \<and> mq_main s \<in> {R_notify, R_join}"
    if w: "at_worker s w W_take" and "mq_queue s = []" for w
  proof -
    have sh: "mq_shutdown s" using that inv(2) by (auto simp: lock_inv_alt)
    moreover have "mq_main s \<noteq> R_spawn" "\<not> main_launched (mq_main s)"
      using inv(3) sh by (auto simp: mq_wake_inv_def)
    ultimately show ?thesis using closed [OF w] by simp
  qed
  have exit: "mq_pending s = 0 \<and> mq_main s \<in> {R_notify, R_join}" if w: "at_worker s w W_exit" for w
  proof (rule closed [OF w])
    have "W_exit \<in> set (mq_workers s)" using w by (metis at_worker_def nth_mem)
    with inv(3) show "mq_main s \<noteq> R_spawn" "\<not> main_launched (mq_main s)"
      by (auto simp: mq_wake_inv_def)
  qed
  have "critical s th \<longleftrightarrow> mq_mu s = Some th" for th
    using inv(2) by (simp add: mq_lock_inv_def)
  then show ?thesis using take exit by blast
qed

theorem mutex_lock_discipline_witness:
  "\<forall>th. critical mq_lost_state th \<longleftrightarrow> mq_mu mq_lost_state = Some th"
  using mutex_lock_discipline [OF mq_lost_run] by simp

text \<open>C22. The threads of a scheduler in use can be unable to move in one way only: \<open>run\<close> and all
  its workers are asleep, and either nothing is pending or \<open>run\<close> was given no workers. With
  a worker and a pending task, somebody can always move.\<close>

theorem mutex_progress:
  assumes "lts_run mq_step mq_init ls s"
  shows "(\<not> can_move s \<longleftrightarrow> mq_main s = R_sleep \<and> (\<forall>pc \<in> set (mq_workers s). pc = W_sleep))
    \<and> (mq_pending s \<noteq> 0 \<and> mq_n s \<noteq> 0 \<longrightarrow> can_move s)"
proof
  show "\<not> can_move s \<longleftrightarrow> mq_main s = R_sleep \<and> (\<forall>pc \<in> set (mq_workers s). pc = W_sleep)"
    using stuck_shape(1,3) [OF assms] asleep_stuck [of s] by blast
  have "mq_pending s = 0" if "\<not> can_move s" "mq_n s \<noteq> 0"
  proof -
    note shape = stuck_shape [OF assms that(1)]
    have "mq_workers s \<noteq> []" using shape(4) that(2) by auto
    with shape(5,6) show ?thesis by simp
  qed
  then show "mq_pending s \<noteq> 0 \<and> mq_n s \<noteq> 0 \<longrightarrow> can_move s" by blast
qed

theorem mutex_progress_witness: "\<not> can_move mq_lost_state \<and> mq_n mq_lost_state = 1"
  using mutex_progress [OF mq_lost_run] by (simp add: mq_lost_state_def)

text \<open>C16. \<open>run\<close> can sleep for ever: there is a run in which one task is submitted, started and
  finished, \<^verbatim>\<open>pending_\<close> is zero, and yet no thread can move, because the worker that
  decremented \<^verbatim>\<open>pending_\<close> notified \<^verbatim>\<open>done_cv_\<close>, without the mutex, after \<open>run\<close> had read the old value
  and before it slept.\<close>

theorem mutex_lost_wakeup:
  "\<exists>ls s. lts_run mq_step mq_init ls (s :: nat mq) \<and> tally submitted ls = {#7#}
     \<and> tally finished ls = tally submitted ls \<and> mq_pending s = 0 \<and> mq_n s = 1
     \<and> mq_main s = R_sleep \<and> \<not> can_move s"
proof (intro exI conjI)
  show "lts_run mq_step mq_init mq_lost_labels mq_lost_state" by (rule mq_lost_run)
  show "\<not> can_move mq_lost_state" by (rule asleep_stuck) (simp_all add: mq_lost_state_def)
qed (simp_all add: mq_lost_labels_def mq_lost_state_def numeral_eq_Suc)

end
