(* ===== verification/Task_Graph.thy ===== *)
theory Task_Graph
  imports Scheduler
begin

text \<open>
  The build phase of \<^verbatim>\<open>include/task_graph.hpp\<close>: \<^verbatim>\<open>TaskGraph::node\<close> and
  \<^verbatim>\<open>DagNode::depends_on\<close>. A node is its index in \<^verbatim>\<open>nodes_\<close>; its callable is user code. The
  counter \<^verbatim>\<open>deps_remaining_\<close> is a 32-bit integer that the code only increments, decrements
  and compares with 0 and 1, so its two's complement value is a \<open>32 word\<close>. A failed
  \<^verbatim>\<open>assert\<close> is \<open>None\<close>.
\<close>

section \<open>Nodes and graphs\<close>

record node =
  nd_deps :: "32 word"
  nd_succs :: "nat list"

record graph =
  gr_nodes :: "node list"
  gr_remaining :: int
  gr_executing :: bool

definition tg_new :: graph where
  "tg_new = \<lparr>gr_nodes = [], gr_remaining = 0, gr_executing = False\<rparr>"

definition new_node :: node where
  "new_node = \<lparr>nd_deps = 0, nd_succs = []\<rparr>"

definition tg_size :: "graph \<Rightarrow> nat" where
  "tg_size g = length (gr_nodes g)"

definition tg_node :: "graph \<Rightarrow> (nat \<times> graph) option" where
  "tg_node g = (if gr_executing g then None
     else Some (length (gr_nodes g), g\<lparr>gr_nodes := gr_nodes g @ [new_node]\<rparr>))"

definition update_node :: "nat \<Rightarrow> (node \<Rightarrow> node) \<Rightarrow> graph \<Rightarrow> graph" where
  "update_node n f g = g\<lparr>gr_nodes := (gr_nodes g)[n := f (gr_nodes g ! n)]\<rparr>"

text \<open>\<open>this\<close> waits for \<open>pred\<close>.\<close>

definition depends_on :: "nat \<Rightarrow> nat \<Rightarrow> graph \<Rightarrow> graph" where
  "depends_on this pred g =
     update_node this (\<lambda>nd. nd\<lparr>nd_deps := nd_deps nd + 1\<rparr>)
       (update_node pred (\<lambda>nd. nd\<lparr>nd_succs := nd_succs nd @ [this]\<rparr>) g)"

text \<open>The variadic overload peels one predecessor off and calls itself on the others.\<close>

fun depends_on_all :: "nat \<Rightarrow> nat list \<Rightarrow> graph \<Rightarrow> graph" where
  "depends_on_all this [] g = g"
| "depends_on_all this [p] g = depends_on this p g"
| "depends_on_all this (p1 # p2 # rest) g = depends_on_all this (p2 # rest) (depends_on this p1 g)"

lemma depends_on_all_fold: "depends_on_all this ps g = fold (depends_on this) ps g"
  by (induction this ps g rule: depends_on_all.induct) auto

text \<open>A build is a sequence of calls on nodes that exist (a \<^verbatim>\<open>DagNode&\<close> refers to one).\<close>

datatype build_call = New_node | Depends_on nat "nat list"

fun build_step :: "build_call \<Rightarrow> graph \<Rightarrow> graph option" where
  "build_step New_node g = map_option snd (tg_node g)"
| "build_step (Depends_on n ps) g =
     (if n < tg_size g \<and> list_all (\<lambda>p. p < tg_size g) ps then Some (depends_on_all n ps g) else None)"

fun build_from :: "graph \<Rightarrow> build_call list \<Rightarrow> graph option" where
  "build_from g [] = Some g"
| "build_from g (c # cs) = (case build_step c g of None \<Rightarrow> None | Some g' \<Rightarrow> build_from g' cs)"

definition tg_build :: "build_call list \<Rightarrow> graph option" where
  "tg_build = build_from tg_new"

definition node_deps :: "graph \<Rightarrow> nat \<Rightarrow> 32 word" where
  "node_deps g n = nd_deps (gr_nodes g ! n)"

section \<open>Edges\<close>

definition succs :: "graph \<Rightarrow> nat \<Rightarrow> nat list" where
  "succs g n = (if n < length (gr_nodes g) then nd_succs (gr_nodes g ! n) else [])"

text \<open>Every edge, by its target; the number of edges into a node.\<close>

definition targets :: "(nat \<Rightarrow> nat list) \<Rightarrow> nat multiset \<Rightarrow> nat multiset" where
  "targets sc M = (\<Sum>n\<in>#M. mset (sc n))"

definition nodes_of :: "graph \<Rightarrow> nat multiset" where
  "nodes_of g = mset_set {0..<tg_size g}"

definition indeg :: "graph \<Rightarrow> nat \<Rightarrow> nat" where
  "indeg g m = count (targets (succs g) (nodes_of g)) m"

definition edge :: "graph \<Rightarrow> (nat \<times> nat) set" where
  "edge g = {(p, n). n \<in> set (succs g p)}"

text \<open>What the build phase establishes: edges join nodes, and each node's counter is the number
  of its incoming edges.\<close>

definition graph_ok :: "graph \<Rightarrow> bool" where
  "graph_ok g \<longleftrightarrow> (\<forall>p. \<forall>n \<in> set (succs g p). n < tg_size g)
     \<and> (\<forall>n < tg_size g. nd_deps (gr_nodes g ! n) = of_nat (indeg g n)) \<and> \<not> gr_executing g"

lemma targets_simps [simp]:
  "targets sc {#} = {#}"
  "targets sc (add_mset n M) = mset (sc n) + targets sc M"
  "targets sc (M + N) = targets sc M + targets sc N"
  by (simp_all add: targets_def)

lemma in_targets: "m \<in># targets sc M \<longleftrightarrow> (\<exists>n \<in># M. m \<in> set (sc n))"
  by (induction M) auto

lemma targets_cong: "(\<And>n. n \<in># M \<Longrightarrow> sc n = sc' n) \<Longrightarrow> targets sc M = targets sc' M"
  by (simp add: targets_def cong: image_mset_cong)

lemma targets_mono: "M \<subseteq># N \<Longrightarrow> targets sc M \<subseteq># targets sc N"
  by (metis mset_subset_eq_add_left subset_mset.add_diff_inverse targets_simps(3))

lemma targets_member: "n \<in># M \<Longrightarrow> mset (sc n) \<subseteq># targets sc M"
  using targets_mono [of "{#n#}" M sc] by simp

lemma nodes_of_Suc: "tg_size g' = Suc (tg_size g) \<Longrightarrow> nodes_of g' = add_mset (tg_size g) (nodes_of g)"
  by (simp add: nodes_of_def atLeast0_lessThan_Suc)

lemma in_nodes_of [simp]: "n \<in># nodes_of g \<longleftrightarrow> n < tg_size g"
  by (simp add: nodes_of_def)

lemma indeg_eval: "indeg g m = sum_list (map (\<lambda>p. count_list (succs g p) m) [0..<tg_size g])"
proof -
  have "count (targets (succs g) (mset ps)) m = sum_list (map (\<lambda>p. count_list (succs g p) m) ps)" for ps
    by (induction ps) (auto simp: count_mset)
  then show ?thesis by (simp add: indeg_def nodes_of_def flip: mset_upt)
qed

section \<open>The build phase keeps the counters right\<close>

lemma graph_ok_new: "graph_ok tg_new"
  by (simp add: graph_ok_def tg_new_def succs_def tg_size_def)

lemma graph_ok_node:
  assumes ok: "graph_ok g" and "tg_node g = Some (n, g')"
  shows "graph_ok g' \<and> n = tg_size g \<and> tg_size g' = Suc (tg_size g) \<and> succs g' = succs g"
proof -
  have g': "g' = g\<lparr>gr_nodes := gr_nodes g @ [new_node]\<rparr>" and n: "n = tg_size g"
    using assms(2) by (auto simp: tg_node_def tg_size_def split: if_splits)
  have sc: "succs g' = succs g"
    by (auto simp: succs_def g' nth_append new_node_def fun_eq_iff)
  have size: "tg_size g' = Suc (tg_size g)" by (simp add: g' tg_size_def)
  have indeg: "indeg g' m = indeg g m" for m
    using nodes_of_Suc [OF size] by (simp add: indeg_def sc) (simp add: succs_def tg_size_def)
  have none: "indeg g (tg_size g) = 0"
    using ok by (auto simp: indeg_def in_targets graph_ok_def count_eq_zero_iff)
  have "nd_deps (gr_nodes g' ! m) = of_nat (indeg g' m)" if "m < tg_size g'" for m
    using ok none that unfolding indeg size graph_ok_def
    by (cases "m = tg_size g") (auto simp: g' nth_append tg_size_def new_node_def)
  moreover have "gr_executing g' = gr_executing g" by (simp add: g')
  ultimately show ?thesis
    using ok n sc size by (auto simp: graph_ok_def less_Suc_eq)
qed

lemma depends_on_succs:
  assumes "this < tg_size g" "pred < tg_size g"
  shows "succs (depends_on this pred g) = (succs g)(pred := succs g pred @ [this])"
  using assms
  by (auto simp: succs_def depends_on_def update_node_def tg_size_def nth_list_update fun_eq_iff)

lemma depends_on_size [simp]: "tg_size (depends_on this pred g) = tg_size g"
  by (simp add: depends_on_def update_node_def tg_size_def)

lemma depends_on_indeg:
  assumes "this < tg_size g" "pred < tg_size g"
  shows "indeg (depends_on this pred g) m = indeg g m + (if m = this then 1 else 0)"
proof -
  let ?N = "mset_set ({0..<tg_size g} - {pred})"
  have nodes: "nodes_of g' = add_mset pred ?N" if "tg_size g' = tg_size g" for g'
    using assms(2) that by (simp add: nodes_of_def mset_set.remove)
  have "targets (succs (depends_on this pred g)) ?N = targets (succs g) ?N"
    by (rule targets_cong) (simp add: depends_on_succs assms)
  then show ?thesis
    using assms by (simp add: indeg_def nodes depends_on_succs)
qed

lemma depends_on_deps:
  assumes "this < tg_size g" "pred < tg_size g" "m < tg_size g"
  shows "nd_deps (gr_nodes (depends_on this pred g) ! m)
    = nd_deps (gr_nodes g ! m) + (if m = this then 1 else 0)"
  using assms by (auto simp: depends_on_def update_node_def tg_size_def nth_list_update)

lemma graph_ok_depends_on:
  assumes "graph_ok g" "this < tg_size g" "pred < tg_size g"
  shows "graph_ok (depends_on this pred g)"
proof -
  have "gr_executing (depends_on this pred g) = gr_executing g"
    by (simp add: depends_on_def update_node_def)
  then show ?thesis
    using assms by (auto simp: graph_ok_def depends_on_succs depends_on_indeg depends_on_deps)
qed

lemma depends_on_all_ok:
  "graph_ok g \<Longrightarrow> n < tg_size g \<Longrightarrow> list_all (\<lambda>p. p < tg_size g) ps \<Longrightarrow>
    graph_ok (depends_on_all n ps g) \<and> tg_size (depends_on_all n ps g) = tg_size g
    \<and> (\<forall>m. indeg (depends_on_all n ps g) m = indeg g m + (if m = n then length ps else 0))
    \<and> (\<forall>p. mset (succs (depends_on_all n ps g) p) = mset (succs g p) + replicate_mset (count_list ps p) n)"
proof (induction ps arbitrary: g)
  case (Cons p ps)
  then have "graph_ok (depends_on n p g)" by (simp add: graph_ok_depends_on)
  from Cons.IH [OF this] Cons.prems show ?case
    by (auto simp: depends_on_all_fold depends_on_indeg depends_on_succs)
qed (simp add: depends_on_all_fold)

lemma build_from_ok: "graph_ok g \<Longrightarrow> build_from g cs = Some g' \<Longrightarrow> graph_ok g'"
proof (induction cs arbitrary: g)
  case (Cons c cs)
  then obtain g1 where g1: "build_step c g = Some g1" "build_from g1 cs = Some g'"
    by (auto split: option.splits)
  have "graph_ok g1"
    using g1(1) Cons.prems(1) graph_ok_node depends_on_all_ok
    by (cases c) (auto split: if_splits simp: map_option_case split: option.splits)
  with Cons.IH g1(2) show ?case by blast
qed simp

lemma build_ok: "tg_build cs = Some g \<Longrightarrow> graph_ok g"
  unfolding tg_build_def by (rule build_from_ok [OF graph_ok_new])

section \<open>What a build makes\<close>

fun calls_edge :: "nat \<Rightarrow> nat \<Rightarrow> build_call \<Rightarrow> nat" where
  "calls_edge p n New_node = 0"
| "calls_edge p n (Depends_on m ps) = (if m = n then count_list ps p else 0)"

lemma build_step_size:
  "graph_ok g \<Longrightarrow> build_step c g = Some g' \<Longrightarrow> graph_ok g'
    \<and> tg_size g' = tg_size g + (if c = New_node then 1 else 0)
    \<and> (\<forall>p n. count (mset (succs g' p)) n = count (mset (succs g p)) n + calls_edge p n c)"
  using graph_ok_node [of g] depends_on_all_ok [of g]
  by (cases c) (auto split: if_splits simp: map_option_case split: option.splits)

lemma build_from_edges:
  "graph_ok g \<Longrightarrow> build_from g cs = Some g' \<Longrightarrow>
    tg_size g' = tg_size g + count_list cs New_node
    \<and> (\<forall>p n. count (mset (succs g' p)) n = count (mset (succs g p)) n + sum_list (map (calls_edge p n) cs))"
proof (induction cs arbitrary: g)
  case (Cons c cs)
  then obtain g1 where g1: "build_step c g = Some g1" "build_from g1 cs = Some g'"
    by (auto split: option.splits)
  from build_step_size [OF Cons.prems(1) g1(1)] Cons.IH [OF _ g1(2)] show ?case by auto
qed simp

text \<open>C34. A sequence of \<open>node\<close> and \<open>depends_on\<close> calls, variadic ones included, makes one node per
  \<open>node\<close> call, an edge per dependency named, with multiplicity, and leaves every node's
  \<^verbatim>\<open>deps_remaining_\<close> at its number of incoming edges.\<close>

theorem build_counts_dependencies:
  assumes "tg_build cs = Some g"
  shows "tg_size g = count_list cs New_node
    \<and> (\<forall>p n. count_list (succs g p) n = sum_list (map (calls_edge p n) cs))
    \<and> (\<forall>n < tg_size g. node_deps g n = of_nat (sum_list (map (\<lambda>p. sum_list (map (calls_edge p n) cs)) [0..<tg_size g])))"
proof -
  have new: "tg_size tg_new = 0" "succs tg_new = (\<lambda>_. [])"
    by (simp_all add: tg_new_def tg_size_def succs_def fun_eq_iff)
  have edges: "tg_size g = count_list cs New_node"
    "\<forall>p n. count_list (succs g p) n = sum_list (map (calls_edge p n) cs)"
    using build_from_edges [OF graph_ok_new assms [unfolded tg_build_def]]
    by (simp_all only: new count_mset list.simps mset.simps add_0 count_empty) simp_all
  moreover have "node_deps g n = of_nat (indeg g n)" if "n < tg_size g" for n
    using build_ok [OF assms] that by (simp add: graph_ok_def node_deps_def)
  ultimately show ?thesis by (simp add: indeg_eval)
qed

theorem build_counts_dependencies_witness:
  "\<exists>g. tg_build [New_node, New_node, New_node, Depends_on 2 [0, 1, 0]] = Some g
     \<and> tg_size g = 3 \<and> node_deps g 2 = 3"
proof -
  let ?cs = "[New_node, New_node, New_node, Depends_on 2 [0, 1, 0]]"
  obtain g where g: "tg_build ?cs = Some g"
    by (simp add: tg_build_def tg_new_def tg_node_def tg_size_def)
  from build_counts_dependencies [OF g] show ?thesis
    by (intro exI [of _ g] conjI g) (simp_all add: upt_rec)
qed

end
