(* ===== verification/Graph_Execution.thy ===== *)
theory Graph_Execution
  imports Task_Graph
begin

text \<open>
  \<^verbatim>\<open>TaskGraph::execute\<close> and the task bodies it submits (\<^verbatim>\<open>submit_node\<close>), on top of any
  scheduler: the step relation of the scheduler is a parameter, and the graph synchronises
  with it on calls and returns of \<open>submit\<close> and \<open>run\<close> and on the begin and end of tasks. A task
  is the node it captured. What is proved over the abstract scheduler holds over every
  implementation of the contract.
\<close>

section \<open>State\<close>

text \<open>The stages of \<open>execute\<close> and of the lambda in \<open>submit_node\<close>; the number of successors
  already visited is the position of the range-based loop.\<close>

datatype driver =
    D_idle | D_seed nat | D_wait nat | D_run
  | D_done
  | D_failed               \<comment> \<open>the assertion at the end did not hold\<close>

datatype body =
    B_none
  | B_begin nat            \<comment> \<open>before \<^verbatim>\<open>fn_()\<close>\<close>
  | B_fn nat               \<comment> \<open>inside \<^verbatim>\<open>fn_()\<close>\<close>
  | B_loop nat nat
  | B_ready nat nat        \<comment> \<open>the decrement returned 1\<close>
  | B_wait nat nat         \<comment> \<open>inside \<open>submit\<close> of that successor\<close>
  | B_end nat              \<comment> \<open>after the decrement of \<^verbatim>\<open>remaining_nodes_\<close>\<close>

record 's gsys =
  gs_graph :: graph
  gs_k :: nat
  gs_driver :: driver
  gs_bodies :: "body list"
  gs_sched :: 's

text \<open>\<open>GFail\<close> is the failure of \<^verbatim>\<open>assert(remaining_nodes_ == 0)\<close> after \<open>run\<close> has returned: the program aborts
  there (in a build with \<^verbatim>\<open>NDEBUG\<close>, where there is no assertion, \<open>execute\<close> returns instead).\<close>

datatype glabel = GTau | GBegin nat | GEnd nat | GMark nat | GReturn | GFail

fun over :: "driver \<Rightarrow> bool" where
  "over D_done = True"
| "over D_failed = True"
| "over d = False"

definition tg_start :: "graph \<Rightarrow> nat \<Rightarrow> 's \<Rightarrow> 's gsys" where
  "tg_start g k s = \<lparr>gs_graph = g, gs_k = k, gs_driver = D_idle, gs_bodies = [], gs_sched = s\<rparr>"

definition set_body :: "'s gsys \<Rightarrow> nat \<Rightarrow> body \<Rightarrow> 's gsys" where
  "set_body s w b = s\<lparr>gs_bodies := (gs_bodies s)[w := b]\<rparr>"

definition at_body :: "'s gsys \<Rightarrow> nat \<Rightarrow> body \<Rightarrow> bool" where
  "at_body s w b \<longleftrightarrow> w < length (gs_bodies s) \<and> gs_bodies s ! w = b"

section \<open>Steps\<close>

text \<open>\<open>execute\<close> up to its first visit of the node list.\<close>

definition exec_begin :: "graph \<Rightarrow> graph" where
  "exec_begin g = g\<lparr>gr_executing := True, gr_remaining := int (length (gr_nodes g))\<rparr>"

text \<open>\<^verbatim>\<open>succ->deps_remaining_.fetch_sub(1)\<close>, with its result, and
  \<^verbatim>\<open>remaining_nodes_.fetch_sub(1)\<close>.\<close>

definition dec_deps :: "nat \<Rightarrow> graph \<Rightarrow> 32 word \<times> graph" where
  "dec_deps m g = (node_deps g m, update_node m (\<lambda>nd. nd\<lparr>nd_deps := nd_deps nd - 1\<rparr>) g)"

definition dec_remaining :: "graph \<Rightarrow> graph" where
  "dec_remaining g = g\<lparr>gr_remaining := gr_remaining g - 1\<rparr>"

text \<open>The steps of a task body that the scheduler does not see.\<close>

fun body_step :: "graph \<Rightarrow> body \<Rightarrow> (glabel \<times> graph \<times> body) option" where
  "body_step g (B_begin n) = Some (GBegin n, g, B_fn n)"
| "body_step g (B_fn n) = Some (GEnd n, g, B_loop n 0)"
| "body_step g (B_loop n i) =
     (if i < length (succs g n)
      then let (prev, g') = dec_deps (succs g n ! i) g
           in Some (GTau, g', if prev = 1 then B_ready n i else B_loop n (Suc i))
      else Some (GMark n, dec_remaining g, B_end n))"
| "body_step g b = None"

inductive tg_step :: "('s \<Rightarrow> nat slabel \<Rightarrow> 's \<Rightarrow> bool) \<Rightarrow> 's gsys \<Rightarrow> glabel \<Rightarrow> 's gsys \<Rightarrow> bool"
  for sstep :: "'s \<Rightarrow> nat slabel \<Rightarrow> 's \<Rightarrow> bool"
where
  sched: "sstep (gs_sched s) STau s' \<Longrightarrow> tg_step sstep s GTau (s\<lparr>gs_sched := s'\<rparr>)"
| exec: "gs_driver s = D_idle \<Longrightarrow>
    tg_step sstep s GTau (s\<lparr>gs_graph := exec_begin (gs_graph s), gs_driver := D_seed 0\<rparr>)"
| seed_skip: "gs_driver s = D_seed i \<Longrightarrow> i < tg_size (gs_graph s) \<Longrightarrow> node_deps (gs_graph s) i \<noteq> 0 \<Longrightarrow>
    tg_step sstep s GTau (s\<lparr>gs_driver := D_seed (Suc i)\<rparr>)"
| seed_call: "gs_driver s = D_seed i \<Longrightarrow> i < tg_size (gs_graph s) \<Longrightarrow> node_deps (gs_graph s) i = 0 \<Longrightarrow>
    sstep (gs_sched s) (SCall Main i) s' \<Longrightarrow>
    tg_step sstep s GTau (s\<lparr>gs_driver := D_wait i, gs_sched := s'\<rparr>)"
| seed_ret: "gs_driver s = D_wait i \<Longrightarrow> sstep (gs_sched s) (SRet Main) s' \<Longrightarrow>
    tg_step sstep s GTau (s\<lparr>gs_driver := D_seed (Suc i), gs_sched := s'\<rparr>)"
| run: "gs_driver s = D_seed i \<Longrightarrow> i = tg_size (gs_graph s) \<Longrightarrow> sstep (gs_sched s) (SRunCall (gs_k s)) s' \<Longrightarrow>
    tg_step sstep s GTau (s\<lparr>gs_driver := D_run, gs_bodies := replicate (gs_k s) B_none, gs_sched := s'\<rparr>)"
| return: "gs_driver s = D_run \<Longrightarrow> sstep (gs_sched s) SRunRet s' \<Longrightarrow> gr_remaining (gs_graph s) = 0 \<Longrightarrow>
    tg_step sstep s GReturn (s\<lparr>gs_driver := D_done, gs_bodies := [], gs_sched := s'\<rparr>)"
| fail: "gs_driver s = D_run \<Longrightarrow> sstep (gs_sched s) SRunRet s' \<Longrightarrow> gr_remaining (gs_graph s) \<noteq> 0 \<Longrightarrow>
    tg_step sstep s GFail (s\<lparr>gs_driver := D_failed, gs_bodies := [], gs_sched := s'\<rparr>)"
| start: "at_body s w B_none \<Longrightarrow> sstep (gs_sched s) (SStart w n) s' \<Longrightarrow>
    tg_step sstep s GTau (set_body (s\<lparr>gs_sched := s'\<rparr>) w (B_begin n))"
| body: "at_body s w b \<Longrightarrow> body_step (gs_graph s) b = Some (l, g', b') \<Longrightarrow>
    tg_step sstep s l (set_body (s\<lparr>gs_graph := g'\<rparr>) w b')"
| call: "at_body s w (B_ready n i) \<Longrightarrow> sstep (gs_sched s) (SCall (Worker w) (succs (gs_graph s) n ! i)) s' \<Longrightarrow>
    tg_step sstep s GTau (set_body (s\<lparr>gs_sched := s'\<rparr>) w (B_wait n i))"
| ret: "at_body s w (B_wait n i) \<Longrightarrow> sstep (gs_sched s) (SRet (Worker w)) s' \<Longrightarrow>
    tg_step sstep s GTau (set_body (s\<lparr>gs_sched := s'\<rparr>) w (B_loop n (Suc i)))"
| finish: "at_body s w (B_end n) \<Longrightarrow> sstep (gs_sched s) (SFinish w n) s' \<Longrightarrow>
    tg_step sstep s GTau (set_body (s\<lparr>gs_sched := s'\<rparr>) w B_none)"

section \<open>From an implementation to the contract\<close>

definition tg_abs :: "('s \<Rightarrow> 'a) \<Rightarrow> 's gsys \<Rightarrow> 'a gsys" where
  "tg_abs f s = \<lparr>gs_graph = gs_graph s, gs_k = gs_k s, gs_driver = gs_driver s,
     gs_bodies = gs_bodies s, gs_sched = f (gs_sched s)\<rparr>"

lemma tg_abs_simps [simp]:
  "gs_graph (tg_abs f s) = gs_graph s" "gs_k (tg_abs f s) = gs_k s"
  "gs_driver (tg_abs f s) = gs_driver s" "gs_bodies (tg_abs f s) = gs_bodies s"
  "gs_sched (tg_abs f s) = f (gs_sched s)" "tg_abs f (tg_start g k a) = tg_start g k (f a)"
  by (simp_all add: tg_abs_def tg_start_def)

lemma tg_abs_updates:
  "tg_abs f (s\<lparr>gs_sched := a\<rparr>) = (tg_abs f s)\<lparr>gs_sched := f a\<rparr>"
  "tg_abs f (s\<lparr>gs_graph := g\<rparr>) = (tg_abs f s)\<lparr>gs_graph := g\<rparr>"
  "tg_abs f (s\<lparr>gs_driver := d\<rparr>) = (tg_abs f s)\<lparr>gs_driver := d\<rparr>"
  "tg_abs f (s\<lparr>gs_bodies := bs\<rparr>) = (tg_abs f s)\<lparr>gs_bodies := bs\<rparr>"
  "tg_abs f (set_body s w b) = set_body (tg_abs f s) w b"
  "at_body (tg_abs f s) = at_body s"
  by (simp_all add: tg_abs_def set_body_def at_body_def fun_eq_iff)

lemma tg_step_abs:
  assumes "tg_step step s l s'" and inv: "I (gs_sched s)"
    and keep: "\<And>a l a'. I a \<Longrightarrow> step a l a' \<Longrightarrow> I a' \<and> spec (view a) l (view a')"
  shows "tg_step spec (tg_abs view s) l (tg_abs view s') \<and> I (gs_sched s')"
  using assms(1)
proof cases
  case (sched a)
  with keep [OF inv] show ?thesis by (auto simp: tg_abs_updates intro: tg_step.sched)
next
  case exec
  with inv show ?thesis using tg_step.exec [of "tg_abs view s" spec] by (simp add: tg_abs_updates)
next
  case (seed_skip i)
  with inv show ?thesis using tg_step.seed_skip [of "tg_abs view s" i spec] by (simp add: tg_abs_updates)
next
  case (seed_call i a)
  with keep [OF inv seed_call(6)] show ?thesis
    using tg_step.seed_call [of "tg_abs view s" i spec "view a"] by (simp add: tg_abs_updates)
next
  case (seed_ret i a)
  with keep [OF inv seed_ret(4)] show ?thesis
    using tg_step.seed_ret [of "tg_abs view s" i spec "view a"] by (simp add: tg_abs_updates)
next
  case (run i a)
  with keep [OF inv run(5)] show ?thesis
    using tg_step.run [of "tg_abs view s" i spec "view a"] by (simp add: tg_abs_updates)
next
  case (return a)
  with keep [OF inv return(4)] show ?thesis
    using tg_step.return [of "tg_abs view s" spec "view a"] by (simp add: tg_abs_updates)
next
  case (fail a)
  with keep [OF inv fail(4)] show ?thesis
    using tg_step.fail [of "tg_abs view s" spec "view a"] by (simp add: tg_abs_updates)
next
  case (start w n a)
  with keep [OF inv start(4)] show ?thesis
    using tg_step.start [of "tg_abs view s" w spec n "view a"] by (simp add: tg_abs_updates set_body_def)
next
  case (body w b g b')
  with inv show ?thesis
    using tg_step.body [of "tg_abs view s" w b l g b' spec] by (simp add: tg_abs_updates set_body_def)
next
  case (call w n i a)
  with keep [OF inv call(4)] show ?thesis
    using tg_step.call [of "tg_abs view s" w n i spec "view a"] by (simp add: tg_abs_updates set_body_def)
next
  case (ret w n i a)
  with keep [OF inv ret(4)] show ?thesis
    using tg_step.ret [of "tg_abs view s" w n i spec "view a"] by (simp add: tg_abs_updates set_body_def)
next
  case (finish w n a)
  with keep [OF inv finish(4)] show ?thesis
    using tg_step.finish [of "tg_abs view s" w n spec "view a"] by (simp add: tg_abs_updates set_body_def)
qed

text \<open>A scheduler whose tasks are the nodes of a graph.\<close>

locale node_scheduler = scheduler init step inv view
  for init :: 's and step :: "'s \<Rightarrow> nat slabel \<Rightarrow> 's \<Rightarrow> bool"
    and inv :: "'s \<Rightarrow> bool" and view :: "'s \<Rightarrow> nat sched_state"
begin

lemma graph_run_abs:
  assumes "lts_run (tg_step step) (tg_start g k init) ls s"
  shows "lts_run (tg_step sched_spec) (tg_start g k spec_init) ls (tg_abs view s) \<and> inv (gs_sched s)"
  using assms
proof (induction rule: lts_run.induct)
  case run_nil
  then show ?case using init_ok by (simp add: lts_run_Nil_iff) (simp add: tg_start_def)
next
  case (run_snoc ls s l s')
  then show ?case
    using tg_step_abs [OF run_snoc.hyps(2), of inv sched_spec view] step_inv step_spec
    by (blast intro: lts_run.run_snoc)
qed

end

section \<open>Accounting over the abstract scheduler\<close>

text \<open>What a body has decremented, announces as ready, works on, has begun and has ended.\<close>

fun body_dec :: "(nat \<Rightarrow> nat list) \<Rightarrow> body \<Rightarrow> nat multiset" where
  "body_dec sc (B_loop n i) = mset (take i (sc n))"
| "body_dec sc (B_ready n i) = mset (take (Suc i) (sc n))"
| "body_dec sc (B_wait n i) = mset (take (Suc i) (sc n))"
| "body_dec sc b = {#}"

fun body_ready :: "(nat \<Rightarrow> nat list) \<Rightarrow> body \<Rightarrow> nat multiset" where
  "body_ready sc (B_ready n i) = {#sc n ! i#}"
| "body_ready sc b = {#}"

fun body_ended :: "body \<Rightarrow> nat multiset" where
  "body_ended (B_loop n i) = {#n#}"
| "body_ended (B_ready n i) = {#n#}"
| "body_ended (B_wait n i) = {#n#}"
| "body_ended b = {#}"

fun body_begun :: "body \<Rightarrow> nat multiset" where
  "body_begun (B_fn n) = {#n#}"
| "body_begun b = body_ended b"

fun body_live :: "body \<Rightarrow> nat multiset" where
  "body_live (B_begin n) = {#n#}"
| "body_live b = body_begun b"

fun body_task :: "body \<Rightarrow> nat option" where
  "body_task B_none = None"
| "body_task (B_begin n) = Some n"
| "body_task (B_fn n) = Some n"
| "body_task (B_loop n i) = Some n"
| "body_task (B_ready n i) = Some n"
| "body_task (B_wait n i) = Some n"
| "body_task (B_end n) = Some n"

fun body_ok :: "(nat \<Rightarrow> nat list) \<Rightarrow> body \<Rightarrow> bool" where
  "body_ok sc (B_loop n i) = (i \<le> length (sc n))"
| "body_ok sc (B_ready n i) = (i < length (sc n))"
| "body_ok sc (B_wait n i) = (i < length (sc n))"
| "body_ok sc b = True"

fun begun_nodes :: "glabel \<Rightarrow> nat multiset" where
  "begun_nodes (GBegin n) = {#n#}"
| "begun_nodes l = {#}"

fun ended_nodes :: "glabel \<Rightarrow> nat multiset" where
  "ended_nodes (GEnd n) = {#n#}"
| "ended_nodes l = {#}"

fun marked_nodes :: "glabel \<Rightarrow> nat multiset" where
  "marked_nodes (GMark n) = {#n#}"
| "marked_nodes l = {#}"

text \<open>The roots \<open>execute\<close> has still to submit.\<close>

definition roots_from :: "graph \<Rightarrow> nat \<Rightarrow> nat multiset" where
  "roots_from g i = mset (filter (\<lambda>m. indeg g m = 0) [i..<tg_size g])"

fun seeds :: "graph \<Rightarrow> driver \<Rightarrow> nat multiset" where
  "seeds g D_idle = roots_from g 0"
| "seeds g (D_seed i) = roots_from g i"
| "seeds g (D_wait i) = roots_from g (Suc i)"
| "seeds g d = {#}"

definition delivered :: "(nat \<Rightarrow> nat list) \<Rightarrow> nat multiset \<Rightarrow> body list \<Rightarrow> nat multiset" where
  "delivered sc F bs = targets sc F + sum_over (body_dec sc) bs"

definition released :: "graph \<Rightarrow> nat multiset \<Rightarrow> nat set" where
  "released g D = {m. m < tg_size g \<and> count D m = indeg g m}"

text \<open>
  The heart of the proof. The nodes all of whose incoming edges have been delivered are,
  each exactly once: a root still to be submitted, a successor announced as ready, queued,
  in a body, or done; every counter is what is left to deliver; and nothing on or behind a
  cycle is ever released.
\<close>

definition acct :: "graph \<Rightarrow> nat multiset \<Rightarrow> body list \<Rightarrow> nat multiset \<Rightarrow> (nat \<Rightarrow> 32 word) \<Rightarrow> bool" where
  "acct g q bs F dp \<longleftrightarrow>
     q + sum_over (\<lambda>b. body_ready (succs g) b + body_live b) bs + F
       = mset_set (released g (delivered (succs g) F bs))
     \<and> (\<forall>m < tg_size g. dp m = of_nat (indeg g m - count (delivered (succs g) F bs) m))
     \<and> released g (delivered (succs g) F bs) \<subseteq> Wellfounded.acc (edge g)"

lemma released_finite [simp]: "finite (released g D)"
  by (simp add: released_def)

lemma released_nodes: "mset_set (released g D) \<subseteq># nodes_of g"
  unfolding nodes_of_def by (rule subset_imp_msubset_mset_set) (auto simp: released_def)

lemma body_begun_ended: "body_ended b \<subseteq># body_begun b"
  by (cases b) auto

lemma body_live_begun: "body_begun b \<subseteq># body_live b"
  by (cases b) auto

lemma body_dec_ended: "body_dec sc b \<subseteq># targets sc (body_ended b)"
  by (cases b) (auto simp: subseteq_mset_def, (metis append_take_drop_id count_union le_add1 mset_append)+)

lemma sum_over_targets: "sum_over (\<lambda>b. targets sc (f b)) bs = targets sc (sum_over f bs)"
  by (induction bs) auto

lemma delivered_ended: "delivered sc F bs \<subseteq># targets sc (F + sum_over body_ended bs)"
  using sum_over_mono [of "body_dec sc" "\<lambda>b. targets sc (body_ended b)" bs] body_dec_ended
  by (simp add: delivered_def sum_over_targets)

lemma ended_live: "sum_over body_ended bs \<subseteq># sum_over body_live bs"
  by (rule sum_over_mono) (meson body_begun_ended body_live_begun subset_mset.order_trans)

lemma acct_live:
  assumes "acct g q bs F dp"
  shows "F + sum_over body_live bs \<subseteq># mset_set (released g (delivered (succs g) F bs))"
proof -
  have "sum_over body_live bs \<subseteq># sum_over (\<lambda>b. body_ready (succs g) b + body_live b) bs"
    by (rule sum_over_mono) simp
  then have "F + sum_over body_live bs
      \<subseteq># q + sum_over (\<lambda>b. body_ready (succs g) b + body_live b) bs + F"
    by (metis add.commute subset_mset.add_left_mono subset_mset.add_increasing2 subset_mset.zero_le
        add.assoc)
  with assms show ?thesis by (simp add: acct_def)
qed

lemma acct_ended_nodes:
  assumes "acct g q bs F dp"
  shows "F + sum_over body_ended bs \<subseteq># nodes_of g" "F + sum_over body_begun bs \<subseteq># nodes_of g"
proof -
  have live: "F + sum_over body_live bs \<subseteq># nodes_of g"
    using acct_live [OF assms] released_nodes by (rule subset_mset.order_trans)
  have "sum_over body_begun bs \<subseteq># sum_over body_live bs"
    by (rule sum_over_mono) (rule body_live_begun)
  then show "F + sum_over body_begun bs \<subseteq># nodes_of g"
    using live by (meson subset_mset.add_left_mono subset_mset.order_trans)
  show "F + sum_over body_ended bs \<subseteq># nodes_of g"
    using live ended_live by (meson subset_mset.add_left_mono subset_mset.order_trans)
qed

text \<open>A node is released only when all its predecessors have ended.\<close>

lemma released_preds:
  assumes sub: "D \<subseteq># targets (succs g) S" "S \<subseteq># nodes_of g"
    and m: "m \<in> released g D" and edge: "m \<in> set (succs g p)"
  shows "p \<in># S"
proof (rule ccontr)
  assume no: "p \<notin># S"
  have "p < tg_size g" using edge by (auto simp: succs_def tg_size_def split: if_splits)
  with no have "p \<in># nodes_of g - S" by (simp add: in_diff_count not_in_iff nodes_of_def)
  then have "mset (succs g p) \<subseteq># targets (succs g) (nodes_of g - S)" by (rule targets_member)
  with edge have "count (targets (succs g) (nodes_of g - S)) m > 0"
    by (meson count_greater_zero_iff mset_subset_eqD set_mset_mset in_multiset_in_set)
  moreover have "targets (succs g) (nodes_of g) = targets (succs g) S + targets (succs g) (nodes_of g - S)"
    using sub(2) by (metis subset_mset.add_diff_inverse targets_simps(3))
  ultimately have "count (targets (succs g) S) m < indeg g m" by (simp add: indeg_def)
  moreover have "count D m \<le> count (targets (succs g) S) m" using sub(1) by (rule mset_subset_eq_count)
  ultimately show False using m by (simp add: released_def)
qed

lemma acct_preds_ended:
  assumes "acct g q bs F dp" and "m \<in> released g (delivered (succs g) F bs)" and "m \<in> set (succs g p)"
  shows "p \<in># F + sum_over body_ended bs"
  by (rule released_preds [OF delivered_ended acct_ended_nodes(1) [OF assms(1)] assms(2,3)])

subsection \<open>Steps that deliver nothing\<close>

lemma acct_neutral:
  assumes acct: "acct g q bs F dp" and w: "w < length bs"
    and dec: "body_dec (succs g) b + targets (succs g) F' = body_dec (succs g) (bs ! w) + targets (succs g) F"
    and place: "q' + (body_ready (succs g) b + body_live b) + F'
      = q + (body_ready (succs g) (bs ! w) + body_live (bs ! w)) + F"
  shows "acct g q' (bs[w := b]) F' dp"
proof -
  have "delivered (succs g) F' (bs[w := b]) = delivered (succs g) F bs"
    using sum_over_exchange [of w bs "body_dec (succs g)" b, OF w dec]
    by (simp add: delivered_def add.commute)
  moreover have "sum_over (\<lambda>b. body_ready (succs g) b + body_live b) (bs[w := b]) + (q' + F')
      = sum_over (\<lambda>b. body_ready (succs g) b + body_live b) bs + (q + F)"
    using place by (intro sum_over_exchange [OF w]) (simp add: ac_simps)
  ultimately show ?thesis
    using acct by (simp add: acct_def ac_simps)
qed

subsection \<open>The step that delivers an edge\<close>

lemma of_nat_32_eq_iff:
  assumes "n < 2 ^ 32" and "k < 2 ^ 32"
  shows "(of_nat n :: 32 word) = of_nat k \<longleftrightarrow> n = k"
proof
  assume "(of_nat n :: 32 word) = of_nat k"
  then have "unat (of_nat n :: 32 word) = unat (of_nat k :: 32 word)" by simp
  with assms show "n = k" by (simp add: unsigned_of_nat take_bit_nat_eq_self)
qed simp

lemma delivered_update:
  assumes "w < length bs" "bs ! w = B_loop n i" "i < length (sc n)"
    and "b = B_ready n i \<or> b = B_loop n (Suc i)"
  shows "delivered sc F (bs[w := b]) = add_mset (sc n ! i) (delivered sc F bs)"
proof -
  have "body_dec sc b + {#} = body_dec sc (bs ! w) + {#sc n ! i#}"
    using assms by (auto simp: take_Suc_conv_app_nth)
  from sum_over_exchange [OF assms(1) this] show ?thesis by (simp add: delivered_def)
qed

lemma acct_deliver:
  fixes g q bs F dp
  defines "D \<equiv> delivered (succs g) F bs"
  assumes acct: "acct g q bs F dp" and w: "w < length bs" "bs ! w = B_loop n i" and i: "i < length (succs g n)"
    and small: "\<forall>m < tg_size g. indeg g m < 2 ^ 32" and m: "m = succs g n ! i" "m < tg_size g"
    and b: "b = (if dp m = 1 then B_ready n i else B_loop n (Suc i))"
  shows "acct g q (bs[w := b]) F (dp(m := dp m - 1))"
proof -
  let ?bs = "bs[w := b]"
  have D': "delivered (succs g) F ?bs = add_mset m D"
    unfolding D_def m(1) by (rule delivered_update [where n = n and i = i]) (simp_all add: w i b)
  have live: "sum_over body_live ?bs = sum_over body_live bs"
    by (rule sum_over_update_same [OF w(1)]) (simp add: w b)
  have S: "F + sum_over body_live bs \<subseteq># nodes_of g"
    using acct_live [OF acct] released_nodes by (rule subset_mset.order_trans)
  have sub: "add_mset m D \<subseteq># targets (succs g) (F + sum_over body_live bs)"
  proof -
    have "add_mset m D \<subseteq># targets (succs g) (F + sum_over body_ended ?bs)"
      using delivered_ended [of "succs g" F ?bs] by (simp add: D')
    also have "\<dots> \<subseteq># targets (succs g) (F + sum_over body_live bs)"
      using ended_live [of ?bs] by (intro targets_mono) (simp add: live)
    finally show ?thesis .
  qed
  have lt: "count D m < indeg g m"
    using mset_subset_eq_count [OF sub, of m] mset_subset_eq_count [OF targets_mono [OF S], of "succs g" m]
    by (simp add: indeg_def)
  have dpm: "dp m = of_nat (indeg g m - count D m)" using acct m(2) by (simp add: acct_def D_def)
  have last: "dp m = 1 \<longleftrightarrow> Suc (count D m) = indeg g m"
  proof -
    obtain r where r: "r = indeg g m - count D m" by simp
    moreover have "r < 2 ^ 32" using r small m(2) by (meson diff_le_self le_less_trans)
    ultimately have "dp m = 1 \<longleftrightarrow> r = 1" using of_nat_32_eq_iff [of r 1] by (simp add: dpm)
    with r lt show ?thesis by auto
  qed
  have rel: "released g (add_mset m D) = (if dp m = 1 then insert m (released g D) else released g D)"
    using lt m(2) last by (auto simp: released_def)
  have fresh: "m \<notin> released g D" using lt by (simp add: released_def)
  have "sum_over (\<lambda>b. body_ready (succs g) b + body_live b) ?bs
      = sum_over (\<lambda>b. body_ready (succs g) b + body_live b) bs + (if dp m = 1 then {#m#} else {#})"
    using sum_over_exchange [OF w(1), of "\<lambda>b. body_ready (succs g) b + body_live b" b "{#}"
        "if dp m = 1 then {#m#} else {#}"]
    by (auto simp: w b m(1))
  with acct fresh have place: "q + sum_over (\<lambda>b. body_ready (succs g) b + body_live b) ?bs + F
      = mset_set (released g (add_mset m D))"
    using rel by (simp add: acct_def D_def)
  have "(dp(m := dp m - 1)) v = of_nat (indeg g v - count (add_mset m D) v)" if v: "v < tg_size g" for v
  proof (cases "v = m")
    case True
    obtain k where "indeg g m - count D m = Suc k" using lt by (metis Suc_diff_Suc)
    then have "indeg g m - count (add_mset m D) m = k" "dp m = of_nat (Suc k)"
      using dpm by (simp_all only: count_add_mset) simp_all
    then show ?thesis using True by simp
  next
    case False
    then show ?thesis using acct v by (simp add: acct_def D_def)
  qed
  moreover have "released g (add_mset m D) \<subseteq> Wellfounded.acc (edge g)"
  proof -
    have old: "released g D \<subseteq> Wellfounded.acc (edge g)" using acct by (simp add: acct_def D_def)
    have "m \<in> Wellfounded.acc (edge g)" if "m \<in> released g (add_mset m D)"
    proof (rule accI)
      fix p
      assume "(p, m) \<in> edge g"
      then have "p \<in># F + sum_over body_live bs"
        by (intro released_preds [OF sub S that]) (simp add: edge_def)
      then have "p \<in># mset_set (released g D)"
        using acct_live [OF acct] unfolding D_def by (rule mset_subset_eqD [rotated])
      with old show "p \<in> Wellfounded.acc (edge g)" by auto
    qed
    with old show ?thesis by (auto simp: rel split: if_splits)
  qed
  ultimately show ?thesis using place by (simp add: acct_def D')
qed

subsection \<open>The invariant of an execution\<close>

definition tasks_of :: "body list \<Rightarrow> nat \<Rightarrow> nat option" where
  "tasks_of bs w = (if w < length bs then body_task (bs ! w) else None)"

fun before_run :: "driver \<Rightarrow> bool" where
  "before_run D_run = False"
| "before_run D_done = False"
| "before_run D_failed = False"
| "before_run d = True"

fun seed_bound :: "nat \<Rightarrow> driver \<Rightarrow> bool" where
  "seed_bound n (D_seed i) = (i \<le> n)"
| "seed_bound n (D_wait i) = (i < n)"
| "seed_bound n d = True"

definition exec_inv :: "graph \<Rightarrow> nat multiset \<Rightarrow> nat multiset \<Rightarrow> nat multiset \<Rightarrow> nat sched_state gsys \<Rightarrow> bool" where
  "exec_inv g B E F s \<longleftrightarrow>
     tg_size (gs_graph s) = tg_size g \<and> succs (gs_graph s) = succs g
     \<and> list_all (body_ok (succs g)) (gs_bodies s)
     \<and> sp_running (gs_sched s) = tasks_of (gs_bodies s)
     \<and> (if gs_driver s = D_run then sp_phase (gs_sched s) = Some (gs_k s) \<and> length (gs_bodies s) = gs_k s
        else sp_phase (gs_sched s) = None \<and> gs_bodies s = [])
     \<and> (before_run (gs_driver s) \<longrightarrow> F = {#})
     \<and> (gs_driver s \<noteq> D_idle \<longrightarrow> gr_remaining (gs_graph s) = int (tg_size g) - int (size F))
     \<and> seed_bound (tg_size g) (gs_driver s)
     \<and> B = F + sum_over body_begun (gs_bodies s) \<and> E = F + sum_over body_ended (gs_bodies s)
     \<and> acct g (seeds g (gs_driver s) + sp_queued (gs_sched s)) (gs_bodies s) F (node_deps (gs_graph s))"

lemma body_task_None: "body_task b = None \<longleftrightarrow> b = B_none"
  by (cases b) auto

lemma tasks_of_Nil [simp]: "tasks_of [] = (\<lambda>_. None)"
  by (simp add: tasks_of_def fun_eq_iff)

lemma tasks_of_replicate [simp]: "tasks_of (replicate k B_none) = (\<lambda>_. None)"
  by (simp add: tasks_of_def fun_eq_iff)

lemma tasks_of_update: "w < length bs \<Longrightarrow> tasks_of (bs[w := b]) = (tasks_of bs)(w := body_task b)"
  by (auto simp: tasks_of_def fun_eq_iff nth_list_update)

lemma exec_body:
  assumes inv: "exec_inv g B E F s" and at: "at_body s w b"
    and graph: "tg_size g' = tg_size (gs_graph s)" "succs g' = succs (gs_graph s)"
    and sched: "sp_running p = (sp_running (gs_sched s))(w := body_task b')" "sp_phase p = sp_phase (gs_sched s)"
    and ok: "body_ok (succs g) b'"
    and remaining: "gr_remaining g' = gr_remaining (gs_graph s) - (int (size F') - int (size F))"
    and begun: "body_begun b' + F' = body_begun b + F + x"
    and ended: "body_ended b' + F' = body_ended b + F + y"
    and acct: "acct g (sp_queued p) ((gs_bodies s)[w := b']) F' (node_deps g')"
  shows "exec_inv g (B + x) (E + y) F' (set_body (s\<lparr>gs_graph := g', gs_sched := p\<rparr>) w b')"
proof -
  have w: "w < length (gs_bodies s)" "gs_bodies s ! w = b" using at by (auto simp: at_body_def)
  have run: "gs_driver s = D_run" using inv w by (auto simp: exec_inv_def split: if_splits)
  have "list_all (body_ok (succs g)) ((gs_bodies s)[w := b'])"
    using inv ok w by (auto simp: exec_inv_def list_all_length nth_list_update)
  moreover have "F' + sum_over body_begun ((gs_bodies s)[w := b']) = B + x"
    using sum_over_exchange_plus [of w "gs_bodies s" body_begun b' F' F x] inv w begun by (simp add: exec_inv_def)
  moreover have "F' + sum_over body_ended ((gs_bodies s)[w := b']) = E + y"
    using sum_over_exchange_plus [of w "gs_bodies s" body_ended b' F' F y] inv w ended by (simp add: exec_inv_def)
  ultimately show ?thesis
    using inv graph sched remaining acct run w
    by (simp add: exec_inv_def set_body_def tasks_of_update)
qed

text \<open>The bodies' steps that only the scheduler sees, or that deliver nothing.\<close>

lemma exec_neutral:
  assumes inv: "exec_inv g B E F s" and at: "at_body s w b"
    and graph: "tg_size g' = tg_size (gs_graph s)" "succs g' = succs (gs_graph s)"
      "node_deps g' = node_deps (gs_graph s)"
    and sched: "sp_running p = (sp_running (gs_sched s))(w := body_task b')" "sp_phase p = sp_phase (gs_sched s)"
    and ok: "body_ok (succs g) b'"
    and remaining: "gr_remaining g' = gr_remaining (gs_graph s) - (int (size F') - int (size F))"
    and begun: "body_begun b' + F' = body_begun b + F + x"
    and ended: "body_ended b' + F' = body_ended b + F + y"
    and dec: "body_dec (succs g) b' + targets (succs g) F' = body_dec (succs g) b + targets (succs g) F"
    and place: "sp_queued p + (body_ready (succs g) b' + body_live b') + F'
      = sp_queued (gs_sched s) + (body_ready (succs g) b + body_live b) + F"
  shows "exec_inv g (B + x) (E + y) F' (set_body (s\<lparr>gs_graph := g', gs_sched := p\<rparr>) w b')"
proof (rule exec_body [OF inv at graph(1,2) sched ok remaining begun ended])
  have w: "w < length (gs_bodies s)" "gs_bodies s ! w = b" using at by (auto simp: at_body_def)
  have run: "gs_driver s = D_run" using inv w by (auto simp: exec_inv_def split: if_splits)
  show "acct g (sp_queued p) ((gs_bodies s)[w := b']) F' (node_deps g')"
    unfolding graph(3)
  proof (rule acct_neutral)
    show "acct g (sp_queued (gs_sched s)) (gs_bodies s) F (node_deps (gs_graph s))"
      using inv run by (simp add: exec_inv_def)
  qed (use w dec place in simp_all)
qed

lemma update_node_simps:
  "tg_size (update_node m f g) = tg_size g"
  "(\<And>nd. nd_succs (f nd) = nd_succs nd) \<Longrightarrow> succs (update_node m f g) = succs g"
  "gr_remaining (update_node m f g) = gr_remaining g"
proof -
  show "succs (update_node m f g) = succs g" if "\<And>nd. nd_succs (f nd) = nd_succs nd"
  proof
    fix n
    show "succs (update_node m f g) n = succs g n"
      using that by (cases "n = m") (auto simp: update_node_def succs_def)
  qed
qed (simp_all add: update_node_def tg_size_def)

lemma dec_deps_node:
  "m < tg_size g \<Longrightarrow> node_deps (snd (dec_deps m g)) = (node_deps g)(m := node_deps g m - 1)"
  by (auto simp: dec_deps_def update_node_def tg_size_def node_deps_def fun_eq_iff nth_list_update)

lemma dec_remaining_simps:
  "tg_size (dec_remaining g) = tg_size g" "succs (dec_remaining g) = succs g"
  "node_deps (dec_remaining g) = node_deps g" "gr_remaining (dec_remaining g) = gr_remaining g - 1"
  by (auto simp: dec_remaining_def tg_size_def succs_def node_deps_def fun_eq_iff)

lemma exec_begin_simps:
  "tg_size (exec_begin g) = tg_size g" "succs (exec_begin g) = succs g"
  "node_deps (exec_begin g) = node_deps g" "gr_remaining (exec_begin g) = int (tg_size g)"
  by (auto simp: exec_begin_def tg_size_def succs_def node_deps_def fun_eq_iff)

lemma exec_body_step:
  assumes inv: "exec_inv g B E F s" and ok: "graph_ok g" and small: "\<forall>m < tg_size g. indeg g m < 2 ^ 32"
    and at: "at_body s w b" and step: "body_step (gs_graph s) b = Some (l, g', b')"
  shows "exec_inv g (B + begun_nodes l) (E + ended_nodes l) (F + marked_nodes l)
    (set_body (s\<lparr>gs_graph := g'\<rparr>) w b')"
proof -
  let ?p = "gs_sched s"
  have w: "w < length (gs_bodies s)" "gs_bodies s ! w = b" using at by (auto simp: at_body_def)
  have run: "gs_driver s = D_run" using inv w by (auto simp: exec_inv_def split: if_splits)
  have task: "sp_running ?p = (sp_running ?p)(w := body_task b)"
    using inv w by (auto simp: exec_inv_def tasks_of_def fun_eq_iff)
  have sc: "succs (gs_graph s) = succs g" "tg_size (gs_graph s) = tg_size g"
    using inv by (auto simp: exec_inv_def)
  have self: "s\<lparr>gs_graph := g', gs_sched := ?p\<rparr> = s\<lparr>gs_graph := g'\<rparr>" by simp
  note neutral = exec_neutral [OF inv at, where p = ?p and g' = g' and b' = b', unfolded self]
  consider (beg) n where "b = B_begin n" | (call) n where "b = B_fn n"
    | (dec) n i where "b = B_loop n i" "i < length (succs g n)"
    | (mark) n i where "b = B_loop n i" "\<not> i < length (succs g n)"
    using step by (cases b) auto
  then show ?thesis
  proof cases
    case beg
    with step task show ?thesis by (intro neutral) auto
  next
    case call
    with step task show ?thesis by (intro neutral) auto
  next
    case mark
    then have "i = length (succs g n)"
      using inv w by (auto simp: exec_inv_def list_all_length)
    moreover have "l = GMark n" "g' = dec_remaining (gs_graph s)" "b' = B_end n"
      using mark step by (auto simp: sc)
    ultimately show ?thesis
      using mark task by (intro neutral) (simp_all add: dec_remaining_simps)
  next
    case dec
    let ?m = "succs g n ! i"
    have m: "?m < tg_size g" using ok nth_mem [OF dec(2)] by (auto simp: graph_ok_def)
    have res: "l = GTau" "g' = snd (dec_deps ?m (gs_graph s))"
      "b' = (if node_deps (gs_graph s) ?m = 1 then B_ready n i else B_loop n (Suc i))"
      using step dec by (auto simp: sc dec_deps_def Let_def split: if_splits)
    have "exec_inv g (B + {#}) (E + {#}) F (set_body (s\<lparr>gs_graph := g', gs_sched := ?p\<rparr>) w b')"
    proof (rule exec_body [OF inv at])
      show "acct g (sp_queued ?p) ((gs_bodies s)[w := b']) F (node_deps g')"
        unfolding res(2) dec_deps_node [of ?m "gs_graph s", unfolded sc, OF m]
        by (rule acct_deliver [where n = n and i = i])
          (use inv run w dec small m res in \<open>simp_all add: exec_inv_def\<close>)
    qed (use dec task res in \<open>auto simp: dec_deps_def update_node_simps\<close>)
    then show ?thesis by (simp add: res)
  qed
qed


lemma roots_from_step:
  "i < tg_size g \<Longrightarrow> roots_from g i = (if indeg g i = 0 then add_mset i else id) (roots_from g (Suc i))"
  by (simp add: roots_from_def upt_conv_Cons)

lemma roots_from_end [simp]: "roots_from g (tg_size g) = {#}"
  by (simp add: roots_from_def)

lemma exec_step:
  assumes inv: "exec_inv g B E F s" and ok: "graph_ok g" and small: "\<forall>m < tg_size g. indeg g m < 2 ^ 32"
    and "tg_step sched_spec s l s'"
  shows "exec_inv g (B + begun_nodes l) (E + ended_nodes l) (F + marked_nodes l) s'"
  using assms(4)
proof cases
  case (sched p)
  with inv show ?thesis by (simp add: sched_spec_simps)
next
  case exec
  with inv show ?thesis by (auto simp: exec_inv_def exec_begin_simps)
next
  case (seed_skip i)
  have dry: "gs_bodies s = []" "F = {#}" and deps: "node_deps (gs_graph s) i = of_nat (indeg g i)"
    using inv seed_skip by (auto simp: exec_inv_def acct_def delivered_def)
  then have "indeg g i \<noteq> 0" using seed_skip(5) by (intro notI) simp
  moreover have i: "i < tg_size g" using inv seed_skip by (simp add: exec_inv_def)
  ultimately have "seeds g (D_seed i) = seeds g (D_seed (Suc i))" by (simp add: roots_from_step)
  with inv seed_skip i show ?thesis by (auto simp: exec_inv_def)
next
  case (seed_call i p)
  have i: "i < tg_size g" using inv seed_call by (simp add: exec_inv_def)
  have "node_deps (gs_graph s) i = of_nat (indeg g i)"
    using inv seed_call by (auto simp: exec_inv_def acct_def delivered_def)
  then have "indeg g i = 0" using seed_call(5) small i of_nat_32_eq_iff [of "indeg g i" 0] by simp
  with i have "seeds g (D_seed i) = add_mset i (seeds g (D_wait i))" by (simp add: roots_from_step)
  with inv seed_call i show ?thesis by (auto simp: exec_inv_def sched_spec_simps)
next
  case (seed_ret i p)
  with inv show ?thesis by (auto simp: exec_inv_def sched_spec_simps)
next
  case (run i p)
  have "sum_over f (replicate k B_none) = {#}" if "f B_none = {#}" for f :: "body \<Rightarrow> nat multiset" and k
    using that by (intro sum_over_replicate_zero) simp
  with inv run show ?thesis
    by (auto simp: exec_inv_def sched_spec_simps acct_def delivered_def list_all_length)
next
  case (return p)
  have "tasks_of (gs_bodies s) w = None" for w
    using inv return by (auto simp: exec_inv_def sched_spec_simps)
  then have "body_task (gs_bodies s ! w) = None" if "w < length (gs_bodies s)" for w
    using that by (metis tasks_of_def)
  then have none: "b \<in> set (gs_bodies s) \<Longrightarrow> b = B_none" for b
    by (auto simp: in_set_conv_nth body_task_None)
  have "sum_over f (gs_bodies s) = {#}" if "f B_none = {#}" for f :: "body \<Rightarrow> nat multiset"
    using that none by (intro sum_over_zero) auto
  with inv return show ?thesis
    by (auto simp: exec_inv_def sched_spec_simps acct_def delivered_def)
next
  case (fail p)
  have "tasks_of (gs_bodies s) w = None" for w
    using inv fail by (auto simp: exec_inv_def sched_spec_simps)
  then have "body_task (gs_bodies s ! w) = None" if "w < length (gs_bodies s)" for w
    using that by (metis tasks_of_def)
  then have none: "b \<in> set (gs_bodies s) \<Longrightarrow> b = B_none" for b
    by (auto simp: in_set_conv_nth body_task_None)
  have "sum_over f (gs_bodies s) = {#}" if "f B_none = {#}" for f :: "body \<Rightarrow> nat multiset"
    using that none by (intro sum_over_zero) auto
  with inv fail show ?thesis
    by (auto simp: exec_inv_def sched_spec_simps acct_def delivered_def)
next
  case (start w n p)
  have "exec_inv g (B + {#}) (E + {#}) F (set_body (s\<lparr>gs_graph := gs_graph s, gs_sched := p\<rparr>) w (B_begin n))"
    by (rule exec_neutral [OF inv start(3)]) (use start in \<open>auto simp: sched_spec_simps\<close>)
  with start show ?thesis by simp
next
  case (body w b g' b')
  with exec_body_step [OF inv ok small] show ?thesis by simp
next
  case (call w n i p)
  have "succs (gs_graph s) = succs g" using inv by (simp add: exec_inv_def)
  moreover have "body_ok (succs g) (B_ready n i)" "sp_running (gs_sched s) w = Some n"
    using inv call(3) by (auto simp: exec_inv_def at_body_def list_all_length tasks_of_def)
  ultimately have "exec_inv g (B + {#}) (E + {#}) F (set_body (s\<lparr>gs_graph := gs_graph s, gs_sched := p\<rparr>) w (B_wait n i))"
    by (intro exec_neutral [OF inv call(3)]) (use call in \<open>auto simp: sched_spec_simps\<close>)
  with call show ?thesis by simp
next
  case (ret w n i p)
  have "body_ok (succs g) (B_wait n i)" "sp_running (gs_sched s) w = Some n"
    using inv ret(3) by (auto simp: exec_inv_def at_body_def list_all_length tasks_of_def)
  then have "exec_inv g (B + {#}) (E + {#}) F (set_body (s\<lparr>gs_graph := gs_graph s, gs_sched := p\<rparr>) w (B_loop n (Suc i)))"
    by (intro exec_neutral [OF inv ret(3)]) (use ret in \<open>auto simp: sched_spec_simps\<close>)
  with ret show ?thesis by simp
next
  case (finish w n p)
  have "exec_inv g (B + {#}) (E + {#}) F (set_body (s\<lparr>gs_graph := gs_graph s, gs_sched := p\<rparr>) w B_none)"
    by (rule exec_neutral [OF inv finish(3)]) (use finish in \<open>auto simp: sched_spec_simps\<close>)
  with finish show ?thesis by simp
qed


lemma exec_init:
  assumes ok: "graph_ok g"
  shows "exec_inv g {#} {#} {#} (tg_start g k spec_init)"
proof -
  have rel: "released g {#} = {m. m < tg_size g \<and> indeg g m = 0}" by (auto simp: released_def)
  have "roots_from g 0 = mset_set (released g {#})"
    by (simp add: roots_from_def rel flip: mset_upt mset_filter) (simp add: mset_set_upto_eq_mset_upto filter_mset_mset_set)
  moreover have "released g {#} \<subseteq> Wellfounded.acc (edge g)"
  proof
    fix m
    assume "m \<in> released g {#}"
    then have m: "m < tg_size g" "m \<notin># targets (succs g) (nodes_of g)"
      by (auto simp: rel indeg_def count_eq_zero_iff)
    show "m \<in> Wellfounded.acc (edge g)"
    proof (rule accI)
      fix p
      assume "(p, m) \<in> edge g"
      with m(2) show "p \<in> Wellfounded.acc (edge g)"
        by (auto simp: edge_def in_targets succs_def tg_size_def split: if_splits)
    qed
  qed
  ultimately show ?thesis
    using ok by (simp add: exec_inv_def tg_start_def spec_init_def acct_def delivered_def node_deps_def graph_ok_def)
qed

lemma exec_run:
  assumes ok: "graph_ok g" and small: "\<forall>m < tg_size g. indeg g m < 2 ^ 32"
    and "lts_run (tg_step sched_spec) (tg_start g k spec_init) ls s"
  shows "exec_inv g (tally begun_nodes ls) (tally ended_nodes ls) (tally marked_nodes ls) s"
  using assms(3)
proof (induction rule: lts_run.induct)
  case run_nil
  show ?case using exec_init [OF ok] by simp
next
  case (run_snoc ls s l s')
  from exec_step [OF run_snoc.IH ok small run_snoc.hyps(2)] show ?case by simp
qed

subsection \<open>What execute guarantees over the contract\<close>

lemma exec_order:
  assumes ok: "graph_ok g" and small: "\<forall>m < tg_size g. indeg g m < 2 ^ 32"
    and run: "lts_run (tg_step sched_spec) (tg_start g k spec_init) (ls @ [GBegin n]) s"
  shows "n < tg_size g \<and> n \<notin># tally begun_nodes ls \<and> (\<forall>p. n \<in> set (succs g p) \<longrightarrow> p \<in># tally ended_nodes ls)"
proof -
  from exec_run [OF ok small run] obtain q where
    acct: "acct g q (gs_bodies s) (tally marked_nodes ls) (node_deps (gs_graph s))"
    and B: "add_mset n (tally begun_nodes ls) = tally marked_nodes ls + sum_over body_begun (gs_bodies s)"
    and E: "tally ended_nodes ls = tally marked_nodes ls + sum_over body_ended (gs_bodies s)"
    by (auto simp: exec_inv_def)
  have sub: "add_mset n (tally begun_nodes ls) \<subseteq># nodes_of g"
    unfolding B by (rule acct_ended_nodes(2) [OF acct])
  then have n: "n < tg_size g" by (metis in_nodes_of mset_subset_eqD union_single_eq_member)
  have "count (tally begun_nodes ls) n = 0"
    using mset_subset_eq_count [OF sub, of n] by (simp add: nodes_of_def n)
  moreover have "n \<in># mset_set (released g (delivered (succs g) (tally marked_nodes ls) (gs_bodies s)))"
  proof (rule mset_subset_eqD [OF acct_live [OF acct]])
    have "n \<in># tally marked_nodes ls + sum_over body_begun (gs_bodies s)"
      unfolding B [symmetric] by simp
    moreover have "sum_over body_begun (gs_bodies s) \<subseteq># sum_over body_live (gs_bodies s)"
      by (rule sum_over_mono) (rule body_live_begun)
    ultimately show "n \<in># tally marked_nodes ls + sum_over body_live (gs_bodies s)"
      by (auto dest: mset_subset_eqD)
  qed
  ultimately show ?thesis
    using n acct_preds_ended [OF acct, of n] by (simp add: E not_in_iff)
qed

text \<open>At the return every node that no cycle precedes has run, and no other.\<close>

lemma released_fixpoint:
  assumes "F \<subseteq># nodes_of g" and F: "F = mset_set (released g (targets (succs g) F))"
    and sub: "released g (targets (succs g) F) \<subseteq> Wellfounded.acc (edge g)"
  shows "F = mset_set {n. n < tg_size g \<and> n \<in> Wellfounded.acc (edge g)}"
proof -
  let ?R = "released g (targets (succs g) F)"
  have "n < tg_size g \<longrightarrow> n \<in> ?R" if "n \<in> Wellfounded.acc (edge g)" for n
    using that
  proof (induction rule: acc.induct)
    case (accI n)
    have "p \<in># F" if "n \<in> set (succs g p)" for p
    proof -
      have "p < tg_size g" using that by (auto simp: succs_def tg_size_def split: if_splits)
      with accI that have "p \<in> ?R" by (auto simp: edge_def)
      then show ?thesis by (subst F) simp
    qed
    moreover have "p \<notin># F" if "p \<in># nodes_of g - F" for p
      using that by (cases "p < tg_size g") (simp_all add: in_diff_count nodes_of_def not_in_iff)
    ultimately have "n \<notin># targets (succs g) (nodes_of g - F)"
      by (auto simp: in_targets)
    moreover have "targets (succs g) (nodes_of g) = targets (succs g) F + targets (succs g) (nodes_of g - F)"
      using assms(1) by (metis subset_mset.add_diff_inverse targets_simps(3))
    ultimately show ?case by (auto simp: released_def indeg_def count_eq_zero_iff)
  qed
  with sub have "?R = {n. n < tg_size g \<and> n \<in> Wellfounded.acc (edge g)}"
    by (auto simp: released_def)
  with F show ?thesis by simp
qed


lemma exec_end:
  assumes ok: "graph_ok g" and small: "\<forall>m < tg_size g. indeg g m < 2 ^ 32"
    and run: "lts_run (tg_step sched_spec) (tg_start g k spec_init) (ls @ [l]) s" and l: "l = GReturn \<or> l = GFail"
  shows "tally ended_nodes ls = mset_set {n. n < tg_size g \<and> n \<in> Wellfounded.acc (edge g)}
    \<and> tally begun_nodes ls = tally ended_nodes ls
    \<and> gr_remaining (gs_graph s) = int (card {n. n < tg_size g \<and> n \<notin> Wellfounded.acc (edge g)})
    \<and> (l = GReturn \<longleftrightarrow> gr_remaining (gs_graph s) = 0)"
proof -
  let ?A = "{n. n < tg_size g \<and> n \<in> Wellfounded.acc (edge g)}"
  let ?F = "tally marked_nodes ls"
  have inv: "exec_inv g (tally begun_nodes ls) (tally ended_nodes ls) ?F s"
    using exec_run [OF ok small run] l by auto
  from run obtain s1 where s1: "lts_run (tg_step sched_spec) (tg_start g k spec_init) ls s1"
    "tg_step sched_spec s1 l s" by (auto simp: lts_run_snoc_iff)
  from s1(2) have fin: "over (gs_driver s) \<and> sp_queued (gs_sched s) = {#} \<and> (l = GReturn \<longleftrightarrow> gr_remaining (gs_graph s) = 0)"
  proof cases
    case (body w b g' b')
    then show ?thesis using l by (cases b) (auto simp: Let_def split: if_splits prod.splits)
  qed (use l in \<open>auto simp: sched_spec_simps\<close>)
  then have idle: "gs_bodies s = []" using inv by (cases "gs_driver s") (auto simp: exec_inv_def)
  have "seeds g (gs_driver s) = {#}" using fin by (cases "gs_driver s") auto
  then have acct: "acct g {#} [] ?F (node_deps (gs_graph s))"
    using inv fin idle by (simp add: exec_inv_def)
  then have "?F = mset_set (released g (targets (succs g) ?F))"
    "released g (targets (succs g) ?F) \<subseteq> Wellfounded.acc (edge g)"
    by (auto simp: acct_def delivered_def)
  moreover have "?F \<subseteq># nodes_of g" using acct_ended_nodes(1) [OF acct] by simp
  ultimately have F: "?F = mset_set ?A" by (intro released_fixpoint)
  have "int (tg_size g) - int (card ?A) = int (card ({..<tg_size g} - ?A))"
  proof -
    have sub: "?A \<subseteq> {..<tg_size g}" by auto
    then have "card ?A \<le> tg_size g" using card_mono [OF finite_lessThan sub] by simp
    moreover have "card ({..<tg_size g} - ?A) = tg_size g - card ?A"
      using card_Diff_subset [OF _ sub] by simp
    ultimately show ?thesis by simp
  qed
  moreover have "{..<tg_size g} - ?A = {n. n < tg_size g \<and> n \<notin> Wellfounded.acc (edge g)}" by auto
  moreover have "gs_driver s \<noteq> D_idle" using fin by auto
  ultimately show ?thesis
    using inv idle fin F by (simp add: exec_inv_def)
qed

lemma acyclic_all_released:
  assumes "acyclic (edge g)"
  shows "Wellfounded.acc (edge g) = UNIV"
proof -
  have "edge g = (\<Union>p<tg_size g. Pair p ` set (succs g p))"
    by (auto simp: edge_def succs_def tg_size_def split: if_splits)
  then have "finite (edge g)" by simp
  then have "wf (edge g)" using assms by (rule finite_acyclic_wf)
  then show ?thesis by (auto dest: acc_wfD)
qed

context node_scheduler begin

lemma graph_order:
  assumes "graph_ok g" and "\<forall>m < tg_size g. indeg g m < 2 ^ 32"
    and "lts_run (tg_step step) (tg_start g k init) (ls @ [GBegin n]) s"
  shows "n < tg_size g \<and> n \<notin># tally begun_nodes ls \<and> (\<forall>p. n \<in> set (succs g p) \<longrightarrow> p \<in># tally ended_nodes ls)"
  by (rule exec_order [OF assms(1,2) graph_run_abs [OF assms(3), THEN conjunct1]])

lemma graph_end:
  assumes "graph_ok g" and "\<forall>m < tg_size g. indeg g m < 2 ^ 32"
    and "lts_run (tg_step step) (tg_start g k init) (ls @ [l]) s" and "l = GReturn \<or> l = GFail"
  shows "tally ended_nodes ls = mset_set {n. n < tg_size g \<and> n \<in> Wellfounded.acc (edge g)}
    \<and> tally begun_nodes ls = tally ended_nodes ls
    \<and> gr_remaining (gs_graph s) = int (card {n. n < tg_size g \<and> n \<notin> Wellfounded.acc (edge g)})
    \<and> (l = GReturn \<longleftrightarrow> gr_remaining (gs_graph s) = 0)"
  using exec_end [OF assms(1,2) graph_run_abs [OF assms(3), THEN conjunct1] assms(4)] by simp

lemma graph_return:
  assumes "graph_ok g" and "\<forall>m < tg_size g. indeg g m < 2 ^ 32"
    and "lts_run (tg_step step) (tg_start g k init) (ls @ [GReturn]) s"
  shows "tally ended_nodes ls = mset_set {n. n < tg_size g \<and> n \<in> Wellfounded.acc (edge g)}
    \<and> tally begun_nodes ls = tally ended_nodes ls"
  using graph_end [OF assms] by simp

end

subsection \<open>Replaying an execution\<close>

text \<open>A schedule of the whole system is a list of threads: what each does next is determined.\<close>

definition tg_driver_do :: "(nat act \<Rightarrow> 's \<Rightarrow> (nat slabel \<times> 's) option) \<Rightarrow> 's gsys \<Rightarrow> (glabel \<times> 's gsys) option" where
  "tg_driver_do f s = (case gs_driver s of
       D_idle \<Rightarrow> Some (GTau, s\<lparr>gs_graph := exec_begin (gs_graph s), gs_driver := D_seed 0\<rparr>)
     | D_seed i \<Rightarrow>
         if i < tg_size (gs_graph s) then
           if node_deps (gs_graph s) i = 0 then
             (case f (Submit Main i) (gs_sched s) of
                Some (SCall Main j, s') \<Rightarrow>
                  if j = i then Some (GTau, s\<lparr>gs_driver := D_wait i, gs_sched := s'\<rparr>) else None
              | _ \<Rightarrow> None)
           else Some (GTau, s\<lparr>gs_driver := D_seed (Suc i)\<rparr>)
         else if i = tg_size (gs_graph s) then
           (case f (Run (gs_k s)) (gs_sched s) of
              Some (SRunCall n, s') \<Rightarrow>
                if n = gs_k s
                then Some (GTau, s\<lparr>gs_driver := D_run, gs_bodies := replicate (gs_k s) B_none, gs_sched := s'\<rparr>)
                else None
            | _ \<Rightarrow> None)
         else None
     | D_wait i \<Rightarrow> (case f (Do Main) (gs_sched s) of
           Some (STau, s') \<Rightarrow> Some (GTau, s\<lparr>gs_sched := s'\<rparr>)
         | Some (SRet Main, s') \<Rightarrow> Some (GTau, s\<lparr>gs_driver := D_seed (Suc i), gs_sched := s'\<rparr>)
         | _ \<Rightarrow> None)
     | D_run \<Rightarrow> (case f (Do Main) (gs_sched s) of
           Some (STau, s') \<Rightarrow> Some (GTau, s\<lparr>gs_sched := s'\<rparr>)
         | Some (SRunRet, s') \<Rightarrow>
             if gr_remaining (gs_graph s) = 0
             then Some (GReturn, s\<lparr>gs_driver := D_done, gs_bodies := [], gs_sched := s'\<rparr>)
             else Some (GFail, s\<lparr>gs_driver := D_failed, gs_bodies := [], gs_sched := s'\<rparr>)
         | _ \<Rightarrow> None)
     | _ \<Rightarrow> None)"

definition tg_worker_do :: "(nat act \<Rightarrow> 's \<Rightarrow> (nat slabel \<times> 's) option) \<Rightarrow> nat \<Rightarrow> 's gsys \<Rightarrow> (glabel \<times> 's gsys) option" where
  "tg_worker_do f w s =
     (if length (gs_bodies s) \<le> w then None
      else case gs_bodies s ! w of
        B_none \<Rightarrow> (case f (Do (Worker w)) (gs_sched s) of
            Some (STau, s') \<Rightarrow> Some (GTau, s\<lparr>gs_sched := s'\<rparr>)
          | Some (SStart v n, s') \<Rightarrow>
              if v = w then Some (GTau, set_body (s\<lparr>gs_sched := s'\<rparr>) w (B_begin n)) else None
          | _ \<Rightarrow> None)
      | B_ready n i \<Rightarrow> (case f (Submit (Worker w) (succs (gs_graph s) n ! i)) (gs_sched s) of
            Some (SCall (Worker v) m, s') \<Rightarrow>
              if v = w \<and> m = succs (gs_graph s) n ! i
              then Some (GTau, set_body (s\<lparr>gs_sched := s'\<rparr>) w (B_wait n i)) else None
          | _ \<Rightarrow> None)
      | B_wait n i \<Rightarrow> (case f (Do (Worker w)) (gs_sched s) of
            Some (STau, s') \<Rightarrow> Some (GTau, s\<lparr>gs_sched := s'\<rparr>)
          | Some (SRet (Worker v), s') \<Rightarrow>
              if v = w then Some (GTau, set_body (s\<lparr>gs_sched := s'\<rparr>) w (B_loop n (Suc i))) else None
          | _ \<Rightarrow> None)
      | B_end n \<Rightarrow> (case f (Finish w) (gs_sched s) of
            Some (SFinish v m, s') \<Rightarrow>
              if v = w \<and> m = n then Some (GTau, set_body (s\<lparr>gs_sched := s'\<rparr>) w B_none) else None
          | _ \<Rightarrow> None)
      | b \<Rightarrow> (case body_step (gs_graph s) b of
            Some (l, g', b') \<Rightarrow> Some (l, set_body (s\<lparr>gs_graph := g'\<rparr>) w b')
          | None \<Rightarrow> None))"

definition tg_do :: "(nat act \<Rightarrow> 's \<Rightarrow> (nat slabel \<times> 's) option) \<Rightarrow> thread \<Rightarrow> 's gsys \<Rightarrow> (glabel \<times> 's gsys) option" where
  "tg_do f th s = (case th of Main \<Rightarrow> tg_driver_do f s | Worker w \<Rightarrow> tg_worker_do f w s)"

lemma tg_driver_do_step:
  assumes f: "\<And>a s l s'. f a s = Some (l, s') \<Longrightarrow> st s l s'"
  shows "tg_driver_do f s = Some (l, s') \<Longrightarrow> tg_step st s l s'"
  unfolding tg_driver_do_def
  by (auto split: driver.splits if_splits option.splits slabel.splits thread.splits
      dest!: f intro: tg_step.sched tg_step.exec tg_step.seed_skip tg_step.seed_call tg_step.seed_ret tg_step.run tg_step.return tg_step.fail)

lemma tg_worker_do_step:
  assumes f: "\<And>a s l s'. f a s = Some (l, s') \<Longrightarrow> st s l s'" and "tg_worker_do f w s = Some (l, s')"
  shows "tg_step st s l s'"
proof -
  have at: "at_body s w (gs_bodies s ! w)"
    using assms(2) by (auto simp: tg_worker_do_def at_body_def split: if_splits)
  note body = tg_step.body [of s w _ _ _ _ st, OF at]
  show ?thesis
  proof (cases "gs_bodies s ! w")
    case B_none
    with assms(2) at show ?thesis
      by (auto simp: tg_worker_do_def split: if_splits option.splits slabel.splits
        dest!: f intro: tg_step.sched tg_step.start)
  next
    case (B_ready n i)
    with assms(2) at show ?thesis
      by (auto simp: tg_worker_do_def split: if_splits option.splits slabel.splits thread.splits
        dest!: f intro: tg_step.call)
  next
    case (B_wait n i)
    with assms(2) at show ?thesis
      by (auto simp: tg_worker_do_def split: if_splits option.splits slabel.splits thread.splits
        dest!: f intro: tg_step.sched tg_step.ret)
  next
    case (B_end n)
    with assms(2) at show ?thesis
      by (auto simp: tg_worker_do_def split: if_splits option.splits slabel.splits
        dest!: f intro: tg_step.finish)
  qed (use assms(2) body in \<open>auto simp: tg_worker_do_def split: if_splits option.splits\<close>)
qed

lemma tg_do_step:
  assumes "\<And>a s l s'. f a s = Some (l, s') \<Longrightarrow> st s l s'" and "tg_do f th s = Some (l, s')"
  shows "tg_step st s l s'"
  using assms(2) tg_driver_do_step [OF assms(1)] tg_worker_do_step [OF assms(1)]
  by (cases th) (simp_all add: tg_do_def)

lemma tg_play:
  assumes "\<And>a s l s'. f a s = Some (l, s') \<Longrightarrow> st s l s'"
  shows "lts_run (tg_step st) s (fst (play (tg_do f) ths s)) (snd (play (tg_do f) ths s))"
proof (rule play_run)
  show "tg_step st s l s'" if "tg_do f a s = Some (l, s')" for a s l s'
    using assms that by (rule tg_do_step)
qed simp

end
