(* ===== verification/Ring_Queue.thy ===== *)
theory Ring_Queue
  imports Prelude
begin

text \<open>
  The bounded ring of \<^verbatim>\<open>include/lockfree_queue_scheduler.hpp\<close>: slots with sequence numbers,
  \<open>enqueue\<close> and \<open>dequeue\<close> as the steps between two accesses to shared variables, and the
  protocol that keeps producers and consumers apart. The code's 64-bit counters are natural
  numbers here; the size of the ring is \<open>2 ^ k\<close> for any \<open>k \<ge> 1\<close>, and the code's \<open>k\<close> is
  \<open>kLog2Ring\<close>.
\<close>

section \<open>State\<close>

record 't slot =
  sl_seq :: nat
  sl_payload :: "'t option"

record 't ring =
  rg_k :: nat
  rg_slots :: "'t slot list"
  rg_head :: nat
  rg_tail :: nat

definition kLog2Ring :: nat where "kLog2Ring = 17"

definition ring_size :: "'t ring \<Rightarrow> nat" where
  "ring_size r = 2 ^ rg_k r"

definition ring_new :: "nat \<Rightarrow> 't ring" where
  "ring_new k = \<lparr>rg_k = k, rg_slots = map (\<lambda>i. \<lparr>sl_seq = i, sl_payload = None\<rparr>) [0..<2 ^ k],
     rg_head = 0, rg_tail = 0\<rparr>"

text \<open>\<^verbatim>\<open>ring_[pos & kMask]\<close>\<close>

definition ring_ix :: "'t ring \<Rightarrow> nat \<Rightarrow> nat" where
  "ring_ix r pos = pos AND (2 ^ rg_k r - 1)"

definition seq_at :: "'t ring \<Rightarrow> nat \<Rightarrow> nat" where
  "seq_at r pos = sl_seq (rg_slots r ! ring_ix r pos)"

definition payload_at :: "'t ring \<Rightarrow> nat \<Rightarrow> 't option" where
  "payload_at r pos = sl_payload (rg_slots r ! ring_ix r pos)"

definition set_slot :: "'t ring \<Rightarrow> nat \<Rightarrow> ('t slot \<Rightarrow> 't slot) \<Rightarrow> 't ring" where
  "set_slot r pos f = r\<lparr>rg_slots := (rg_slots r)[ring_ix r pos := f (rg_slots r ! ring_ix r pos)]\<rparr>"

definition store_payload :: "'t ring \<Rightarrow> nat \<Rightarrow> 't option \<Rightarrow> 't ring" where
  "store_payload r pos v = set_slot r pos (\<lambda>sl. sl\<lparr>sl_payload := v\<rparr>)"

definition store_seq :: "'t ring \<Rightarrow> nat \<Rightarrow> nat \<Rightarrow> 't ring" where
  "store_seq r pos v = set_slot r pos (\<lambda>sl. sl\<lparr>sl_seq := v\<rparr>)"

section \<open>Operations\<close>

datatype 't enq =
    E_reserve 't | E_wait 't nat | E_store 't nat | E_publish nat | E_done

fun enq_step :: "'t ring \<Rightarrow> 't enq \<Rightarrow> 't ring \<times> 't enq" where
  "enq_step r (E_reserve t) = (r\<lparr>rg_head := rg_head r + 1\<rparr>, E_wait t (rg_head r))"
| "enq_step r (E_wait t pos) = (r, if seq_at r pos \<noteq> pos then E_wait t pos else E_store t pos)"
| "enq_step r (E_store t pos) = (store_payload r pos (Some t), E_publish pos)"
| "enq_step r (E_publish pos) = (store_seq r pos (pos + 1), E_done)"
| "enq_step r E_done = (r, E_done)"

text \<open>The weak compare-and-swap may fail although \<^verbatim>\<open>tail_\<close> has the expected value; it then leaves
  the value it read in \<open>pos\<close>.\<close>

datatype 't deq =
    C_load | C_seq nat | C_cas nat | C_take nat | C_release nat "'t option" | C_done "'t option"

fun deq_step :: "bool \<Rightarrow> 't ring \<Rightarrow> 't deq \<Rightarrow> 't ring \<times> 't deq" where
  "deq_step spurious r C_load = (r, C_seq (rg_tail r))"
| "deq_step spurious r (C_seq pos) =
     (let diff = int (seq_at r pos) - int (pos + 1)
      in (r, if diff = 0 then C_cas pos else if diff < 0 then C_done None else C_load))"
| "deq_step spurious r (C_cas pos) =
     (if rg_tail r = pos \<and> \<not> spurious then (r\<lparr>rg_tail := pos + 1\<rparr>, C_take pos)
      else (r, C_seq (rg_tail r)))"
| "deq_step spurious r (C_take pos) = (store_payload r pos None, C_release pos (payload_at r pos))"
| "deq_step spurious r (C_release pos raw) = (store_seq r pos (pos + ring_size r), C_done raw)"
| "deq_step spurious r (C_done v) = (r, C_done v)"

text \<open>The difference of two counters below \<open>2 ^ 63\<close> is the code's: unsigned subtraction, read as
  a signed number.\<close>

lemma sint_of_nat_small: "n < 2 ^ 63 \<Longrightarrow> sint (of_nat n :: 64 word) = int n"
  by (simp add: signed_of_nat signed_take_bit_int_eq_self)

lemma diff_machine:
  assumes "seq < 2 ^ 63" and "pos + 1 < 2 ^ 63"
  shows "sint (of_nat seq :: 64 word) - sint (of_nat pos + 1 :: 64 word) = int seq - int (pos + 1)"
proof -
  have "sint (of_nat (pos + 1) :: 64 word) = int (pos + 1)" using assms(2) by (rule sint_of_nat_small)
  then have "sint (of_nat pos + 1 :: 64 word) = int (pos + 1)" by (simp add: add.commute)
  with sint_of_nat_small [OF assms(1)] show ?thesis by simp
qed

section \<open>Slots\<close>

lemma ring_ix_mod [idx_simps]: "ring_ix r pos = pos mod ring_size r"
proof -
  have "pos AND (2 ^ rg_k r - 1) = take_bit (rg_k r) pos"
    by (metis mask_eq_exp_minus_1 take_bit_eq_mask)
  then show ?thesis by (simp add: ring_ix_def ring_size_def take_bit_eq_mod)
qed

definition ring_wf :: "'t ring \<Rightarrow> bool" where
  "ring_wf r \<longleftrightarrow> 1 \<le> rg_k r \<and> length (rg_slots r) = ring_size r"

lemma ring_size_ge: "ring_wf r \<Longrightarrow> 2 \<le> ring_size r"
  unfolding ring_wf_def ring_size_def using self_le_power [of 2 "rg_k r"] by simp

lemma ring_ix_less: "ring_wf r \<Longrightarrow> ring_ix r pos < length (rg_slots r)"
  by (simp add: idx_simps ring_wf_def ring_size_def)

lemma store_fields [simp]:
  "rg_k (store_seq r p v) = rg_k r" "rg_head (store_seq r p v) = rg_head r" "rg_tail (store_seq r p v) = rg_tail r"
  "rg_k (store_payload r p w) = rg_k r" "rg_head (store_payload r p w) = rg_head r"
  "rg_tail (store_payload r p w) = rg_tail r"
  "ring_size (store_seq r p v) = ring_size r" "ring_size (store_payload r p w) = ring_size r"
  "ring_wf (store_seq r p v) = ring_wf r" "ring_wf (store_payload r p w) = ring_wf r"
  "ring_ix (store_seq r p v) = ring_ix r" "ring_ix (store_payload r p w) = ring_ix r"
  by (simp_all add: store_seq_def store_payload_def set_slot_def ring_wf_def ring_size_def ring_ix_def fun_eq_iff)

lemma seq_at_store:
  assumes "ring_wf r"
  shows "seq_at (store_seq r p v) q = (if ring_ix r q = ring_ix r p then v else seq_at r q)"
    "payload_at (store_seq r p v) q = payload_at r q"
    "seq_at (store_payload r p w) q = seq_at r q"
    "payload_at (store_payload r p w) q = (if ring_ix r q = ring_ix r p then w else payload_at r q)"
  using ring_ix_less [OF assms]
  by (auto simp: seq_at_def payload_at_def store_seq_def store_payload_def set_slot_def ring_ix_def nth_list_update)

text \<open>Two positions of one slot are never neighbours.\<close>

lemma same_slot_neighbours:
  assumes "ring_wf r" and "ring_ix r p = ring_ix r q"
  shows "q \<noteq> Suc p"
proof
  assume "q = Suc p"
  with assms(2) have "Suc p mod ring_size r = p mod ring_size r" by (simp add: idx_simps)
  then have "ring_size r dvd Suc p - p" by (metis le_SucI order_refl mod_eq_dvd_iff_nat)
  then show False using ring_size_ge [OF assms(1)] by simp
qed

lemma same_slot_next: "ring_ix r (p + ring_size r) = ring_ix r p"
  by (simp add: idx_simps)

section \<open>The protocol\<close>

text \<open>Where a thread stands in an operation, by the position it works on.\<close>

datatype stage =
    At_wait nat | At_store nat | At_publish nat | At_cas nat | At_take nat | At_release nat

fun producing :: "stage \<Rightarrow> nat multiset" where
  "producing (At_wait p) = {#p#}"
| "producing (At_store p) = {#p#}"
| "producing (At_publish p) = {#p#}"
| "producing st = {#}"

fun consuming :: "stage \<Rightarrow> nat multiset" where
  "consuming (At_take p) = {#p#}"
| "consuming (At_release p) = {#p#}"
| "consuming st = {#}"

definition producers :: "stage multiset \<Rightarrow> nat multiset" where
  "producers fl = (\<Sum>st\<in>#fl. producing st)"

definition consumers :: "stage multiset \<Rightarrow> nat multiset" where
  "consumers fl = (\<Sum>st\<in>#fl. consuming st)"

fun stage_ok :: "'t ring \<Rightarrow> stage \<Rightarrow> bool" where
  "stage_ok r (At_wait p) = (p < rg_head r)"
| "stage_ok r (At_store p) = (p < rg_head r \<and> seq_at r p = p)"
| "stage_ok r (At_publish p) = (p < rg_head r \<and> seq_at r p = p)"
| "stage_ok r (At_cas p) = (rg_tail r \<le> p \<longrightarrow> seq_at r p = Suc p)"
| "stage_ok r (At_take p) = (p < rg_tail r \<and> seq_at r p = Suc p \<and> payload_at r p \<noteq> None)"
| "stage_ok r (At_release p) = (p < rg_tail r \<and> seq_at r p = Suc p \<and> payload_at r p = None)"

text \<open>A slot is free for the position its sequence number names, holding a task only between the
  two stores of that position's producer, or filled by the position before it; a filled slot
  that nobody has claimed holds a task.\<close>

definition slot_ok :: "'t ring \<Rightarrow> stage multiset \<Rightarrow> nat \<Rightarrow> bool" where
  "slot_ok r fl p \<longleftrightarrow>
     seq_at r p = p \<and> rg_tail r \<le> p \<and> p < rg_tail r + ring_size r \<and> (payload_at r p \<noteq> None \<longleftrightarrow> At_publish p \<in># fl)
     \<or> seq_at r p = Suc p \<and> p < rg_head r \<and> p < rg_tail r + ring_size r \<and> rg_tail r \<le> p + ring_size r \<and> (rg_tail r \<le> p \<longrightarrow> payload_at r p \<noteq> None)"

definition ring_inv :: "'t ring \<Rightarrow> stage multiset \<Rightarrow> bool" where
  "ring_inv r fl \<longleftrightarrow> ring_wf r \<and> rg_tail r \<le> rg_head r \<and> (\<forall>st \<in># fl. stage_ok r st)
     \<and> (\<forall>p. count (producers fl) p \<le> 1) \<and> (\<forall>p. count (consumers fl) p \<le> 1)
     \<and> (\<forall>i < ring_size r. \<exists>p. ring_ix r p = i \<and> slot_ok r fl p)"

lemma fl_simps [simp]:
  "producers {#} = {#}" "producers (add_mset st fl) = producing st + producers fl"
  "consumers {#} = {#}" "consumers (add_mset st fl) = consuming st + consumers fl"
  by (simp_all add: producers_def consumers_def)

lemma producing_member: "st \<in># fl \<Longrightarrow> producing st \<subseteq># producers fl"
  by (metis fl_simps(2) insert_DiffM mset_subset_eq_add_left)

lemma consuming_member: "st \<in># fl \<Longrightarrow> consuming st \<subseteq># consumers fl"
  by (metis fl_simps(4) insert_DiffM mset_subset_eq_add_left)

lemma ring_inv_slot:
  assumes "ring_inv r fl"
  obtains q where "ring_ix r q = ring_ix r p" "slot_ok r fl q"
proof -
  have "ring_ix r p < ring_size r"
    using assms ring_ix_less [of r p] by (simp add: ring_inv_def ring_wf_def)
  with assms that show thesis by (auto simp: ring_inv_def)
qed

lemma slot_ok_same: "ring_ix r p = ring_ix r q \<Longrightarrow> seq_at r p = seq_at r q \<and> payload_at r p = payload_at r q"
  by (simp add: seq_at_def payload_at_def)

subsection \<open>Steps that leave the slots alone\<close>

lemma ring_inv_drop:
  assumes "ring_inv r (add_mset st fl)" and "\<And>p. st \<noteq> At_publish p"
  shows "ring_inv r fl"
proof -
  have "slot_ok r (add_mset st fl) p \<longleftrightarrow> slot_ok r fl p" for p
    using assms(2) by (auto simp: slot_ok_def)
  moreover have "count (producers fl) p \<le> count (producers (add_mset st fl)) p"
    "count (consumers fl) p \<le> count (consumers (add_mset st fl)) p" for p
    by simp_all
  ultimately show ?thesis
    using assms(1) unfolding ring_inv_def by (metis insertCI le_trans set_mset_add_mset_insert)
qed

lemma ring_inv_add:
  assumes "ring_inv r fl" and "stage_ok r st" and "\<And>p. st \<noteq> At_publish p"
    and "\<And>p. p \<in># producing st \<Longrightarrow> p \<notin># producers fl" and "\<And>p. p \<in># consuming st \<Longrightarrow> p \<notin># consumers fl"
  shows "ring_inv r (add_mset st fl)"
proof -
  have "slot_ok r (add_mset st fl) p \<longleftrightarrow> slot_ok r fl p" for p
    using assms(3) by (auto simp: slot_ok_def)
  moreover have "count (producers (add_mset st fl)) p \<le> 1" for p
    using assms(1,4) by (cases st) (auto simp: ring_inv_def not_in_iff)
  moreover have "count (consumers (add_mset st fl)) p \<le> 1" for p
    using assms(1,5) by (cases st) (auto simp: ring_inv_def not_in_iff)
  ultimately show ?thesis using assms(1,2) by (auto simp: ring_inv_def)
qed

lemma ring_reserve:
  assumes inv: "ring_inv r fl"
  shows "ring_inv (r\<lparr>rg_head := rg_head r + 1\<rparr>) (add_mset (At_wait (rg_head r)) fl)"
proof (rule ring_inv_add)
  have same: "seq_at (r\<lparr>rg_head := h\<rparr>) = seq_at r" "payload_at (r\<lparr>rg_head := h\<rparr>) = payload_at r"
    "ring_size (r\<lparr>rg_head := h\<rparr>) = ring_size r" "ring_ix (r\<lparr>rg_head := h\<rparr>) = ring_ix r"
    "ring_wf (r\<lparr>rg_head := h\<rparr>) = ring_wf r" for h
    by (simp_all add: seq_at_def payload_at_def ring_size_def ring_ix_def ring_wf_def fun_eq_iff)
  have "stage_ok r st \<Longrightarrow> stage_ok (r\<lparr>rg_head := rg_head r + 1\<rparr>) st" for st
    by (cases st) (auto simp: same)
  moreover have "slot_ok r fl p \<Longrightarrow> slot_ok (r\<lparr>rg_head := rg_head r + 1\<rparr>) fl p" for p
    by (auto simp: slot_ok_def same)
  moreover have "rg_tail r \<le> rg_head r" using inv by (simp add: ring_inv_def)
  then have "rg_tail (r\<lparr>rg_head := rg_head r + 1\<rparr>) \<le> rg_head (r\<lparr>rg_head := rg_head r + 1\<rparr>)" by simp
  ultimately show "ring_inv (r\<lparr>rg_head := rg_head r + 1\<rparr>) fl"
    using inv unfolding ring_inv_def same by blast
  show "p \<notin># producers fl" if "p \<in># producing (At_wait (rg_head r))" for p
  proof
    assume "p \<in># producers fl"
    then obtain st where "st \<in># fl" "p \<in># producing st" by (auto simp: producers_def)
    moreover from this inv have "stage_ok r st" by (simp add: ring_inv_def)
    ultimately have "p < rg_head r" by (cases st) auto
    with that show False by simp
  qed
qed simp_all

lemma ring_wait_done:
  assumes inv: "ring_inv r (add_mset (At_wait p) fl)" and "seq_at r p = p"
  shows "ring_inv r (add_mset (At_store p) fl)"
proof (rule ring_inv_add)
  show "ring_inv r fl" using inv by (rule ring_inv_drop) simp
  have "count (producers (add_mset (At_wait p) fl)) p \<le> 1" using inv unfolding ring_inv_def by blast
  then show "q \<notin># producers fl" if "q \<in># producing (At_store p)" for q
    using that by (simp add: not_in_iff)
qed (use assms in \<open>simp_all add: ring_inv_def\<close>)

lemma ring_claim_seen:
  assumes "ring_inv r fl" and "seq_at r p = Suc p"
  shows "ring_inv r (add_mset (At_cas p) fl)"
  by (rule ring_inv_add) (use assms in simp_all)

lemma ring_claim:
  assumes inv: "ring_inv r (add_mset (At_cas p) fl)" and tail: "rg_tail r = p"
  shows "ring_inv (r\<lparr>rg_tail := Suc p\<rparr>) (add_mset (At_take p) fl)"
proof (rule ring_inv_add)
  have same: "seq_at (r\<lparr>rg_tail := h\<rparr>) = seq_at r" "payload_at (r\<lparr>rg_tail := h\<rparr>) = payload_at r"
    "ring_size (r\<lparr>rg_tail := h\<rparr>) = ring_size r" "ring_ix (r\<lparr>rg_tail := h\<rparr>) = ring_ix r"
    "ring_wf (r\<lparr>rg_tail := h\<rparr>) = ring_wf r" for h
    by (simp_all add: seq_at_def payload_at_def ring_size_def ring_ix_def ring_wf_def fun_eq_iff)
  have base: "ring_inv r fl" using inv by (rule ring_inv_drop) simp
  have wf: "ring_wf r" using base by (simp add: ring_inv_def)
  have seq: "seq_at r p = Suc p" using inv tail by (simp add: ring_inv_def)
  have stages: "stage_ok (r\<lparr>rg_tail := Suc p\<rparr>) st" if "st \<in># fl" for st
    using base that tail by (cases st) (auto simp: ring_inv_def same)
  have slots: "slot_ok (r\<lparr>rg_tail := Suc p\<rparr>) fl q" if ok: "slot_ok r fl q" for q
  proof (cases "ring_ix r q = ring_ix r p")
    case True
    then have eq: "seq_at r q = Suc p" using slot_ok_same [OF True] seq by simp
    then have "q \<noteq> Suc p" using same_slot_neighbours [OF wf True [symmetric]] by simp
    with ok eq have "q = p" by (auto simp: slot_ok_def)
    with ok show ?thesis using ring_size_ge [OF wf] eq by (auto simp: slot_ok_def same tail)
  next
    case False
    then have "q \<noteq> p" "q + ring_size r \<noteq> p" using same_slot_next [of r q] by auto
    with ok show ?thesis by (auto simp: slot_ok_def same tail)
  qed
  obtain q where "ring_ix r q = ring_ix r p" "slot_ok r fl q" using base by (rule ring_inv_slot)
  moreover from this have "q = p"
    using same_slot_neighbours [OF wf, of p q] slot_ok_same [of r q p] seq by (auto simp: slot_ok_def)
  ultimately have "p < rg_head r" and full: "payload_at r p \<noteq> None"
    using seq tail by (auto simp: slot_ok_def)
  then have "rg_tail (r\<lparr>rg_tail := Suc p\<rparr>) \<le> rg_head (r\<lparr>rg_tail := Suc p\<rparr>)" by simp
  then show "ring_inv (r\<lparr>rg_tail := Suc p\<rparr>) fl"
    using base stages slots unfolding ring_inv_def same by blast
  from full seq show "stage_ok (r\<lparr>rg_tail := Suc p\<rparr>) (At_take p)" by (simp add: same)
  show "q \<notin># consumers fl" if "q \<in># consuming (At_take p)" for q
  proof
    assume "q \<in># consumers fl"
    then obtain st where "st \<in># fl" "q \<in># consuming st" by (auto simp: consumers_def)
    moreover from this base have "stage_ok r st" by (simp add: ring_inv_def)
    ultimately have "q < rg_tail r" by (cases st) auto
    with that tail show False by simp
  qed
qed simp_all


subsection \<open>Steps that write a slot\<close>

text \<open>Taking the thread out and putting it back at another stage, with one slot changed.\<close>

lemma ring_write:
  assumes inv: "ring_inv r (add_mset st fl)"
    and frame: "rg_tail r' = rg_tail r" "rg_head r' = rg_head r" "ring_size r' = ring_size r" "ring_ix r' = ring_ix r" "ring_wf r' = ring_wf r"
    and others: "\<And>q. ring_ix r q \<noteq> ring_ix r p \<Longrightarrow> slot_ok r (add_mset st fl) q \<Longrightarrow> slot_ok r' (add_mset st' fl) q"
    and slot: "\<exists>q. ring_ix r q = ring_ix r p \<and> slot_ok r' (add_mset st' fl) q"
    and stages: "\<And>st. st \<in># fl \<Longrightarrow> stage_ok r st \<Longrightarrow> stage_ok r' st" and own: "stage_ok r' st'"
    and pos: "producing st' \<subseteq># producing st" "consuming st' \<subseteq># consuming st"
  shows "ring_inv r' (add_mset st' fl)"
proof -
  have "count (producers (add_mset st' fl)) q \<le> count (producers (add_mset st fl)) q"
    "count (consumers (add_mset st' fl)) q \<le> count (consumers (add_mset st fl)) q" for q
    using pos by (simp_all add: mset_subset_eq_count)
  then have "\<forall>q. count (producers (add_mset st' fl)) q \<le> 1" "\<forall>q. count (consumers (add_mset st' fl)) q \<le> 1"
    using inv unfolding ring_inv_def by (meson le_trans)+
  moreover have "\<exists>q. ring_ix r q = i \<and> slot_ok r' (add_mset st' fl) q" if "i < ring_size r" for i
  proof (cases "i = ring_ix r p")
    case True
    with slot show ?thesis by simp
  next
    case False
    from inv that obtain q where "ring_ix r q = i" "slot_ok r (add_mset st fl) q"
      unfolding ring_inv_def by blast
    with others [of q] False show ?thesis by auto
  qed
  moreover have "stage_ok r' s" if "s \<in># add_mset st' fl" for s
    using that own stages inv by (auto simp: ring_inv_def)
  ultimately show ?thesis using inv unfolding ring_inv_def frame by blast
qed

lemma ring_store:
  assumes inv: "ring_inv r (add_mset (At_store p) fl)"
  shows "payload_at r p = None" and "ring_inv (store_payload r p (Some t)) (add_mset (At_publish p) fl)"
proof -
  have wf: "ring_wf r" and seq: "seq_at r p = p" and head: "p < rg_head r"
    using inv by (auto simp: ring_inv_def)
  note at = seq_at_store [OF wf]
  have alone: "p \<notin># producers fl"
  proof -
    have "count (producers (add_mset (At_store p) fl)) p \<le> 1" using inv unfolding ring_inv_def by blast
    then show ?thesis by (simp add: not_in_iff)
  qed
  have nopub: "At_publish p \<notin># fl" using alone producing_member [of "At_publish p" fl] by auto
  obtain q where q: "ring_ix r q = ring_ix r p" "slot_ok r (add_mset (At_store p) fl) q"
    using inv by (rule ring_inv_slot)
  then have "q = p"
    using same_slot_neighbours [OF wf q(1)] slot_ok_same [OF q(1)] seq by (auto simp: slot_ok_def)
  with q(2) have free: "payload_at r p = None" "rg_tail r \<le> p" "p < rg_tail r + ring_size r"
    using nopub seq by (auto simp: slot_ok_def)
  show "payload_at r p = None" by (rule free)
  show "ring_inv (store_payload r p (Some t)) (add_mset (At_publish p) fl)"
  proof (rule ring_write [OF inv, where p = p])
    show "slot_ok (store_payload r p (Some t)) (add_mset (At_publish p) fl) q"
      if "ring_ix r q \<noteq> ring_ix r p" "slot_ok r (add_mset (At_store p) fl) q" for q
      using that by (auto simp: slot_ok_def at)
    show "\<exists>q. ring_ix r q = ring_ix r p \<and> slot_ok (store_payload r p (Some t)) (add_mset (At_publish p) fl) q"
      using free seq head by (intro exI [of _ p]) (simp add: slot_ok_def at)
    show "stage_ok (store_payload r p (Some t)) st" if "st \<in># fl" "stage_ok r st" for st
    proof (cases st)
      case (At_release q)
      have "ring_ix r q \<noteq> ring_ix r p"
        using that At_release seq same_slot_neighbours [OF wf, of q p] slot_ok_same [of r q p] by auto
      with that At_release show ?thesis by (simp add: at)
    qed (use that in \<open>simp_all add: at\<close>)
    show "stage_ok (store_payload r p (Some t)) (At_publish p)" using seq head by (simp add: at)
  qed simp_all
qed

lemma ring_publish:
  assumes inv: "ring_inv r (add_mset (At_publish p) fl)"
  shows "ring_inv (store_seq r p (Suc p)) (add_mset (At_cas p) fl)"
proof -
  have wf: "ring_wf r" and seq: "seq_at r p = p" and head: "p < rg_head r"
    using inv by (auto simp: ring_inv_def)
  note at = seq_at_store [OF wf]
  have alone: "p \<notin># producers fl"
  proof -
    have "count (producers (add_mset (At_publish p) fl)) p \<le> 1" using inv unfolding ring_inv_def by blast
    then show ?thesis by (simp add: not_in_iff)
  qed
  obtain q where q: "ring_ix r q = ring_ix r p" "slot_ok r (add_mset (At_publish p) fl) q"
    using inv by (rule ring_inv_slot)
  then have "q = p"
    using same_slot_neighbours [OF wf q(1)] slot_ok_same [OF q(1)] seq by (auto simp: slot_ok_def)
  with q(2) have full: "payload_at r p \<noteq> None" "rg_tail r \<le> p" "p < rg_tail r + ring_size r"
    using seq by (auto simp: slot_ok_def)
  show ?thesis
  proof (rule ring_write [OF inv, where p = p])
    show "slot_ok (store_seq r p (Suc p)) (add_mset (At_cas p) fl) q"
      if "ring_ix r q \<noteq> ring_ix r p" "slot_ok r (add_mset (At_publish p) fl) q" for q
      using that by (auto simp: slot_ok_def at)
    show "\<exists>q. ring_ix r q = ring_ix r p \<and> slot_ok (store_seq r p (Suc p)) (add_mset (At_cas p) fl) q"
      using full head by (intro exI [of _ p]) (simp add: slot_ok_def at)
    show "stage_ok (store_seq r p (Suc p)) st" if st: "st \<in># fl" "stage_ok r st" for st
    proof -
      have apart: "ring_ix r q \<noteq> ring_ix r p" if "seq_at r q = q" "q \<noteq> p" for q
        using that seq slot_ok_same [of r q p] by auto
      have apart': "ring_ix r q \<noteq> ring_ix r p" if "seq_at r q = Suc q" for q
        using that seq slot_ok_same [of r q p] same_slot_neighbours [OF wf, of q p] by auto
      have other: "q \<noteq> p" if "st = At_store q \<or> st = At_publish q" for q
        using that st(1) alone producing_member [OF st(1)] by auto
      show ?thesis
        using st(2) other apart apart' by (cases st) (auto simp: at)
    qed
    show "stage_ok (store_seq r p (Suc p)) (At_cas p)" by (simp add: at)
  qed simp_all
qed

lemma ring_take:
  assumes inv: "ring_inv r (add_mset (At_take p) fl)"
  shows "payload_at r p \<noteq> None" and "ring_inv (store_payload r p None) (add_mset (At_release p) fl)"
proof -
  have wf: "ring_wf r" and own: "seq_at r p = Suc p" "p < rg_tail r" "payload_at r p \<noteq> None"
    using inv by (auto simp: ring_inv_def)
  note at = seq_at_store [OF wf]
  show "payload_at r p \<noteq> None" by (rule own)
  have alone: "p \<notin># consumers fl"
  proof -
    have "count (consumers (add_mset (At_take p) fl)) p \<le> 1" using inv unfolding ring_inv_def by blast
    then show ?thesis by (simp add: not_in_iff)
  qed
  obtain q where q: "ring_ix r q = ring_ix r p" "slot_ok r (add_mset (At_take p) fl) q"
    using inv by (rule ring_inv_slot)
  then have "q = p"
    using same_slot_neighbours [OF wf q(1) [symmetric]] slot_ok_same [OF q(1)] own by (auto simp: slot_ok_def)
  with q(2) have room: "rg_tail r \<le> p + ring_size r" "p < rg_head r" "p < rg_tail r + ring_size r" using own by (auto simp: slot_ok_def)
  show "ring_inv (store_payload r p None) (add_mset (At_release p) fl)"
  proof (rule ring_write [OF inv, where p = p])
    show "slot_ok (store_payload r p None) (add_mset (At_release p) fl) q"
      if "ring_ix r q \<noteq> ring_ix r p" "slot_ok r (add_mset (At_take p) fl) q" for q
      using that by (auto simp: slot_ok_def at)
    show "\<exists>q. ring_ix r q = ring_ix r p \<and> slot_ok (store_payload r p None) (add_mset (At_release p) fl) q"
      using room own by (intro exI [of _ p]) (simp add: slot_ok_def at)
    show "stage_ok (store_payload r p None) st" if st: "st \<in># fl" "stage_ok r st" for st
    proof (cases st)
      case (At_take q)
      have "q \<noteq> p" using st(1) At_take alone consuming_member [OF st(1)] by auto
      then have "ring_ix r q \<noteq> ring_ix r p"
        using st(2) At_take own slot_ok_same [of r q p] by auto
      with st At_take show ?thesis by (simp add: at)
    qed (use st in \<open>simp_all add: at\<close>)
    show "stage_ok (store_payload r p None) (At_release p)" using own by (simp add: at)
  qed simp_all
qed

lemma ring_release:
  assumes inv: "ring_inv r (add_mset (At_release p) fl)"
  shows "ring_inv (store_seq r p (p + ring_size r)) fl"
proof -
  have wf: "ring_wf r" and own: "seq_at r p = Suc p" "p < rg_tail r" "payload_at r p = None"
    using inv by (auto simp: ring_inv_def)
  note at = seq_at_store [OF wf]
  have alone: "p \<notin># consumers fl"
  proof -
    have "count (consumers (add_mset (At_release p) fl)) p \<le> 1" using inv unfolding ring_inv_def by blast
    then show ?thesis by (simp add: not_in_iff)
  qed
  obtain q where q: "ring_ix r q = ring_ix r p" "slot_ok r (add_mset (At_release p) fl) q"
    using inv by (rule ring_inv_slot)
  then have "q = p"
    using same_slot_neighbours [OF wf q(1) [symmetric]] slot_ok_same [OF q(1)] own by (auto simp: slot_ok_def)
  with q(2) have room: "rg_tail r \<le> p + ring_size r" "p < rg_head r" "p < rg_tail r + ring_size r" using own by (auto simp: slot_ok_def)
  let ?r = "store_seq r p (p + ring_size r)"
  have apart: "ring_ix r q \<noteq> ring_ix r p" if "seq_at r q = Suc q" "q \<noteq> p" for q
    using that own slot_ok_same [of r q p] by auto
  have apart': "ring_ix r q \<noteq> ring_ix r p" if "seq_at r q = q" for q
    using that own slot_ok_same [of r q p] same_slot_neighbours [OF wf, of p q] by auto
  have stages: "stage_ok ?r st" if st: "st \<in># fl" "stage_ok r st" for st
  proof (cases st)
    case (At_take q)
    have "q \<noteq> p" using st(1) At_take alone consuming_member [OF st(1)] by auto
    with st At_take apart show ?thesis by (simp add: at)
  next
    case (At_release q)
    have "q \<noteq> p" using st(1) At_release alone consuming_member [OF st(1)] by auto
    with st At_release apart show ?thesis by (simp add: at)
  next
    case (At_cas q)
    then show ?thesis using st own apart by (cases "q = p") (auto simp: at)
  qed (use st apart' in \<open>auto simp: at\<close>)
  have "\<exists>q. ring_ix ?r q = i \<and> slot_ok ?r fl q" if i: "i < ring_size ?r" for i
  proof (cases "i = ring_ix r p")
    case True
    have "At_publish (p + ring_size r) \<notin># fl"
    proof
      assume "At_publish (p + ring_size r) \<in># fl"
      then have "seq_at r (p + ring_size r) = p + ring_size r" using inv by (auto simp: ring_inv_def)
      with apart' same_slot_next [of r p] show False by blast
    qed
    then show ?thesis
      using True room own same_slot_next [of r p] slot_ok_same [OF same_slot_next [of r p]]
      by (intro exI [of _ "p + ring_size r"]) (simp add: slot_ok_def at)
  next
    case False
    from inv i obtain q where "ring_ix r q = i" "slot_ok r (add_mset (At_release p) fl) q"
      unfolding ring_inv_def by auto
    with False show ?thesis by (intro exI [of _ q]) (auto simp: slot_ok_def at)
  qed
  moreover have "count (consumers fl) q \<le> 1" for q
    using inv unfolding ring_inv_def by (metis fl_simps(4) count_union le_add2 le_trans)
  ultimately show ?thesis
    using inv stages by (auto simp: ring_inv_def)
qed

lemma ring_inv_new:
  assumes "1 \<le> k"
  shows "ring_inv (ring_new k :: 't ring) {#}"
proof -
  let ?r = "ring_new k :: 't ring"
  have at: "seq_at ?r i = i" "payload_at ?r i = None" "ring_ix ?r i = i" if "i < 2 ^ k" for i
    using that by (simp_all add: seq_at_def payload_at_def idx_simps) (simp_all add: ring_new_def ring_size_def)
  have tail: "rg_tail ?r = 0" "rg_head ?r = 0" "ring_size ?r = 2 ^ k" by (simp_all add: ring_new_def ring_size_def)
  have "\<exists>p. ring_ix ?r p = i \<and> slot_ok ?r {#} p" if "i < 2 ^ k" for i
    using that at [OF that] by (intro exI [of _ i] conjI) (simp_all add: slot_ok_def tail)
  then show ?thesis
    using assms by (simp add: ring_inv_def ring_wf_def ring_size_def) (simp add: ring_new_def)
qed

section \<open>Every step follows the protocol and keeps the tasks\<close>

fun enq_stage :: "'t enq \<Rightarrow> stage multiset" where
  "enq_stage (E_wait t p) = {#At_wait p#}"
| "enq_stage (E_store t p) = {#At_store p#}"
| "enq_stage (E_publish p) = {#At_publish p#}"
| "enq_stage e = {#}"

fun enq_held :: "'t enq \<Rightarrow> 't multiset" where
  "enq_held (E_reserve t) = {#t#}"
| "enq_held (E_wait t p) = {#t#}"
| "enq_held (E_store t p) = {#t#}"
| "enq_held e = {#}"

fun deq_stage :: "'t deq \<Rightarrow> stage multiset" where
  "deq_stage (C_cas p) = {#At_cas p#}"
| "deq_stage (C_take p) = {#At_take p#}"
| "deq_stage (C_release p raw) = {#At_release p#}"
| "deq_stage c = {#}"

fun opt_mset :: "'t option \<Rightarrow> 't multiset" where
  "opt_mset None = {#}"
| "opt_mset (Some t) = {#t#}"

fun deq_held :: "'t deq \<Rightarrow> 't multiset" where
  "deq_held (C_release p raw) = opt_mset raw"
| "deq_held (C_done raw) = opt_mset raw"
| "deq_held c = {#}"

definition ring_tasks :: "'t ring \<Rightarrow> 't multiset" where
  "ring_tasks r = sum_over (\<lambda>sl. opt_mset (sl_payload sl)) (rg_slots r)"

lemma ring_tasks_head_tail [simp]:
  "ring_tasks (r\<lparr>rg_head := h\<rparr>) = ring_tasks r" "ring_tasks (r\<lparr>rg_tail := h\<rparr>) = ring_tasks r"
  by (simp_all add: ring_tasks_def)

lemma ring_tasks_store_seq [simp]: "ring_wf r \<Longrightarrow> ring_tasks (store_seq r p v) = ring_tasks r"
  using ring_ix_less [of r p]
  by (simp add: ring_tasks_def store_seq_def set_slot_def sum_over_update_same)

lemma ring_tasks_store_payload:
  "ring_wf r \<Longrightarrow> ring_tasks (store_payload r p v) + opt_mset (payload_at r p) = ring_tasks r + opt_mset v"
  unfolding ring_tasks_def store_payload_def set_slot_def
  using ring_ix_less [of r p] by (auto simp: payload_at_def intro!: sum_over_exchange)

lemma enq_step_ok:
  assumes inv: "ring_inv r (enq_stage e + fl)" and step: "enq_step r e = (r', e')"
  shows "ring_inv r' (enq_stage e' + fl)" and "ring_tasks r' + enq_held e' = ring_tasks r + enq_held e"
    and "rg_k r' = rg_k r"
proof -
  have wf: "ring_wf r" using inv by (simp add: ring_inv_def)
  show "ring_inv r' (enq_stage e' + fl)"
  proof (cases e)
    case (E_reserve t)
    with step inv ring_reserve show ?thesis by fastforce
  next
    case (E_wait t p)
    with step inv ring_wait_done show ?thesis by (fastforce split: if_splits)
  next
    case (E_store t p)
    with step inv ring_store(2) [of r p fl t] show ?thesis by auto
  next
    case (E_publish p)
    then have "ring_inv (store_seq r p (Suc p)) (add_mset (At_cas p) fl)"
      using inv by (intro ring_publish) simp
    then have "ring_inv (store_seq r p (Suc p)) fl" by (rule ring_inv_drop) simp
    with E_publish step show ?thesis by auto
  qed (use step inv in auto)
  show "ring_tasks r' + enq_held e' = ring_tasks r + enq_held e"
  proof (cases e)
    case (E_store t p)
    then have "payload_at r p = None" using inv ring_store(1) [of r p fl] by simp
    with E_store step ring_tasks_store_payload [OF wf, of p "Some t"] show ?thesis by auto
  qed (use step wf in auto)
  show "rg_k r' = rg_k r" using step by (cases e) auto
qed

lemma deq_step_ok:
  assumes inv: "ring_inv r (deq_stage c + fl)" and step: "deq_step b r c = (r', c')"
  shows "ring_inv r' (deq_stage c' + fl)" and "ring_tasks r' + deq_held c' = ring_tasks r + deq_held c"
    and "rg_k r' = rg_k r" and "rg_head r' = rg_head r"
    and "\<And>p. c' = C_release p None \<Longrightarrow> False"
proof -
  have wf: "ring_wf r" using inv by (simp add: ring_inv_def)
  show "ring_inv r' (deq_stage c' + fl)"
  proof (cases c)
    case (C_seq p)
    then have "ring_inv r fl" using inv by simp
    then have "seq_at r p = Suc p \<Longrightarrow> ring_inv r (add_mset (At_cas p) fl)" by (rule ring_claim_seen)
    with C_seq step inv show ?thesis by (auto simp: Let_def split: if_splits)
  next
    case (C_cas p)
    have "ring_inv r fl" using inv C_cas by (intro ring_inv_drop [of r "At_cas p" fl]) simp_all
    with C_cas step inv ring_claim [of r p fl] show ?thesis by (auto split: if_splits)
  next
    case (C_take p)
    with step inv ring_take(2) [of r p fl] show ?thesis by auto
  next
    case (C_release p raw)
    with step inv ring_release [of r p fl] show ?thesis by auto
  qed (use step inv in auto)
  show "ring_tasks r' + deq_held c' = ring_tasks r + deq_held c"
  proof (cases c)
    case (C_take p)
    with step ring_tasks_store_payload [OF wf, of p None] show ?thesis by auto
  qed (use step wf in \<open>auto simp: Let_def split: if_splits\<close>)
  show "rg_k r' = rg_k r" "rg_head r' = rg_head r"
    using step by (cases c; auto simp: Let_def split: if_splits)+
  show False if "c' = C_release p None" for p
    using that step inv ring_take(1) [of r p fl] by (cases c) (auto simp: Let_def split: if_splits)
qed

text \<open>The sequence numbers stay within a ring of the number of reservations.\<close>

lemma ring_seq_bound:
  assumes "ring_inv r fl"
  shows "seq_at r p < rg_head r + ring_size r" and "rg_tail r \<le> rg_head r"
proof -
  obtain q where "ring_ix r q = ring_ix r p" "slot_ok r fl q" using assms by (rule ring_inv_slot)
  then show "seq_at r p < rg_head r + ring_size r"
    using slot_ok_same [of r q p] ring_size_ge [of r] assms by (auto simp: slot_ok_def ring_inv_def)
  show "rg_tail r \<le> rg_head r" using assms by (simp add: ring_inv_def)
qed

section \<open>Consequences of the protocol\<close>

lemma same_slot_far:
  assumes "ring_ix r q = ring_ix r p" and "p < q"
  shows "p + ring_size r \<le> q"
proof -
  have "ring_size r dvd q - p"
    using assms by (metis idx_simps less_imp_le mod_eq_dvd_iff_nat)
  then have "ring_size r \<le> q - p" using assms(2) by (auto intro: dvd_imp_le)
  with assms(2) show ?thesis by simp
qed

text \<open>A sequence number beyond the expected one means that the position was claimed long ago.\<close>

lemma ring_stale:
  assumes inv: "ring_inv r fl" and late: "Suc p < seq_at r p"
  shows "p < rg_tail r"
proof -
  obtain q where q: "ring_ix r q = ring_ix r p" "slot_ok r fl q" using inv by (rule ring_inv_slot)
  then have "p < q" "q < rg_tail r + ring_size r"
    using late slot_ok_same [OF q(1)] by (auto simp: slot_ok_def)
  with same_slot_far [OF q(1)] show ?thesis by simp
qed

text \<open>The threads that access a slot's payload or write its sequence number.\<close>

fun exclusive :: "stage \<Rightarrow> nat option" where
  "exclusive (At_store p) = Some p"
| "exclusive (At_publish p) = Some p"
| "exclusive (At_take p) = Some p"
| "exclusive (At_release p) = Some p"
| "exclusive st = None"

lemma ring_exclusive:
  assumes inv: "ring_inv r (add_mset st (add_mset st' fl))"
    and "exclusive st = Some p" "exclusive st' = Some q"
  shows "ring_ix r p \<noteq> ring_ix r q"
proof
  assume same: "ring_ix r p = ring_ix r q"
  have wf: "ring_wf r" and ok: "stage_ok r st" "stage_ok r st'" using inv by (auto simp: ring_inv_def)
  have seq: "seq_at r p = seq_at r q" using slot_ok_same [OF same] by simp
  have near: "p \<noteq> Suc q" "q \<noteq> Suc p"
    using same_slot_neighbours [OF wf same] same_slot_neighbours [OF wf same [symmetric]] by auto
  have "count (producing st + (producing st' + producers fl)) p \<le> 1"
    "count (consuming st + (consuming st' + consumers fl)) p \<le> 1"
    using inv unfolding ring_inv_def by (metis fl_simps(2,4))+
  with assms(2,3) ok seq near show False
    by (cases st; cases st') auto
qed

section \<open>The ring without interference\<close>

text \<open>An operation that nobody interrupts, given enough steps.\<close>

fun enq_solo :: "nat \<Rightarrow> 't ring \<Rightarrow> 't enq \<Rightarrow> 't ring \<times> 't enq" where
  "enq_solo 0 r e = (r, e)"
| "enq_solo (Suc n) r e = (let (r', e') = enq_step r e in enq_solo n r' e')"

fun deq_solo :: "nat \<Rightarrow> 't ring \<Rightarrow> 't deq \<Rightarrow> 't ring \<times> 't deq" where
  "deq_solo 0 r c = (r, c)"
| "deq_solo (Suc n) r c = (let (r', c') = deq_step False r c in deq_solo n r' c')"

definition ring_enqueue :: "'t ring \<Rightarrow> 't \<Rightarrow> 't ring \<times> 't enq" where
  "ring_enqueue r t = enq_solo 4 r (E_reserve t)"

definition ring_dequeue :: "'t ring \<Rightarrow> 't ring \<times> 't deq" where
  "ring_dequeue r = deq_solo 5 r C_load"

text \<open>The destructor's loop: dequeue until null. Its fuel is the number of positions reserved
  and not yet claimed, and one more.\<close>

fun ring_drain :: "nat \<Rightarrow> 't ring \<Rightarrow> 't list" where
  "ring_drain 0 r = []"
| "ring_drain (Suc n) r = (case ring_dequeue r of
       (r', C_done (Some t)) \<Rightarrow> t # ring_drain n r'
     | (r', _) \<Rightarrow> [])"

definition ring_destroy :: "'t ring \<Rightarrow> 't list" where
  "ring_destroy r = ring_drain (Suc (rg_head r - rg_tail r)) r"

text \<open>A ring nobody is working on holds a list of tasks.\<close>

definition ring_holds :: "'t ring \<Rightarrow> 't list \<Rightarrow> bool" where
  "ring_holds r xs \<longleftrightarrow> ring_wf r \<and> rg_head r = rg_tail r + length xs \<and> length xs \<le> ring_size r
     \<and> (\<forall>i < length xs. seq_at r (rg_tail r + i) = Suc (rg_tail r + i) \<and> payload_at r (rg_tail r + i) = Some (xs ! i))
     \<and> (\<forall>i < ring_size r. length xs \<le> i \<longrightarrow> seq_at r (rg_tail r + i) = rg_tail r + i)"

lemma close_slots:
  assumes "ring_ix r (a + i) = ring_ix r (a + j)" and "i < ring_size r" and "j < ring_size r"
  shows "i = j"
  using assms same_slot_far [of r "a + i" "a + j"] same_slot_far [of r "a + j" "a + i"]
  by (metis add_less_cancel_left add_lessD1 linorder_neqE_nat nat_add_left_cancel_less not_add_less2
      add.assoc add_le_cancel_left not_le trans_less_add2)


lemma cursor_fields [simp]:
  "seq_at (r\<lparr>rg_head := h\<rparr>) = seq_at r" "payload_at (r\<lparr>rg_head := h\<rparr>) = payload_at r"
  "ring_size (r\<lparr>rg_head := h\<rparr>) = ring_size r" "ring_ix (r\<lparr>rg_head := h\<rparr>) = ring_ix r"
  "ring_wf (r\<lparr>rg_head := h\<rparr>) = ring_wf r"
  "seq_at (r\<lparr>rg_tail := h\<rparr>) = seq_at r" "payload_at (r\<lparr>rg_tail := h\<rparr>) = payload_at r"
  "ring_size (r\<lparr>rg_tail := h\<rparr>) = ring_size r" "ring_ix (r\<lparr>rg_tail := h\<rparr>) = ring_ix r"
  "ring_wf (r\<lparr>rg_tail := h\<rparr>) = ring_wf r"
  by (simp_all add: seq_at_def payload_at_def ring_size_def ring_ix_def ring_wf_def fun_eq_iff)

lemma ring_holds_new: "1 \<le> k \<Longrightarrow> ring_holds (ring_new k) []"
  by (simp add: ring_holds_def ring_wf_def seq_at_def idx_simps) (simp add: ring_new_def ring_size_def)

lemma enqueue_room:
  assumes holds: "ring_holds r xs" and room: "length xs < ring_size r"
  shows "snd (ring_enqueue r t) = E_done \<and> ring_holds (fst (ring_enqueue r t)) (xs @ [t])"
proof -
  let ?h = "rg_tail r + length xs"
  let ?r = "store_seq (store_payload (r\<lparr>rg_head := Suc ?h\<rparr>) ?h (Some t)) ?h (Suc ?h)"
  have wf: "ring_wf r" and head: "rg_head r = ?h" and free: "seq_at r ?h = ?h"
    using holds room by (auto simp: ring_holds_def)
  have run: "ring_enqueue r t = (?r, E_done)"
    by (simp add: ring_enqueue_def numeral_eq_Suc head free)
  have at: "seq_at ?r q = (if ring_ix r q = ring_ix r ?h then Suc ?h else seq_at r q)"
    "payload_at ?r q = (if ring_ix r q = ring_ix r ?h then Some t else payload_at r q)" for q
    by (simp_all add: seq_at_store wf)
  have slot: "ring_ix r (rg_tail r + i) = ring_ix r ?h \<longleftrightarrow> i = length xs" if "i < ring_size r" for i
    using close_slots [of r "rg_tail r" i "length xs"] that room by auto
  have "ring_holds ?r (xs @ [t])"
    using holds room slot by (auto simp: ring_holds_def at nth_append less_Suc_eq)
  then show ?thesis by (simp add: run)
qed

lemma enqueue_full:
  assumes holds: "ring_holds r xs" and full: "length xs = ring_size r"
  shows "snd (enq_solo n r (E_reserve t)) \<noteq> E_done"
proof -
  let ?h = "rg_tail r + ring_size r"
  have wf: "ring_wf r" and head: "rg_head r = ?h" using holds full by (auto simp: ring_holds_def)
  have "0 < length xs" using full ring_size_ge [OF wf] by simp
  then have "seq_at r (rg_tail r + 0) = Suc (rg_tail r + 0)"
    using holds unfolding ring_holds_def by blast
  then have "seq_at r ?h = Suc (rg_tail r)"
    using slot_ok_same [OF same_slot_next [of r "rg_tail r"]] by simp
  then have busy: "seq_at r ?h \<noteq> ?h" using ring_size_ge [OF wf] by simp
  have "enq_solo m (r\<lparr>rg_head := Suc ?h\<rparr>) (E_wait t ?h) = (r\<lparr>rg_head := Suc ?h\<rparr>, E_wait t ?h)" for m
    by (induction m) (simp_all add: busy)
  then show ?thesis by (cases n) (simp_all add: head)
qed

lemma dequeue_some:
  assumes holds: "ring_holds r (x # xs)"
  shows "snd (ring_dequeue r) = C_done (Some x) \<and> ring_holds (fst (ring_dequeue r)) xs"
proof -
  let ?t = "rg_tail r"
  let ?r = "store_seq (store_payload (r\<lparr>rg_tail := Suc ?t\<rparr>) ?t None) ?t (?t + ring_size r)"
  have wf: "ring_wf r" using holds by (simp add: ring_holds_def)
  have "seq_at r (?t + 0) = Suc (?t + 0) \<and> payload_at r (?t + 0) = Some ((x # xs) ! 0)"
    using holds unfolding ring_holds_def by (metis length_greater_0_conv list.distinct(1))
  then have first: "seq_at r ?t = Suc ?t" "payload_at r ?t = Some x" by simp_all
  have run: "ring_dequeue r = (?r, C_done (Some x))"
    by (simp add: ring_dequeue_def numeral_eq_Suc first Let_def)
  have at: "seq_at ?r q = (if ring_ix r q = ring_ix r ?t then ?t + ring_size r else seq_at r q)"
    "payload_at ?r q = (if ring_ix r q = ring_ix r ?t then None else payload_at r q)" for q
    by (simp_all add: seq_at_store wf)
  have slot: "ring_ix r (?t + i) \<noteq> ring_ix r ?t" if "0 < i" "i < ring_size r" for i
    using close_slots [of r ?t i 0] that by auto
  have len: "Suc (length xs) \<le> ring_size r" "rg_head r = Suc (?t + length xs)" using holds by (auto simp: ring_holds_def)
  have filled: "seq_at ?r (Suc ?t + i) = Suc (Suc ?t + i) \<and> payload_at ?r (Suc ?t + i) = Some (xs ! i)"
    if "i < length xs" for i
  proof -
    have "seq_at r (?t + Suc i) = Suc (?t + Suc i) \<and> payload_at r (?t + Suc i) = Some ((x # xs) ! Suc i)"
      using holds that unfolding ring_holds_def by (metis Suc_less_eq length_Cons)
    then show ?thesis using slot [of "Suc i"] that len by (simp add: at)
  qed
  have empty: "seq_at ?r (Suc ?t + i) = Suc ?t + i" if "i < ring_size r" "length xs \<le> i" for i
  proof (cases "Suc i = ring_size r")
    case True
    then have "Suc ?t + i = ?t + ring_size r" by simp
    then show ?thesis using same_slot_next [of r ?t] by (simp only: at if_True) simp
  next
    case False
    then have "seq_at r (?t + Suc i) = ?t + Suc i"
      using holds that unfolding ring_holds_def by (metis Suc_le_mono Suc_lessI length_Cons)
    then show ?thesis using slot [of "Suc i"] that False by (simp add: at)
  qed
  have "ring_holds ?r xs"
    unfolding ring_holds_def using filled empty len wf by simp
  then show ?thesis by (simp add: run)
qed

lemma dequeue_none:
  assumes holds: "ring_holds r []"
  shows "ring_dequeue r = (r, C_done None)"
proof -
  have "seq_at r (rg_tail r + 0) = rg_tail r + 0"
    using holds ring_size_ge [of r] unfolding ring_holds_def by (metis le_zero_eq list.size(3) not_numeral_le_zero not_gr_zero order_refl)
  then show ?thesis by (simp add: ring_dequeue_def numeral_eq_Suc Let_def)
qed

lemma drain_all: "ring_holds r xs \<Longrightarrow> length xs < n \<Longrightarrow> ring_drain n r = xs"
proof (induction xs arbitrary: r n)
  case Nil
  then show ?case by (cases n) (simp_all add: dequeue_none)
next
  case (Cons x xs)
  then obtain m where n: "n = Suc m" by (cases n) auto
  obtain r' where r': "ring_dequeue r = (r', C_done (Some x))" "ring_holds r' xs"
    using dequeue_some [OF Cons.prems(1)] by (metis prod.collapse)
  then show ?case using Cons n by simp
qed

text \<open>C36. Without interference the ring is a bounded first-in-first-out queue: \<open>enqueue\<close> appends
  while there is room, in four steps, and on a full ring spins for ever; \<open>dequeue\<close> removes
  the oldest task, or returns null on an empty ring, in five steps; and the destructor's loop
  drains exactly the tasks left.\<close>

theorem ring_sequential_fifo:
  assumes "ring_holds r xs"
  shows "(length xs < ring_size r \<longrightarrow>
      snd (ring_enqueue r t) = E_done \<and> ring_holds (fst (ring_enqueue r t)) (xs @ [t]))
    \<and> (length xs = ring_size r \<longrightarrow> (\<forall>n. snd (enq_solo n r (E_reserve t)) \<noteq> E_done))
    \<and> (case xs of [] \<Rightarrow> ring_dequeue r = (r, C_done None)
       | x # ys \<Rightarrow> snd (ring_dequeue r) = C_done (Some x) \<and> ring_holds (fst (ring_dequeue r)) ys)
    \<and> ring_destroy r = xs"
proof -
  have "rg_head r - rg_tail r = length xs" using assms by (simp add: ring_holds_def)
  then have "ring_destroy r = xs" unfolding ring_destroy_def by (intro drain_all [OF assms]) simp
  moreover have "case xs of [] \<Rightarrow> ring_dequeue r = (r, C_done None)
       | x # ys \<Rightarrow> snd (ring_dequeue r) = C_done (Some x) \<and> ring_holds (fst (ring_dequeue r)) ys"
  proof (cases xs)
    case Nil
    with assms dequeue_none [of r] show ?thesis by simp
  next
    case (Cons x ys)
    with assms dequeue_some [of r x ys] show ?thesis by simp
  qed
  ultimately show ?thesis
    using enqueue_room [OF assms, of t] enqueue_full [OF assms, of _ t] by blast
qed

theorem ring_sequential_fifo_witness:
  "ring_destroy (fst (ring_enqueue (fst (ring_enqueue (ring_new 2) (5::nat))) 6)) = [5, 6]
   \<and> ring_dequeue (ring_new 2 :: nat ring) = (ring_new 2, C_done None)"
proof -
  have new: "ring_holds (ring_new 2 :: nat ring) []" by (rule ring_holds_new) simp
  have size: "ring_size (ring_new 2 :: nat ring) = 4" by (simp add: ring_new_def ring_size_def)
  have one: "ring_holds (fst (ring_enqueue (ring_new 2) (5::nat))) [5]"
    using ring_sequential_fifo [OF new, of 5] size by simp
  have "ring_size (fst (ring_enqueue (ring_new 2) (5::nat))) = 4" by code_simp
  then have "ring_holds (fst (ring_enqueue (fst (ring_enqueue (ring_new 2) (5::nat))) 6)) [5, 6]"
    using ring_sequential_fifo [OF one, of 6] by simp
  from ring_sequential_fifo [OF this] ring_sequential_fifo [OF new] show ?thesis by simp
qed

end
