(* ===== verification/Lockfree_Queue.thy ===== *)
theory Lockfree_Queue
  imports Ring_Queue Scheduler
begin

text \<open>
  \<^verbatim>\<open>class LockFreeQueueScheduler\<close> of \<^verbatim>\<open>include/lockfree_queue_scheduler.hpp\<close> on top of the ring
  of \<open>Ring_Queue\<close>: \<open>submit\<close>, \<open>run\<close> and \<open>worker_loop\<close>, one access to a shared variable per
  step. Waiting loops (\<^verbatim>\<open>yield\<close>) are steps that leave the state as it is.
\<close>

section \<open>State\<close>

datatype 't lsub = L_add 't | L_enq "'t enq"

datatype 't lworker =
    L_deq "'t deq"
  | L_run 't
  | L_submit 't "'t lsub"
  | L_dec                   \<comment> \<open>\<^verbatim>\<open>pending_.fetch_sub\<close>\<close>
  | L_check                 \<comment> \<open>no task: \<^verbatim>\<open>shutdown_.load\<close>\<close>
  | L_exit

datatype 't lmain =
    N_idle | N_submit "'t lsub" | N_clear | N_spawn | N_wait | N_shut | N_join

record 't lf =
  lf_ring :: "'t ring"
  lf_pending :: int
  lf_shutdown :: bool
  lf_n :: nat
  lf_main :: "'t lmain"
  lf_workers :: "'t lworker list"

definition lf_init :: "nat \<Rightarrow> 't lf" where
  "lf_init k = \<lparr>lf_ring = ring_new k, lf_pending = 0, lf_shutdown = False, lf_n = 0,
     lf_main = N_idle, lf_workers = []\<rparr>"

section \<open>Steps\<close>

fun lf_submit_step :: "'t lf \<Rightarrow> 't lsub \<Rightarrow> ('t lf \<times> 't lsub) option" where
  "lf_submit_step s (L_add t) = Some (s\<lparr>lf_pending := lf_pending s + 1\<rparr>, L_enq (E_reserve t))"
| "lf_submit_step s (L_enq E_done) = None"
| "lf_submit_step s (L_enq e) = (let (r, e') = enq_step (lf_ring s) e in Some (s\<lparr>lf_ring := r\<rparr>, L_enq e'))"

fun lf_worker_step :: "bool \<Rightarrow> 't lf \<Rightarrow> 't lworker \<Rightarrow> ('t lf \<times> 't lworker) option" where
  "lf_worker_step b s (L_deq (C_done (Some t))) = None"
| "lf_worker_step b s (L_deq (C_done None)) = Some (s, L_check)"
| "lf_worker_step b s (L_deq c) = (let (r, c') = deq_step b (lf_ring s) c in Some (s\<lparr>lf_ring := r\<rparr>, L_deq c'))"
| "lf_worker_step b s (L_submit t p) =
     (case lf_submit_step s p of None \<Rightarrow> None | Some (s', p') \<Rightarrow> Some (s', L_submit t p'))"
| "lf_worker_step b s L_dec = Some (s\<lparr>lf_pending := lf_pending s - 1\<rparr>, L_deq C_load)"
| "lf_worker_step b s L_check = Some (s, if lf_shutdown s then L_exit else L_deq C_load)"
| "lf_worker_step b s pc = None"

fun lf_main_step :: "'t lf \<Rightarrow> 't lmain \<Rightarrow> ('t lf \<times> 't lmain) option" where
  "lf_main_step s (N_submit p) =
     (case lf_submit_step s p of None \<Rightarrow> None | Some (s', p') \<Rightarrow> Some (s', N_submit p'))"
| "lf_main_step s N_clear = Some (s\<lparr>lf_shutdown := False\<rparr>, N_spawn)"
| "lf_main_step s N_spawn =
     (if length (lf_workers s) < lf_n s
      then Some (s\<lparr>lf_workers := lf_workers s @ [L_deq C_load]\<rparr>, N_spawn) else Some (s, N_wait))"
| "lf_main_step s N_wait = Some (s, if lf_pending s > 0 then N_wait else N_shut)"
| "lf_main_step s N_shut = Some (s\<lparr>lf_shutdown := True\<rparr>, N_join)"
| "lf_main_step s pc = None"

definition lf_set :: "'t lf \<Rightarrow> nat \<Rightarrow> 't lworker \<Rightarrow> 't lf" where
  "lf_set s w pc = s\<lparr>lf_workers := (lf_workers s)[w := pc]\<rparr>"

definition lf_at :: "'t lf \<Rightarrow> nat \<Rightarrow> 't lworker \<Rightarrow> bool" where
  "lf_at s w pc \<longleftrightarrow> w < length (lf_workers s) \<and> lf_workers s ! w = pc"

inductive lf_step :: "'t lf \<Rightarrow> 't slabel \<Rightarrow> 't lf \<Rightarrow> bool" where
  main_call: "lf_main s = N_idle \<Longrightarrow> lf_step s (SCall Main t) (s\<lparr>lf_main := N_submit (L_add t)\<rparr>)"
| main_return: "lf_main s = N_submit (L_enq E_done) \<Longrightarrow> lf_step s (SRet Main) (s\<lparr>lf_main := N_idle\<rparr>)"
| run_call: "lf_main s = N_idle \<Longrightarrow> lf_step s (SRunCall n) (s\<lparr>lf_main := N_clear, lf_n := n\<rparr>)"
| main: "lf_main_step s (lf_main s) = Some (s', pc) \<Longrightarrow> lf_step s STau (s'\<lparr>lf_main := pc\<rparr>)"
| run_return: "lf_main s = N_join \<Longrightarrow> list_all (\<lambda>pc. pc = L_exit) (lf_workers s) \<Longrightarrow>
    lf_step s SRunRet (s\<lparr>lf_main := N_idle, lf_workers := []\<rparr>)"
| worker: "lf_at s w pc \<Longrightarrow> lf_worker_step b s pc = Some (s', pc') \<Longrightarrow> lf_step s STau (lf_set s' w pc')"
| take: "lf_at s w (L_deq (C_done (Some t))) \<Longrightarrow> lf_step s (SStart w t) (lf_set s w (L_run t))"
| task_call: "lf_at s w (L_run t) \<Longrightarrow> lf_step s (SCall (Worker w) u) (lf_set s w (L_submit t (L_add u)))"
| task_return: "lf_at s w (L_submit t (L_enq E_done)) \<Longrightarrow> lf_step s (SRet (Worker w)) (lf_set s w (L_run t))"
| task_finish: "lf_at s w (L_run t) \<Longrightarrow> lf_step s (SFinish w t) (lf_set s w L_dec)"

section \<open>The invariant\<close>

fun lsub_called :: "'t lsub \<Rightarrow> 't multiset" where
  "lsub_called (L_add t) = {#t#}"
| "lsub_called (L_enq e) = enq_held e"

fun lsub_counted :: "'t lsub \<Rightarrow> int" where
  "lsub_counted (L_add t) = 0"
| "lsub_counted (L_enq e) = int (size (enq_held e))"

fun lsub_stage :: "'t lsub \<Rightarrow> stage multiset" where
  "lsub_stage (L_add t) = {#}"
| "lsub_stage (L_enq e) = enq_stage e"

fun lworker_called :: "'t lworker \<Rightarrow> 't multiset" where
  "lworker_called (L_deq c) = deq_held c"
| "lworker_called (L_submit t p) = lsub_called p"
| "lworker_called pc = {#}"

fun lworker_counted :: "'t lworker \<Rightarrow> int" where
  "lworker_counted (L_deq c) = int (size (deq_held c))"
| "lworker_counted (L_run t) = 1"
| "lworker_counted (L_submit t p) = 1 + lsub_counted p"
| "lworker_counted L_dec = 1"
| "lworker_counted pc = 0"

fun lworker_stage :: "'t lworker \<Rightarrow> stage multiset" where
  "lworker_stage (L_deq c) = deq_stage c"
| "lworker_stage (L_submit t p) = lsub_stage p"
| "lworker_stage pc = {#}"

fun lworker_task :: "'t lworker \<Rightarrow> 't option" where
  "lworker_task (L_run t) = Some t"
| "lworker_task (L_submit t p) = Some t"
| "lworker_task pc = None"

fun lmain_called :: "'t lmain \<Rightarrow> 't multiset" where
  "lmain_called (N_submit p) = lsub_called p"
| "lmain_called pc = {#}"

fun lmain_counted :: "'t lmain \<Rightarrow> int" where
  "lmain_counted (N_submit p) = lsub_counted p"
| "lmain_counted pc = 0"

fun lmain_stage :: "'t lmain \<Rightarrow> stage multiset" where
  "lmain_stage (N_submit p) = lsub_stage p"
| "lmain_stage pc = {#}"

fun lmain_outside :: "'t lmain \<Rightarrow> bool" where
  "lmain_outside N_idle = True"
| "lmain_outside (N_submit p) = True"
| "lmain_outside pc = False"

definition lf_running :: "'t lworker list \<Rightarrow> nat \<Rightarrow> 't option" where
  "lf_running ws w = (if w < length ws then lworker_task (ws ! w) else None)"

definition lf_view :: "'t lf \<Rightarrow> 't sched_state" where
  "lf_view s = \<lparr>
     sp_queued = ring_tasks (lf_ring s) + lmain_called (lf_main s) + sum_over lworker_called (lf_workers s),
     sp_running = lf_running (lf_workers s),
     sp_phase = (if lmain_outside (lf_main s) then None else Some (lf_n s))\<rparr>"

definition lf_flight :: "'t lf \<Rightarrow> stage multiset" where
  "lf_flight s = lmain_stage (lf_main s) + sum_over lworker_stage (lf_workers s)"

text \<open>
  Every thread follows the ring's protocol; \<^verbatim>\<open>pending_\<close> counts the tasks on their way through
  the ring and those being run; and it is zero once \<open>run\<close> has seen it so.
\<close>

definition lf_inv :: "'t lf \<Rightarrow> bool" where
  "lf_inv s \<longleftrightarrow> ring_inv (lf_ring s) (lf_flight s)
     \<and> lf_pending s = int (size (ring_tasks (lf_ring s))) + lmain_counted (lf_main s)
         + sum_over lworker_counted (lf_workers s)
     \<and> (lmain_outside (lf_main s) \<or> lf_main s = N_clear \<longrightarrow> lf_workers s = [])
     \<and> length (lf_workers s) \<le> (if lmain_outside (lf_main s) then 0 else lf_n s)
     \<and> (lf_main s = N_shut \<or> lf_main s = N_join \<longrightarrow> lf_pending s = 0)"

lemma lf_counted_nonneg [simp]:
  "0 \<le> lsub_counted (p :: 'a lsub)" "0 \<le> lworker_counted (pc :: 'a lworker)" "0 \<le> lmain_counted (m :: 'a lmain)"
proof -
  show s: "0 \<le> lsub_counted p" for p :: "'a lsub" by (cases p) auto
  show "0 \<le> lworker_counted pc"
  proof (cases pc)
    case (L_submit t p)
    then show ?thesis using s [of p] by simp
  qed simp_all
  show "0 \<le> lmain_counted m" using s by (cases m) auto
qed

lemma lf_pending_zero:
  assumes "lf_inv s" and "lf_pending s = 0"
  shows "ring_tasks (lf_ring s) = {#}" and "pc \<in> set (lf_workers s) \<Longrightarrow> lworker_counted pc = 0"
    and "lmain_counted (lf_main s) = 0"
proof -
  have nn: "0 \<le> sum_over lworker_counted (lf_workers s)" by (rule sum_over_nonneg) simp
  have sum: "int (size (ring_tasks (lf_ring s))) + lmain_counted (lf_main s) + sum_over lworker_counted (lf_workers s) = 0"
    using assms by (simp add: lf_inv_def)
  have m: "0 \<le> lmain_counted (lf_main s)" by simp
  from sum nn m have "int (size (ring_tasks (lf_ring s))) = 0" by linarith
  then show "ring_tasks (lf_ring s) = {#}" by simp
  from sum nn m show "lmain_counted (lf_main s) = 0" by linarith
  from sum nn m have z: "sum_over lworker_counted (lf_workers s) = 0" by linarith
  show "lworker_counted pc = 0" if "pc \<in> set (lf_workers s)"
    using sum_over_member_le [of lworker_counted pc "lf_workers s"] that z by (simp add: antisym)
qed

lemma lf_uncounted_idle: "lworker_counted pc = 0 \<Longrightarrow> lworker_called pc = {#} \<and> lworker_task pc = None"
proof (cases pc)
  case (L_submit t p)
  moreover assume "lworker_counted pc = 0"
  ultimately show ?thesis using lf_counted_nonneg(1) [of p] by (simp del: lf_counted_nonneg)
qed auto

lemma lf_running_Nil [simp]: "lf_running [] = (\<lambda>_. None)"
  by (simp add: lf_running_def fun_eq_iff)

lemma lf_running_update: "w < length ws \<Longrightarrow> lf_running (ws[w := pc]) = (lf_running ws)(w := lworker_task pc)"
  by (auto simp: lf_running_def fun_eq_iff nth_list_update)

lemma lf_running_spawn: "lf_running (ws @ [L_deq C_load]) = lf_running ws"
  by (auto simp: lf_running_def fun_eq_iff nth_append)

lemma lf_worker_inv:
  assumes inv: "lf_inv s" and w: "lf_at s w old"
    and frame: "lf_workers s' = lf_workers s" "lf_n s' = lf_n s" "lf_main s' = lf_main s"
    and ring: "\<And>fl. ring_inv (lf_ring s) (lworker_stage old + fl) \<Longrightarrow> ring_inv (lf_ring s') (lworker_stage new + fl)"
    and pending: "lf_pending s' - int (size (ring_tasks (lf_ring s'))) - lworker_counted new
      = lf_pending s - int (size (ring_tasks (lf_ring s))) - lworker_counted old"
    and zero: "lworker_counted old = 0 \<Longrightarrow> lf_pending s' = lf_pending s"
  shows "lf_inv (lf_set s' w new)"
proof -
  have len: "w < length (lf_workers s)" "lf_workers s ! w = old" using w by (auto simp: lf_at_def)
  obtain rest where rest: "sum_over lworker_stage (lf_workers s) = lworker_stage old + rest"
    "sum_over lworker_stage ((lf_workers s)[w := new]) = lworker_stage new + rest"
    using sum_over_split [OF len(1), of lworker_stage] len(2) by auto
  have "ring_inv (lf_ring s) (lworker_stage old + (lmain_stage (lf_main s) + rest))"
    using inv by (simp add: lf_inv_def lf_flight_def rest ac_simps)
  then have "ring_inv (lf_ring s') (lworker_stage new + (lmain_stage (lf_main s) + rest))" by (rule ring)
  then have flight: "ring_inv (lf_ring s') (lf_flight (lf_set s' w new))"
    by (simp add: lf_flight_def lf_set_def frame rest ac_simps)
  have "lf_pending s = int (size (ring_tasks (lf_ring s))) + lmain_counted (lf_main s)
      + sum_over lworker_counted (lf_workers s)"
    using inv by (simp add: lf_inv_def)
  moreover have "sum_over lworker_counted ((lf_workers s)[w := new])
      = sum_over lworker_counted (lf_workers s) + lworker_counted new - lworker_counted old"
    using sum_over_update_int [of w "lf_workers s" lworker_counted new] len by simp
  ultimately have pending': "lf_pending s' = int (size (ring_tasks (lf_ring s'))) + lmain_counted (lf_main s)
      + sum_over lworker_counted ((lf_workers s)[w := new])"
    using pending by linarith
  have closed: "lf_pending s' = 0" if "lf_main s = N_shut \<or> lf_main s = N_join"
  proof -
    have p0: "lf_pending s = 0" using that inv by (auto simp: lf_inv_def)
    have "old \<in> set (lf_workers s)" using len by auto
    then have "lworker_counted old = 0" by (rule lf_pending_zero(2) [OF inv p0])
    with zero p0 show ?thesis by simp
  qed
  have "lf_workers s \<noteq> []" using len by auto
  then have phase: "\<not> lmain_outside (lf_main s)" "lf_main s \<noteq> N_clear" "length (lf_workers s) \<le> lf_n s"
    using inv by (auto simp: lf_inv_def)
  then show ?thesis
    unfolding lf_inv_def using flight pending' closed by (simp add: lf_set_def frame)
qed

lemma lf_worker_view:
  assumes w: "lf_at s w old"
    and frame: "lf_workers s' = lf_workers s" "lf_n s' = lf_n s" "lf_main s' = lf_main s"
    and tasks: "ring_tasks (lf_ring s') + lworker_called new + x = ring_tasks (lf_ring s) + lworker_called old + y"
  shows "sp_queued (lf_view (lf_set s' w new)) + x = sp_queued (lf_view s) + y"
    and "sp_running (lf_view (lf_set s' w new)) = (sp_running (lf_view s))(w := lworker_task new)"
    and "sp_phase (lf_view (lf_set s' w new)) = sp_phase (lf_view s)"
    and "sp_running (lf_view s) w = lworker_task old"
proof -
  have len: "w < length (lf_workers s)" "lf_workers s ! w = old" using w by (auto simp: lf_at_def)
  obtain rest where rest: "sum_over lworker_called (lf_workers s) = lworker_called old + rest"
    "sum_over lworker_called ((lf_workers s)[w := new]) = lworker_called new + rest"
    using sum_over_split [OF len(1), of lworker_called] len(2) by auto
  have "ring_tasks (lf_ring s') + lworker_called new + x + (lmain_called (lf_main s) + rest)
      = ring_tasks (lf_ring s) + lworker_called old + y + (lmain_called (lf_main s) + rest)"
    using tasks by simp
  then show "sp_queued (lf_view (lf_set s' w new)) + x = sp_queued (lf_view s) + y"
    by (simp add: lf_view_def lf_set_def frame rest ac_simps)
qed (use w in \<open>simp_all add: lf_view_def lf_set_def frame lf_at_def lf_running_update\<close>, simp add: lf_running_def)

lemma lf_worker_tau:
  assumes w: "lf_at s w old"
    and frame: "lf_workers s' = lf_workers s" "lf_n s' = lf_n s" "lf_main s' = lf_main s"
    and tasks: "ring_tasks (lf_ring s') + lworker_called new = ring_tasks (lf_ring s) + lworker_called old"
    and task: "lworker_task new = lworker_task old"
  shows "lf_view (lf_set s' w new) = lf_view s"
proof -
  note view = lf_worker_view [OF w frame, where new = new and x = "{#}" and y = "{#}"]
  show ?thesis
  proof (rule sched_state.equality)
    show "sp_running (lf_view (lf_set s' w new)) = sp_running (lf_view s)"
      using view(2,4) tasks task by (auto simp: fun_eq_iff)
  qed (use view(1,3) tasks in simp_all)
qed

lemma lf_submit_step_ok:
  assumes step: "lf_submit_step s p = Some (s', p')"
  shows "lf_workers s' = lf_workers s" "lf_n s' = lf_n s" "lf_main s' = lf_main s" "lf_shutdown s' = lf_shutdown s"
    and "ring_inv (lf_ring s) (lsub_stage p + fl) \<Longrightarrow> ring_inv (lf_ring s') (lsub_stage p' + fl)"
    and "ring_inv (lf_ring s) (lsub_stage p + fl) \<Longrightarrow>
      ring_tasks (lf_ring s') + lsub_called p' = ring_tasks (lf_ring s) + lsub_called p"
    and "ring_inv (lf_ring s) (lsub_stage p + fl) \<Longrightarrow>
      lf_pending s' - int (size (ring_tasks (lf_ring s'))) - lsub_counted p'
      = lf_pending s - int (size (ring_tasks (lf_ring s))) - lsub_counted p"
proof -
  consider (add) t where "p = L_add t" "s' = s\<lparr>lf_pending := lf_pending s + 1\<rparr>" "p' = L_enq (E_reserve t)"
    | (enq) e r e' where "p = L_enq e" "enq_step (lf_ring s) e = (r, e')" "s' = s\<lparr>lf_ring := r\<rparr>" "p' = L_enq e'"
  proof (cases p)
    case (L_add t)
    with step that(1) show ?thesis by simp
  next
    case (L_enq e)
    obtain r e' where e: "enq_step (lf_ring s) e = (r, e')" by fastforce
    with step L_enq have "s' = s\<lparr>lf_ring := r\<rparr>" "p' = L_enq e'" by (cases e; simp)+
    with L_enq e that(2) show ?thesis by blast
  qed
  note cases = this
  have "lf_workers s' = lf_workers s \<and> lf_n s' = lf_n s \<and> lf_main s' = lf_main s \<and> lf_shutdown s' = lf_shutdown s"
    by (rule cases) simp_all
  then show "lf_workers s' = lf_workers s" "lf_n s' = lf_n s" "lf_main s' = lf_main s" "lf_shutdown s' = lf_shutdown s"
    by blast+
  assume inv: "ring_inv (lf_ring s) (lsub_stage p + fl)"
  from cases show "ring_inv (lf_ring s') (lsub_stage p' + fl)"
    by cases (use inv enq_step_ok(1) in \<open>auto\<close>)
  from cases show tasks: "ring_tasks (lf_ring s') + lsub_called p' = ring_tasks (lf_ring s) + lsub_called p"
  proof cases
    case enq
    with inv enq_step_ok(2) [of "lf_ring s" e fl r e'] show ?thesis by simp
  qed simp
  from cases show "lf_pending s' - int (size (ring_tasks (lf_ring s'))) - lsub_counted p'
      = lf_pending s - int (size (ring_tasks (lf_ring s))) - lsub_counted p"
  proof cases
    case enq
    then have "ring_tasks r + enq_held e' = ring_tasks (lf_ring s) + enq_held e"
      using tasks by simp
    then have "size (ring_tasks r) + size (enq_held e') = size (ring_tasks (lf_ring s)) + size (enq_held e)"
      by (metis size_union)
    with enq show ?thesis by simp
  qed simp
qed

section \<open>Every step keeps the invariant and the promise\<close>

definition lf_good :: "'t lf \<Rightarrow> 't slabel \<Rightarrow> 't lf \<Rightarrow> bool" where
  "lf_good s l s' \<longleftrightarrow> lf_inv s' \<and> sched_spec (lf_view s) l (lf_view s')"

lemma lf_inv_at:
  assumes "lf_inv s" and "lf_at s w pc"
  shows "\<exists>fl. ring_inv (lf_ring s) (lworker_stage pc + fl)"
proof -
  obtain rest where "sum_over lworker_stage (lf_workers s) = lworker_stage pc + rest"
    using sum_over_split [of w "lf_workers s" lworker_stage] assms(2) by (auto simp: lf_at_def)
  with assms(1) have "ring_inv (lf_ring s) (lworker_stage pc + (lmain_stage (lf_main s) + rest))"
    by (simp add: lf_inv_def lf_flight_def ac_simps)
  then show ?thesis by blast
qed

lemma lf_worker_deq:
  "\<nexists>v. c = C_done v \<Longrightarrow> lf_worker_step b s (L_deq c) =
    Some (s\<lparr>lf_ring := fst (deq_step b (lf_ring s) c)\<rparr>, L_deq (snd (deq_step b (lf_ring s) c)))"
  by (cases c) (simp_all add: split_beta del: deq_step.simps)

lemma lf_worker_good:
  assumes inv: "lf_inv s" and w: "lf_at s w pc" and step: "lf_worker_step b s pc = Some (s', pc')"
  shows "lf_good s STau (lf_set s' w pc')"
proof -
  obtain fl where fl: "ring_inv (lf_ring s) (lworker_stage pc + fl)" using lf_inv_at [OF inv w] by blast
  have good: ?thesis
    if frame: "lf_workers s' = lf_workers s" "lf_n s' = lf_n s" "lf_main s' = lf_main s"
      and ring: "\<And>fl. ring_inv (lf_ring s) (lworker_stage pc + fl) \<Longrightarrow> ring_inv (lf_ring s') (lworker_stage pc' + fl)"
      and tasks: "ring_tasks (lf_ring s') + lworker_called pc' = ring_tasks (lf_ring s) + lworker_called pc"
      and pending: "lf_pending s' - int (size (ring_tasks (lf_ring s'))) - lworker_counted pc'
        = lf_pending s - int (size (ring_tasks (lf_ring s))) - lworker_counted pc"
      and zero: "lworker_counted pc = 0 \<Longrightarrow> lf_pending s' = lf_pending s"
      and task: "lworker_task pc' = lworker_task pc"
    using lf_worker_inv [OF inv w frame ring pending zero] lf_worker_tau [OF w frame tasks task]
    by (simp add: lf_good_def sched_spec_simps)
  consider (deq) c r c' where "pc = L_deq c" "deq_step b (lf_ring s) c = (r, c')" "s' = s\<lparr>lf_ring := r\<rparr>" "pc' = L_deq c'"
    | (empty) "pc = L_deq (C_done None)" "s' = s" "pc' = L_check"
    | (sub) t p p' where "pc = L_submit t p" "lf_submit_step s p = Some (s', p')" "pc' = L_submit t p'"
    | (dec) "pc = L_dec" "s' = s\<lparr>lf_pending := lf_pending s - 1\<rparr>" "pc' = L_deq C_load"
    | (check) "pc = L_check" "s' = s" "pc' = (if lf_shutdown s then L_exit else L_deq C_load)"
  proof (cases pc)
    case (L_deq c)
    obtain r c' where c: "deq_step b (lf_ring s) c = (r, c')" by fastforce
    show ?thesis
    proof (cases "\<exists>v. c = C_done v")
      case True
      then obtain v where "c = C_done v" by blast
      with step L_deq that(2) show ?thesis by (cases v) simp_all
    next
      case False
      have "s' = s\<lparr>lf_ring := r\<rparr>" "pc' = L_deq c'"
        using step unfolding L_deq lf_worker_deq [OF False] c by simp_all
      with L_deq c that(1) show ?thesis by blast
    qed
  next
    case (L_submit t p)
    with step obtain p' where "lf_submit_step s p = Some (s', p')" "pc' = L_submit t p'"
      by (auto split: option.splits)
    with L_submit that(3) show ?thesis by blast
  next
    case L_dec
    with step that(4) show ?thesis by simp
  next
    case L_check
    with step that(5) show ?thesis by auto
  qed (use step in simp_all)
  then show ?thesis
  proof cases
    case deq
    have one: "ring_tasks r + deq_held c' = ring_tasks (lf_ring s) + deq_held c"
      using deq_step_ok(2) [of "lf_ring s" c fl b r c'] fl deq by simp
    then have "size (ring_tasks r) + size (deq_held c') = size (ring_tasks (lf_ring s)) + size (deq_held c)"
      by (metis size_union)
    then show ?thesis
      using deq one deq_step_ok(1) [of "lf_ring s" c _ b r c'] by (intro good) auto
  next
    case sub
    note st = lf_submit_step_ok [OF sub(2)]
    have fl': "ring_inv (lf_ring s) (lsub_stage p + fl)" using fl sub by simp
    have "lworker_counted pc \<noteq> 0" using lf_counted_nonneg(1) [of p] sub(1) by (simp del: lf_counted_nonneg)
    then show ?thesis
      using sub(1,3) st(1-3) st(5) st(6,7) [OF fl'] by (intro good) auto
  qed (intro good; simp)+
qed


lemma lf_main_good:
  assumes inv: "lf_inv s" and step: "lf_main_step s (lf_main s) = Some (s', pc)"
  shows "lf_good s STau (s'\<lparr>lf_main := pc\<rparr>)"
proof (cases "lf_main s")
  case (N_submit p)
  with step obtain p' where p': "lf_submit_step s p = Some (s', p')" "pc = N_submit p'"
    by (auto split: option.splits)
  have none: "lf_workers s = []" using inv N_submit by (simp add: lf_inv_def)
  have "ring_inv (lf_ring s) (lsub_stage p + {#})" using inv N_submit none by (simp add: lf_inv_def lf_flight_def)
  note st = lf_submit_step_ok(1-4) [OF p'(1)] lf_submit_step_ok(5-7) [OF p'(1) this]
  have "sp_queued (lf_view (s'\<lparr>lf_main := pc\<rparr>)) = sp_queued (lf_view s)"
    using st(6) by (simp add: lf_view_def N_submit p'(2) none st(1))
  then have "lf_view (s'\<lparr>lf_main := pc\<rparr>) = lf_view s"
    by (simp add: lf_view_def N_submit p'(2) none st(1))
  then show ?thesis
    using inv st N_submit p'(2) none by (auto simp: lf_good_def lf_inv_def lf_flight_def sched_spec_simps)
next
  case N_spawn
  with inv step show ?thesis
    by (auto simp: lf_good_def lf_inv_def lf_flight_def lf_view_def sched_spec_simps lf_running_spawn split: if_splits)
next
  case N_wait
  have "0 \<le> sum_over lworker_counted (lf_workers s)" by (rule sum_over_nonneg) simp
  then have "0 \<le> lf_pending s" using inv N_wait by (simp add: lf_inv_def)
  then consider "pc = N_wait" "s' = s" | "pc = N_shut" "s' = s" "lf_pending s = 0"
    using step N_wait by (auto split: if_splits)
  then show ?thesis
    by cases (use N_wait inv in \<open>auto simp: lf_good_def lf_inv_def lf_flight_def lf_view_def sched_spec_simps\<close>)
qed (use inv step in \<open>auto simp: lf_good_def lf_inv_def lf_flight_def lf_view_def sched_spec_simps\<close>)

lemma lf_label_good:
  assumes inv: "lf_inv s" and w: "lf_at s w old"
    and stage: "lworker_stage new = lworker_stage old" and counted: "lworker_counted new = lworker_counted old"
  shows "lf_inv (lf_set s w new)"
  by (rule lf_worker_inv [OF inv w]) (use stage counted in simp_all)

lemma lf_step_good:
  assumes inv: "lf_inv s" and "lf_step s l s'"
  shows "lf_good s l s'"
  using assms(2)
proof cases
  case (main s1 pc)
  then show ?thesis using lf_main_good [OF inv] by simp
next
  case run_return
  have p0: "lf_pending s = 0" using inv run_return by (auto simp: lf_inv_def)
  note zero = lf_pending_zero [OF inv p0]
  have exit: "pc \<in> set (lf_workers s) \<Longrightarrow> pc = L_exit" for pc using run_return(4) by (auto simp: list_all_iff)
  have "sum_over lworker_called (lf_workers s) = {#}" "sum_over lworker_stage (lf_workers s) = {#}"
    by (rule sum_over_zero; use exit in fastforce)+
  moreover have "lf_running (lf_workers s) w = None" for w
    using exit [OF nth_mem, of w] by (simp add: lf_running_def)
  ultimately show ?thesis
    using inv run_return zero p0
    by (auto simp: lf_good_def lf_inv_def lf_flight_def lf_view_def sched_spec_simps fun_eq_iff)
next
  case (worker w pc b s1 pc')
  then show ?thesis using lf_worker_good [OF inv] by simp
next
  case (take w t)
  have len: "w < length (lf_workers s)" using take(3) by (simp add: lf_at_def)
  then have "\<not> lmain_outside (lf_main s)" "w < lf_n s"
    using inv by (auto simp: lf_inv_def split: if_splits)
  then have "sp_phase (lf_view s) = Some (lf_n s)" "w < lf_n s" by (simp_all add: lf_view_def)
  moreover note view = lf_worker_view [OF take(3), where s' = s and new = "L_run t" and x = "{#t#}" and y = "{#}"]
  ultimately show ?thesis
    using take(1,2) lf_label_good [OF inv take(3), of "L_run t"]
    by (auto simp: lf_good_def sched_spec_simps intro!: sched_state.equality)
next
  case (task_call w t u)
  note view = lf_worker_view [OF task_call(3), where s' = s and new = "L_submit t (L_add u)" and x = "{#}" and y = "{#u#}"]
  show ?thesis
    using task_call(1,2) lf_label_good [OF inv task_call(3), of "L_submit t (L_add u)"] view
    by (auto simp: lf_good_def sched_spec_simps intro!: sched_state.equality)
next
  case (task_return w t)
  note view = lf_worker_view [OF task_return(3), where s' = s and new = "L_run t" and x = "{#}" and y = "{#}"]
  show ?thesis
    using task_return(1,2) lf_label_good [OF inv task_return(3), of "L_run t"] view
    by (auto simp: lf_good_def sched_spec_simps intro!: sched_state.equality)
next
  case (task_finish w t)
  note view = lf_worker_view [OF task_finish(3), where s' = s and new = L_dec and x = "{#}" and y = "{#}"]
  show ?thesis
    using task_finish(1,2) lf_label_good [OF inv task_finish(3), of L_dec] view
    by (auto simp: lf_good_def sched_spec_simps intro!: sched_state.equality)
qed (use inv in \<open>auto simp: lf_good_def lf_inv_def lf_flight_def lf_view_def sched_spec_simps\<close>)

lemma ring_tasks_new [simp]: "ring_tasks (ring_new k) = {#}"
  by (auto simp: ring_tasks_def ring_new_def intro!: sum_over_zero)

lemma lf_inv_init: "1 \<le> k \<Longrightarrow> lf_inv (lf_init k)"
  using ring_inv_new [of k] by (simp add: lf_inv_def lf_init_def lf_flight_def)

interpretation lf: scheduler "lf_init (Suc k)" lf_step lf_inv lf_view for k
proof
  show "lf_inv (lf_init (Suc k))" by (rule lf_inv_init) simp
  show "lf_view (lf_init (Suc k)) = spec_init" by (simp add: lf_view_def lf_init_def spec_init_def)
qed (use lf_step_good in \<open>auto simp: lf_good_def\<close>)

section \<open>Replaying a schedule\<close>

definition lf_do_main :: "'t lf \<Rightarrow> ('t slabel \<times> 't lf) option" where
  "lf_do_main s = (case lf_main_step s (lf_main s) of
       Some (s', pc) \<Rightarrow> Some (STau, s'\<lparr>lf_main := pc\<rparr>)
     | None \<Rightarrow> (case lf_main s of
           N_submit (L_enq E_done) \<Rightarrow> Some (SRet Main, s\<lparr>lf_main := N_idle\<rparr>)
         | N_join \<Rightarrow> if list_all (\<lambda>pc. pc = L_exit) (lf_workers s)
                     then Some (SRunRet, s\<lparr>lf_main := N_idle, lf_workers := []\<rparr>) else None
         | _ \<Rightarrow> None))"

definition lf_do_worker :: "nat \<Rightarrow> 't lf \<Rightarrow> ('t slabel \<times> 't lf) option" where
  "lf_do_worker w s =
     (if length (lf_workers s) \<le> w then None
      else case lf_worker_step False s (lf_workers s ! w) of
        Some (s', pc) \<Rightarrow> Some (STau, lf_set s' w pc)
      | None \<Rightarrow> (case lf_workers s ! w of
            L_deq (C_done (Some t)) \<Rightarrow> Some (SStart w t, lf_set s w (L_run t))
          | L_submit t (L_enq E_done) \<Rightarrow> Some (SRet (Worker w), lf_set s w (L_run t))
          | _ \<Rightarrow> None))"

definition lf_in :: "'t lf \<Rightarrow> nat \<Rightarrow> 't option" where
  "lf_in s w = (if length (lf_workers s) \<le> w then None
     else case lf_workers s ! w of L_run t \<Rightarrow> Some t | _ \<Rightarrow> None)"

definition lf_do :: "'t act \<Rightarrow> 't lf \<Rightarrow> ('t slabel \<times> 't lf) option" where
  "lf_do a s = (case a of
       Submit Main t \<Rightarrow> (case lf_main s of
           N_idle \<Rightarrow> Some (SCall Main t, s\<lparr>lf_main := N_submit (L_add t)\<rparr>) | _ \<Rightarrow> None)
     | Submit (Worker w) u \<Rightarrow> (case lf_in s w of None \<Rightarrow> None
         | Some t \<Rightarrow> Some (SCall (Worker w) u, lf_set s w (L_submit t (L_add u))))
     | Run n \<Rightarrow> (case lf_main s of
           N_idle \<Rightarrow> Some (SRunCall n, s\<lparr>lf_main := N_clear, lf_n := n\<rparr>) | _ \<Rightarrow> None)
     | Finish w \<Rightarrow> (case lf_in s w of None \<Rightarrow> None
         | Some t \<Rightarrow> Some (SFinish w t, lf_set s w L_dec))
     | Do Main \<Rightarrow> lf_do_main s
     | Do (Worker w) \<Rightarrow> lf_do_worker w s)"

lemma lf_in_at: "lf_in s w = Some t \<Longrightarrow> lf_at s w (L_run t)"
  by (auto simp: lf_in_def lf_at_def split: if_splits lworker.splits)

lemma lf_do_main_step: "lf_do_main s = Some (l, s') \<Longrightarrow> lf_step s l s'"
proof (cases "lf_main_step s (lf_main s)")
  case None
  moreover assume "lf_do_main s = Some (l, s')"
  ultimately show ?thesis
    by (auto simp: lf_do_main_def split: lmain.splits lsub.splits enq.splits if_splits
        intro: lf_step.main_return lf_step.run_return)
qed (auto simp: lf_do_main_def intro: lf_step.main)

lemma lf_do_worker_step:
  assumes do: "lf_do_worker w s = Some (l, s')"
  shows "lf_step s l s'"
proof -
  have at: "lf_at s w (lf_workers s ! w)" using do by (auto simp: lf_do_worker_def lf_at_def split: if_splits)
  show ?thesis
  proof (cases "lf_worker_step False s (lf_workers s ! w)")
    case None
    then show ?thesis
      using do at by (auto simp: lf_do_worker_def split: if_splits lworker.splits deq.splits option.splits
          lsub.splits enq.splits intro: lf_step.take lf_step.task_return)
  next
    case (Some r)
    obtain s1 pc where r: "r = (s1, pc)" by fastforce
    with Some have "lf_step s STau (lf_set s1 w pc)" using lf_step.worker [OF at, of False] by simp
    moreover have "l = STau" "s' = lf_set s1 w pc"
      using do Some r by (auto simp: lf_do_worker_def split: if_splits)
    ultimately show ?thesis by simp
  qed
qed

lemma lf_do_step: "lf_do a s = Some (l, s') \<Longrightarrow> lf_step s l s'"
  by (auto simp: lf_do_def intro: lf_step.intros lf_do_main_step lf_do_worker_step dest!: lf_in_at
      split: act.splits thread.splits lmain.splits option.splits)

lemma lf_play: "lts_run lf_step s (fst (play lf_do as s)) (snd (play lf_do as s))"
  by (rule play_run [OF lf_do_step]) simp_all

text \<open>Task 7 spawns task 8 in a ring of two slots.\<close>

definition lf_demo :: "nat slabel list \<times> nat lf" where
  "lf_demo = play lf_do (Submit Main 7 # replicate 6 (Do Main) @ Run 2 # replicate 4 (Do Main)
     @ replicate 6 (Do (Worker 0)) @ Submit (Worker 0) 8 # replicate 6 (Do (Worker 0)) @ replicate 6 (Do (Worker 1))
     @ [Finish 0, Do (Worker 0), Finish 1, Do (Worker 1)] @ replicate 3 (Do Main)
     @ replicate 4 (Do (Worker 0)) @ replicate 4 (Do (Worker 1)) @ [Do Main]) (lf_init 1)"

definition lf_demo_labels :: "nat slabel list" where
  "lf_demo_labels = butlast (fst lf_demo)"

lemma lf_demo_return: "lts_run lf_step (lf_init (Suc 0)) (lf_demo_labels @ [SRunRet]) (snd lf_demo)"
proof -
  have "fst lf_demo = lf_demo_labels @ [SRunRet]" by code_simp
  moreover have "lts_run lf_step (lf_init (Suc 0)) (fst lf_demo) (snd lf_demo)"
    unfolding lf_demo_def One_nat_def by (rule lf_play)
  ultimately show ?thesis by simp
qed

lemma lf_demo_prefix: "lts_run lf_step (lf_init (Suc 0)) (fst lf_demo) (snd lf_demo)"
  unfolding lf_demo_def One_nat_def by (rule lf_play)

section \<open>Counters\<close>

fun lsub_unreserved :: "'t lsub \<Rightarrow> nat" where
  "lsub_unreserved (L_add t) = 1"
| "lsub_unreserved (L_enq (E_reserve t)) = 1"
| "lsub_unreserved p = 0"

fun lworker_unreserved :: "'t lworker \<Rightarrow> nat" where
  "lworker_unreserved (L_submit t p) = lsub_unreserved p"
| "lworker_unreserved pc = 0"

fun lmain_unreserved :: "'t lmain \<Rightarrow> nat" where
  "lmain_unreserved (N_submit p) = lsub_unreserved p"
| "lmain_unreserved pc = 0"

definition lf_unreserved :: "'t lf \<Rightarrow> nat" where
  "lf_unreserved s = lmain_unreserved (lf_main s) + sum_over lworker_unreserved (lf_workers s)"

lemma deq_step_head: "rg_head (fst (deq_step b r c)) = rg_head r" "rg_k (fst (deq_step b r c)) = rg_k r"
  by (cases c; simp add: Let_def)+

lemma lf_submit_step_head:
  "lf_submit_step s p = Some (s', p') \<Longrightarrow>
    rg_head (lf_ring s') + lsub_unreserved p' = rg_head (lf_ring s) + lsub_unreserved p
    \<and> rg_k (lf_ring s') = rg_k (lf_ring s) \<and> lf_workers s' = lf_workers s \<and> lf_main s' = lf_main s"
proof (cases p)
  case (L_enq e)
  moreover assume "lf_submit_step s p = Some (s', p')"
  ultimately show ?thesis by (cases e) auto
qed auto

lemma lf_worker_step_head:
  assumes "lf_worker_step b s pc = Some (s', pc')"
  shows "rg_head (lf_ring s') + lworker_unreserved pc' = rg_head (lf_ring s) + lworker_unreserved pc
    \<and> rg_k (lf_ring s') = rg_k (lf_ring s) \<and> lf_workers s' = lf_workers s \<and> lf_main s' = lf_main s"
proof (cases pc)
  case (L_deq c)
  show ?thesis
  proof (cases "\<exists>v. c = C_done v")
    case True
    then obtain v where "c = C_done v" by blast
    with assms L_deq show ?thesis by (cases v) auto
  next
    case False
    show ?thesis using assms unfolding L_deq lf_worker_deq [OF False] by (auto simp: deq_step_head)
  qed
qed (use assms in \<open>auto dest: lf_submit_step_head split: option.splits\<close>)

lemma lf_unreserved_set:
  "lf_at s w old \<Longrightarrow> lf_workers s' = lf_workers s \<Longrightarrow> lf_main s' = lf_main s \<Longrightarrow>
    lf_unreserved (lf_set s' w new) + lworker_unreserved old = lf_unreserved s + lworker_unreserved new"
  using sum_over_update [of w "lf_workers s" lworker_unreserved new]
  by (simp add: lf_unreserved_def lf_set_def lf_at_def)

lemma lf_step_head:
  assumes "lf_step s l s'"
  shows "rg_head (lf_ring s') + lf_unreserved s' = rg_head (lf_ring s) + lf_unreserved s + size (submitted l)
    \<and> rg_k (lf_ring s') = rg_k (lf_ring s)"
  using assms
proof cases
  case (main s1 pc)
  then show ?thesis
    by (cases "lf_main s") (auto simp: lf_unreserved_def dest: lf_submit_step_head split: option.splits if_splits)
next
  case (worker w pc b s1 pc')
  have "lf_ring (lf_set s1 w pc') = lf_ring s1" by (simp add: lf_set_def)
  then show ?thesis
    using worker(1,2) lf_worker_step_head [OF worker(4)] lf_unreserved_set [OF worker(3), of s1 pc'] by simp
next
  case (take w t)
  then show ?thesis using lf_unreserved_set [OF take(3), of s "L_run t"] by (simp add: lf_set_def)
next
  case (task_call w t u)
  then show ?thesis
    using lf_unreserved_set [OF task_call(3), of s "L_submit t (L_add u)"] by (simp add: lf_set_def)
next
  case (task_return w t)
  then show ?thesis using lf_unreserved_set [OF task_return(3), of s "L_run t"] by (simp add: lf_set_def)
next
  case (task_finish w t)
  then show ?thesis using lf_unreserved_set [OF task_finish(3), of s L_dec] by (simp add: lf_set_def)
next
  case run_return
  have "sum_over lworker_unreserved (lf_workers s) = 0"
    by (rule sum_over_zero) (use run_return(4) in \<open>auto simp: list_all_iff\<close>)
  with run_return show ?thesis by (simp add: lf_unreserved_def)
qed (auto simp: lf_unreserved_def)

lemma lf_run_head:
  assumes "lts_run lf_step (lf_init k) ls s"
  shows "rg_head (lf_ring s) + lf_unreserved s = size (tally submitted ls) \<and> rg_k (lf_ring s) = k"
  using assms
proof (induction rule: lts_run.induct)
  case run_nil
  show ?case by (simp add: lf_init_def lf_unreserved_def ring_new_def)
next
  case (run_snoc ls s l s')
  with lf_step_head [OF run_snoc.hyps(2)] show ?case by simp
qed

section \<open>Before run is called\<close>

fun lf_counting :: "nat \<Rightarrow> nat \<Rightarrow> nat \<Rightarrow> 't lmain \<Rightarrow> bool" where
  "lf_counting cap head rets N_idle = (head = rets \<and> rets \<le> cap)"
| "lf_counting cap head rets (N_submit (L_add t)) = (head = rets \<and> rets \<le> cap)"
| "lf_counting cap head rets (N_submit (L_enq (E_reserve t))) = (head = rets \<and> rets \<le> cap)"
| "lf_counting cap head rets (N_submit (L_enq (E_wait t p))) = (p = rets \<and> head = Suc rets \<and> rets \<le> cap)"
| "lf_counting cap head rets (N_submit (L_enq (E_store t p))) = (p = rets \<and> head = Suc rets \<and> rets < cap)"
| "lf_counting cap head rets (N_submit (L_enq (E_publish p))) = (p = rets \<and> head = Suc rets \<and> rets < cap)"
| "lf_counting cap head rets (N_submit (L_enq E_done)) = (head = Suc rets \<and> rets < cap)"
| "lf_counting cap head rets pc = False"

definition lf_before :: "'t lf \<Rightarrow> nat \<Rightarrow> bool" where
  "lf_before s rets \<longleftrightarrow> ring_wf (lf_ring s) \<and> lf_workers s = []
     \<and> (\<forall>p. seq_at (lf_ring s) p \<in> {ring_ix (lf_ring s) p, Suc (ring_ix (lf_ring s) p)})
     \<and> lf_counting (ring_size (lf_ring s)) (rg_head (lf_ring s)) rets (lf_main s)"

lemma lf_before_step:
  assumes before: "lf_before s rets" and step: "lf_step s l s'" and "\<And>n. l \<noteq> SRunCall n"
  shows "lf_before s' (rets + (if l = SRet Main then 1 else 0)) \<and> ring_size (lf_ring s') = ring_size (lf_ring s)"
  using step
proof cases
  case main_call
  with before show ?thesis by (simp add: lf_before_def)
next
  case main_return
  with before show ?thesis by (simp add: lf_before_def)
next
  case (main s1 pc)
  note wf = before [unfolded lf_before_def, THEN conjunct1]
  note at = seq_at_store [OF wf]
  obtain p where p: "lf_main s = N_submit p" using before main(3) by (cases "lf_main s") (auto simp: lf_before_def)
  show ?thesis
  proof (cases p)
    case (L_add t)
    with p main before show ?thesis by (auto simp: lf_before_def)
  next
    case (L_enq e)
    show ?thesis
    proof (cases e)
      case (E_wait t q)
      have q: "q \<le> ring_size (lf_ring s)" using before p L_enq E_wait by (simp add: lf_before_def)
      have "q < ring_size (lf_ring s)" if "seq_at (lf_ring s) q = q"
      proof (rule ccontr)
        assume "\<not> q < ring_size (lf_ring s)"
        with q have full: "q = ring_size (lf_ring s)" by simp
        then have "ring_ix (lf_ring s) q = 0" by (simp add: idx_simps)
        moreover have "seq_at (lf_ring s) q \<in> {ring_ix (lf_ring s) q, Suc (ring_ix (lf_ring s) q)}"
          using before unfolding lf_before_def by blast
        ultimately have "q \<le> 1" using that by auto
        with full ring_size_ge [OF wf] show False by simp
      qed
      moreover have "s1 = s" "pc = N_submit (L_enq (if seq_at (lf_ring s) q \<noteq> q then E_wait t q else E_store t q))"
        using main(3) p L_enq E_wait by auto
      ultimately show ?thesis using p L_enq E_wait main(1,2) before by (simp add: lf_before_def)
    next
      case (E_publish q)
      have q: "q < ring_size (lf_ring s)" using before p L_enq E_publish by (simp add: lf_before_def)
      then have "ring_ix (lf_ring s) q = q" by (simp add: idx_simps)
      moreover have sq: "seq_at (lf_ring s) v = ring_ix (lf_ring s) v \<or> seq_at (lf_ring s) v = Suc (ring_ix (lf_ring s) v)" for v
        using before unfolding lf_before_def by blast
      ultimately show ?thesis using p L_enq E_publish main before
        by (auto simp: lf_before_def at wf) (use sq in blast)
    qed (use p L_enq main before wf in \<open>auto simp: lf_before_def at\<close>)
  qed
next
  case run_return
  with before show ?thesis by (simp add: lf_before_def)
qed (use before assms(3) in \<open>auto simp: lf_before_def lf_at_def\<close>)

lemma lf_before_run:
  assumes "lts_run lf_step (lf_init k) ls (s :: 'a lf)" and "1 \<le> k" and "\<And>n. SRunCall n \<notin> set ls"
  shows "lf_before s (count_list ls (SRet Main)) \<and> ring_size (lf_ring s) = 2 ^ k"
  using assms(1,3)
proof (induction rule: lts_run.induct)
  case run_nil
  let ?r = "ring_new k :: 'a ring"
  have "seq_at ?r p = ring_ix ?r p" for p
    by (simp add: seq_at_def idx_simps) (simp add: ring_new_def ring_size_def)
  moreover have "ring_wf ?r" using assms(2) by (simp add: ring_wf_def ring_new_def ring_size_def)
  ultimately show ?case by (simp add: lf_init_def lf_before_def) (simp add: ring_new_def ring_size_def)
next
  case (run_snoc ls s l s')
  have "lf_before s (count_list ls (SRet Main)) \<and> ring_size (lf_ring s) = 2 ^ k"
    using run_snoc by auto
  moreover have "l \<noteq> SRunCall n" for n using run_snoc.prems [of n] by auto
  ultimately show ?case using lf_before_step [OF _ run_snoc.hyps(2)] by fastforce
qed

section \<open>Properties\<close>

lemma lf_reachable:
  assumes "lts_run lf_step (lf_init k) ls s" and "1 \<le> k"
  shows "lf_inv s" and "ring_size (lf_ring s) = 2 ^ k"
proof -
  obtain j where k: "k = Suc j" using assms(2) by (cases k) auto
  show "lf_inv s" using lf.waiting.run_inv [of j ls s] assms(1) by (simp add: k)
  show "ring_size (lf_ring s) = 2 ^ k" using lf_run_head [OF assms(1)] by (simp add: ring_size_def)
qed

text \<open>C6. \<open>run\<close> returns only when every task submitted to the scheduler has been started exactly
  once and has finished, whatever the size of the ring.\<close>

theorem lockfree_run_completes:
  assumes "1 \<le> k" and "lts_run lf_step (lf_init k) (ls @ [SRunRet]) s"
  shows "tally started ls = tally submitted ls \<and> tally finished ls = tally submitted ls"
proof -
  obtain j where "k = Suc j" using assms(1) by (cases k) auto
  with lf.return_complete assms(2) show ?thesis by blast
qed

theorem lockfree_run_completes_witness:
  "tally started lf_demo_labels = tally submitted lf_demo_labels
   \<and> tally finished lf_demo_labels = tally submitted lf_demo_labels"
  by (rule lockfree_run_completes [OF _ lf_demo_return]) simp

text \<open>C14. Every run of the class is label for label a run of the abstract scheduler; in particular
  no task is lost, duplicated or overwritten in the ring.\<close>

theorem lockfree_implements_scheduler:
  assumes "1 \<le> k" and "lts_run lf_step (lf_init k) ls s"
  shows "lts_run sched_spec spec_init ls (lf_view s)
    \<and> tally submitted ls = ring_tasks (lf_ring s) + lmain_called (lf_main s)
        + sum_over lworker_called (lf_workers s) + active_tasks (lf_running (lf_workers s)) + tally finished ls"
proof -
  obtain j where k: "k = Suc j" using assms(1) by (cases k) auto
  have "tally submitted ls = sp_queued (lf_view s) + active_tasks (sp_running (lf_view s)) + tally finished ls"
    by (rule lf.account [of j]) (use assms(2) k in simp)
  then show ?thesis using lf.run_view [of j ls s] assms(2) by (simp add: k lf_view_def)
qed

theorem lockfree_implements_scheduler_witness:
  "lts_run sched_spec spec_init (fst lf_demo) (lf_view (snd lf_demo))"
  using lockfree_implements_scheduler [OF _ lf_demo_prefix] by simp

text \<open>C15. The sequence numbers keep the threads of a slot apart: two threads between their claim of a
  slot and its release, producers or consumers, never work on the same slot, so the payload is
  never accessed concurrently; a producer stores into an empty slot and a consumer finds a task
  in the slot it claimed.\<close>

theorem lockfree_slots_exclusive:
  assumes "1 \<le> k" and "lts_run lf_step (lf_init k) ls s"
  shows "(lf_flight s = add_mset st (add_mset st' rest) \<and> exclusive st = Some p \<and> exclusive st' = Some q \<longrightarrow>
      ring_ix (lf_ring s) p \<noteq> ring_ix (lf_ring s) q)
    \<and> (At_store p \<in># lf_flight s \<longrightarrow> payload_at (lf_ring s) p = None)
    \<and> (At_take p \<in># lf_flight s \<longrightarrow> payload_at (lf_ring s) p \<noteq> None)"
proof -
  have inv: "ring_inv (lf_ring s) (lf_flight s)"
    using lf_reachable(1) [OF assms(2,1)] by (simp add: lf_inv_def)
  have "payload_at (lf_ring s) p = None" if "At_store p \<in># lf_flight s"
    using ring_store(1) [of "lf_ring s" p "lf_flight s - {#At_store p#}"] inv that by simp
  moreover have "payload_at (lf_ring s) p \<noteq> None" if "At_take p \<in># lf_flight s"
    using ring_take(1) [of "lf_ring s" p "lf_flight s - {#At_take p#}"] inv that by simp
  ultimately show ?thesis using ring_exclusive inv by metis
qed

text \<open>Two workers hold the two slots of a ring at the same time.\<close>

definition lf_both :: "nat slabel list \<times> nat lf" where
  "lf_both = play lf_do (Submit Main 7 # replicate 6 (Do Main) @ Submit Main 8 # replicate 6 (Do Main)
     @ Run 2 # replicate 4 (Do Main) @ replicate 3 (Do (Worker 0)) @ replicate 3 (Do (Worker 1))) (lf_init 1)"

theorem lockfree_slots_exclusive_witness:
  "ring_ix (lf_ring (snd lf_both)) 0 \<noteq> ring_ix (lf_ring (snd lf_both)) 1
   \<and> payload_at (lf_ring (snd lf_both)) 0 \<noteq> None"
proof -
  have run: "lts_run lf_step (lf_init (Suc 0)) (fst lf_both) (snd lf_both)"
    unfolding lf_both_def One_nat_def by (rule lf_play)
  have "lf_workers (snd lf_both) = [L_deq (C_take 0), L_deq (C_take 1)]" "lf_main (snd lf_both) = N_wait"
    by code_simp+
  then have "lf_flight (snd lf_both) = {#At_take 0, At_take 1#}" by (simp add: lf_flight_def)
  with lockfree_slots_exclusive [OF _ run, of "At_take 0" "At_take 1" "{#}" 0 1] show ?thesis by simp
qed

text \<open>C23. In every run \<open>tail_ \<le> head_ \<le>\<close> the number of tasks submitted, and every sequence number is below
  that number plus the size of the ring. While the sum of these two is below \<open>2 ^ 63\<close>, \<open>dequeue\<close>'s
  difference of a sequence number and a position up to \<open>tail_\<close>, computed by the code on 64-bit words,
  is the difference of the numbers.\<close>

theorem lockfree_counters_exact:
  assumes "1 \<le> k" and "lts_run lf_step (lf_init k) ls s"
  shows "rg_tail (lf_ring s) \<le> rg_head (lf_ring s) \<and> rg_head (lf_ring s) \<le> size (tally submitted ls)
    \<and> (\<forall>p. seq_at (lf_ring s) p < size (tally submitted ls) + 2 ^ k)
    \<and> (size (tally submitted ls) + 2 ^ k < 2 ^ 63 \<longrightarrow> (\<forall>p \<le> rg_tail (lf_ring s).
        sint (of_nat (seq_at (lf_ring s) p) :: 64 word) - sint (of_nat p + 1 :: 64 word)
        = int (seq_at (lf_ring s) p) - int (p + 1)))"
proof -
  have inv: "ring_inv (lf_ring s) (lf_flight s)" and size: "ring_size (lf_ring s) = 2 ^ k"
    using lf_reachable [OF assms(2,1)] by (auto simp: lf_inv_def)
  have head: "rg_head (lf_ring s) \<le> size (tally submitted ls)" using lf_run_head [OF assms(2)] by simp
  note bound = ring_seq_bound [OF inv]
  have "sint (of_nat (seq_at (lf_ring s) p) :: 64 word) - sint (of_nat p + 1 :: 64 word)
        = int (seq_at (lf_ring s) p) - int (p + 1)"
    if small: "size (tally submitted ls) + 2 ^ k < 2 ^ 63" and "p \<le> rg_tail (lf_ring s)" for p
  proof (rule diff_machine)
    show "seq_at (lf_ring s) p < 2 ^ 63" using bound(1) [of p] head size small by simp
    have "1 \<le> (2::nat) ^ k" by simp
    then show "p + 1 < 2 ^ 63" using bound(2) head that by linarith
  qed
  moreover have "seq_at (lf_ring s) p < size (tally submitted ls) + 2 ^ k" for p
    using bound(1) [of p] head size by simp
  ultimately show ?thesis using bound(2) head by blast
qed

theorem lockfree_counters_exact_witness:
  "rg_head (lf_ring (snd lf_demo)) \<le> 2
   \<and> sint (of_nat (seq_at (lf_ring (snd lf_demo)) 0) :: 64 word) - sint (of_nat 0 + 1 :: 64 word) = 1"
proof -
  have "tally submitted (fst lf_demo) = {#7, 8#}" by code_simp
  then have size: "size (tally submitted (fst lf_demo)) = 2" by simp
  have "seq_at (lf_ring (snd lf_demo)) 0 = 2" by code_simp
  with lockfree_counters_exact [OF _ lf_demo_prefix] size show ?thesis by fastforce
qed

text \<open>A consumer sees a sequence number beyond the one it expects only when the position it looks at
  has been claimed already, so its copy of \<^verbatim>\<open>tail_\<close> is out of date: the last branch of \<open>dequeue\<close>
  is not about a producer that has reserved the slot and not filled it.\<close>

theorem lockfree_reload_means_stale:
  assumes "1 \<le> k" and "lts_run lf_step (lf_init k) ls s"
    and "int (seq_at (lf_ring s) pos) - int (pos + 1) > 0"
  shows "pos < rg_tail (lf_ring s)"
proof (rule ring_stale)
  show "ring_inv (lf_ring s) (lf_flight s)"
    using lf_reachable(1) [OF assms(2,1)] by (simp add: lf_inv_def)
qed (use assms(3) in simp)

theorem lockfree_reload_means_stale_witness: "0 < rg_tail (lf_ring (snd lf_demo))"
proof (rule lockfree_reload_means_stale [OF _ lf_demo_prefix])
  have "seq_at (lf_ring (snd lf_demo)) 0 = 2" by code_simp
  then show "int (seq_at (lf_ring (snd lf_demo)) 0) - int (0 + 1) > 0" by simp
qed simp

text \<open>C35. Before \<open>run\<close> is called, at most as many calls of \<open>submit\<close> return as the ring has slots: the
  next one waits for a consumer that does not exist yet, so submitting more tasks first hangs.\<close>

theorem lockfree_submits_before_run:
  assumes "1 \<le> k" and "lts_run lf_step (lf_init k) ls s" and "\<forall>n. SRunCall n \<notin> set ls"
  shows "count_list ls (SRet Main) \<le> 2 ^ k"
proof -
  have "lf_before s (count_list ls (SRet Main))" and size: "ring_size (lf_ring s) = 2 ^ k"
    using lf_before_run [OF assms(2,1)] assms(3) by auto
  then have "lf_counting (2 ^ k) (rg_head (lf_ring s)) (count_list ls (SRet Main)) (lf_main s)"
    by (simp add: lf_before_def)
  then show ?thesis
    by (cases "(2 ^ k :: nat, rg_head (lf_ring s), count_list ls (SRet Main), lf_main s)" rule: lf_counting.cases) auto
qed

text \<open>Three calls of \<open>submit\<close> on a ring of two slots: the third does not return.\<close>

definition lf_full :: "nat slabel list \<times> nat lf" where
  "lf_full = play lf_do (concat (map (\<lambda>t. Submit Main t # replicate 20 (Do Main)) [7, 8, 9])) (lf_init 1)"

theorem lockfree_submits_before_run_witness:
  "count_list (fst lf_full) (SRet Main) \<le> 2 \<and> size (tally submitted (fst lf_full)) = 3"
proof -
  have run: "lts_run lf_step (lf_init (Suc 0)) (fst lf_full) (snd lf_full)"
    unfolding lf_full_def One_nat_def by (rule lf_play)
  have "list_all (\<lambda>l. case l of SRunCall n \<Rightarrow> False | _ \<Rightarrow> True) (fst lf_full)" by code_simp
  then have "\<forall>n. SRunCall n \<notin> set (fst lf_full)" by (force simp: list_all_iff)
  moreover have "tally submitted (fst lf_full) = {#7, 8, 9#}" by code_simp
  ultimately show ?thesis using lockfree_submits_before_run [OF _ run] by simp
qed

end
