(* ===== verification/Work_Stealing.thy ===== *)
theory Work_Stealing
  imports Deque_Machine Scheduler
begin

text \<open>
  \<^verbatim>\<open>class WorkStealingScheduler\<close> of \<^verbatim>\<open>include/work_stealing_scheduler.hpp\<close>: \<open>submit\<close>, \<open>run\<close>
  and \<open>worker_loop\<close>. The worker's own deque operations are the owner's program counters of
  \<open>Deque_Machine\<close> and its steals the thief's, so the threads of all workers interleave at
  the granularity of the deque's own accesses. The random generator may return any 32-bit
  number at each call. Before the workers are launched the thread in \<open>run\<close> is alone with the
  deques, so there the drain of the injection queue pushes with the sequential \<open>dq_push\<close>.
\<close>

section \<open>Choosing a victim, backing off\<close>

text \<open>\<^verbatim>\<open>start = rng() % (n - 1); if (start >= id) ++start;\<close> and the victim of an attempt. All are \<^verbatim>\<open>uint32_t\<close>, and so
  is \<open>n\<close>: below \<open>2 ^ 32\<close> only the sum \<^verbatim>\<open>start + attempt\<close> can wrap.\<close>

definition pick_start :: "nat \<Rightarrow> nat \<Rightarrow> 32 word \<Rightarrow> nat" where
  "pick_start n me r = (let start = unat r mod (n - 1) in if me \<le> start then start + 1 else start)"

definition pick_victim :: "nat \<Rightarrow> nat \<Rightarrow> nat \<Rightarrow> nat \<Rightarrow> nat" where
  "pick_victim n me start attempt =
     (let victim = unat (of_nat start + of_nat attempt :: 32 word) mod n in if victim = me then (victim + 1) mod n else victim)"

definition next_backoff :: "32 word \<Rightarrow> 32 word" where
  "next_backoff backoff = min (backoff * 2) 128"

section \<open>State\<close>

text \<open>\<open>submit\<close> outside a task, and from inside one.\<close>

datatype 't inject = I_lock 't | I_add 't | I_push 't | I_unlock | I_done

datatype 't spawn = A_add 't | A_push "'t opc"

datatype 't wcode =
    V_pop "'t opc"                  \<comment> \<open>\<^verbatim>\<open>self.deque.pop_bottom()\<close>\<close>
  | V_run 't
  | V_submit 't "'t spawn"
  | V_dec                           \<comment> \<open>\<^verbatim>\<open>pending_.fetch_sub\<close>\<close>
  | V_pending                       \<comment> \<open>\<^verbatim>\<open>pending_.load\<close>\<close>
  | V_shutdown                      \<comment> \<open>\<^verbatim>\<open>shutdown_.load\<close>\<close>
  | V_pick                          \<comment> \<open>\<^verbatim>\<open>rng()\<close>\<close>
  | V_next nat nat                  \<comment> \<open>\<^verbatim>\<open>start\<close> and \<^verbatim>\<open>attempt\<close>: the head of the inner loop\<close>
  | V_steal nat nat nat "'t tpc"    \<comment> \<open>\<^verbatim>\<open>start\<close>, \<^verbatim>\<open>attempt\<close>, \<^verbatim>\<open>victim\<close>\<close>
  | V_yield "32 word"
  | V_exit

record 't worker_ctx =
  wk_code :: "'t wcode"
  wk_backoff :: "32 word"

definition wk_new :: "'t worker_ctx" where
  "wk_new = \<lparr>wk_code = V_pop Pop_bot, wk_backoff = 1\<rparr>"

datatype 't wmain =
    X_idle | X_submit "'t inject"
  | X_build | X_clear | X_lock | X_drain nat | X_unlock | X_spawn | X_wait | X_shut | X_join

record 't ws =
  ws_deques :: "'t dq list"
  ws_inject :: "'t list"
  ws_inject_mu :: bool
  ws_pending :: int
  ws_shutdown :: bool
  ws_n :: nat
  ws_main :: "'t wmain"
  ws_workers :: "'t worker_ctx list"

definition ws_init :: "'t ws" where
  "ws_init = \<lparr>ws_deques = [], ws_inject = [], ws_inject_mu = False, ws_pending = 0, ws_shutdown = False,
     ws_n = 0, ws_main = X_idle, ws_workers = []\<rparr>"

section \<open>Steps\<close>

fun inject_step :: "'t ws \<Rightarrow> 't inject \<Rightarrow> ('t ws \<times> 't inject) option" where
  "inject_step s (I_lock t) = (if ws_inject_mu s then None else Some (s\<lparr>ws_inject_mu := True\<rparr>, I_add t))"
| "inject_step s (I_add t) = Some (s\<lparr>ws_pending := ws_pending s + 1\<rparr>, I_push t)"
| "inject_step s (I_push t) = Some (s\<lparr>ws_inject := ws_inject s @ [t]\<rparr>, I_unlock)"
| "inject_step s I_unlock = Some (s\<lparr>ws_inject_mu := False\<rparr>, I_done)"
| "inject_step s I_done = None"

definition set_deque :: "'t ws \<Rightarrow> nat \<Rightarrow> 't dq \<Rightarrow> 't ws" where
  "set_deque s i d = s\<lparr>ws_deques := (ws_deques s)[i := d]\<rparr>"

text \<open>
  The test that chooses between the two in the code, \<^verbatim>\<open>wid >= 0 && wid < static_cast<int>(workers_.size())\<close>. It
  holds for every worker as long as there are fewer than \<open>2 ^ 31\<close>, and never for a thread that is not
  one; so a worker's \<open>submit\<close> is \<open>spawn_step\<close>, and that of another thread \<open>inject_step\<close>.
\<close>

definition worker_test :: "32 word \<Rightarrow> nat \<Rightarrow> bool" where
  "worker_test wid workers \<longleftrightarrow> 0 \<le> sint wid \<and> sint wid < sint (of_nat workers :: 32 word)"

lemma worker_test_iff:
  assumes "n < 2 ^ 31"
  shows "w < n \<Longrightarrow> worker_test (of_nat w) n" and "\<not> worker_test (- 1) n"
proof -
  have "sint (of_nat i :: 32 word) = int i" if "i < 2 ^ 31" for i
    using that by (simp add: signed_of_nat signed_take_bit_int_eq_self)
  then show "w < n \<Longrightarrow> worker_test (of_nat w) n" and "\<not> worker_test (- 1) n"
    using assms by (simp_all add: worker_test_def)
qed

fun spawn_step :: "nat \<Rightarrow> 't ws \<Rightarrow> 't spawn \<Rightarrow> ('t ws \<times> 't spawn) option" where
  "spawn_step w s (A_add t) = Some (s\<lparr>ws_pending := ws_pending s + 1\<rparr>, A_push (Push_bot t))"
| "spawn_step w s (A_push pc) =
     (if in_push pc
      then let (d, pc') = owner_step (ws_deques s ! w) pc in Some (set_deque s w d, A_push pc')
      else None)"

fun ws_worker_step :: "32 word \<Rightarrow> nat \<Rightarrow> 't ws \<Rightarrow> 32 word \<Rightarrow> 't wcode \<Rightarrow> ('t ws \<times> 't wcode \<times> 32 word) option" where
  "ws_worker_step r w s b (V_pop pc) =
     (if in_pop pc
      then let (d, pc') = owner_step (ws_deques s ! w) pc in Some (set_deque s w d, V_pop pc', b)
      else case pc of PopRet None \<Rightarrow> Some (s, V_pending, b) | _ \<Rightarrow> None)"
| "ws_worker_step r w s b (V_submit t p) =
     (case spawn_step w s p of None \<Rightarrow> None | Some (s', p') \<Rightarrow> Some (s', V_submit t p', b))"
| "ws_worker_step r w s b V_dec =
     (let s' = s\<lparr>ws_pending := ws_pending s - 1\<rparr>
      in if ws_pending s = 1 then Some (s', V_exit, b) else Some (s', V_pop Pop_bot, 1))"
| "ws_worker_step r w s b V_pending =
     Some (s, if ws_pending s = 0 then V_exit else V_shutdown, b)"
| "ws_worker_step r w s b V_shutdown =
     Some (s, if ws_shutdown s then V_exit else if length (ws_deques s) > 1 then V_pick else V_yield 0, b)"
| "ws_worker_step r w s b V_pick = Some (s, V_next (pick_start (length (ws_deques s)) w r) 0, b)"
| "ws_worker_step r w s b (V_next start attempt) =
     Some (s, if attempt < length (ws_deques s) - 1
              then V_steal start attempt (pick_victim (length (ws_deques s)) w start attempt) Steal_top
              else V_yield 0, b)"
| "ws_worker_step r w s b (V_steal start attempt victim q) =
     (if in_steal q
      then let (d, q') = thief_step (ws_deques s ! victim) q
           in Some (set_deque s victim d, V_steal start attempt victim q', b)
      else case q of
          StealRet res \<Rightarrow> (case res_task res of
              None \<Rightarrow> Some (s, V_next start (attempt + 1), b) | Some t \<Rightarrow> None)
        | _ \<Rightarrow> None)"
| "ws_worker_step r w s b (V_yield i) =
     (if i < b then Some (s, V_yield (i + 1), b) else Some (s, V_pop Pop_bot, next_backoff b))"
| "ws_worker_step r w s b (V_run t) = None"
| "ws_worker_step r w s b V_exit = None"

fun ws_main_step :: "'t ws \<Rightarrow> 't wmain \<Rightarrow> ('t ws \<times> 't wmain) option" where
  "ws_main_step s (X_submit p) =
     (case inject_step s p of None \<Rightarrow> None | Some (s', p') \<Rightarrow> Some (s', X_submit p'))"
| "ws_main_step s X_build = Some (s\<lparr>ws_deques := replicate (ws_n s) dq_new\<rparr>, X_clear)"
| "ws_main_step s X_clear = Some (s\<lparr>ws_shutdown := False\<rparr>, X_lock)"
| "ws_main_step s X_lock = (if ws_inject_mu s then None else Some (s\<lparr>ws_inject_mu := True\<rparr>, X_drain 0))"
| "ws_main_step s (X_drain i) =
     (if i < length (ws_inject s)
      then if ws_deques s = [] then None
           else Some (set_deque s 0 (dq_push (ws_deques s ! 0) (Some (ws_inject s ! i))), X_drain (i + 1))
      else Some (s\<lparr>ws_inject := []\<rparr>, X_unlock))"
| "ws_main_step s X_unlock = Some (s\<lparr>ws_inject_mu := False\<rparr>, X_spawn)"
| "ws_main_step s X_spawn =
     (if length (ws_workers s) < ws_n s
      then Some (s\<lparr>ws_workers := ws_workers s @ [wk_new]\<rparr>, X_spawn) else Some (s, X_wait))"
| "ws_main_step s X_wait = Some (s, if ws_pending s > 0 then X_wait else X_shut)"
| "ws_main_step s X_shut = Some (s\<lparr>ws_shutdown := True\<rparr>, X_join)"
| "ws_main_step s pc = None"

definition ws_set :: "'t ws \<Rightarrow> nat \<Rightarrow> 't wcode \<Rightarrow> 32 word \<Rightarrow> 't ws" where
  "ws_set s w pc b = s\<lparr>ws_workers := (ws_workers s)[w := \<lparr>wk_code = pc, wk_backoff = b\<rparr>]\<rparr>"

definition ws_at :: "'t ws \<Rightarrow> nat \<Rightarrow> 't wcode \<Rightarrow> 32 word \<Rightarrow> bool" where
  "ws_at s w pc b \<longleftrightarrow> w < length (ws_workers s) \<and> ws_workers s ! w = \<lparr>wk_code = pc, wk_backoff = b\<rparr>"

inductive ws_step :: "'t ws \<Rightarrow> 't slabel \<Rightarrow> 't ws \<Rightarrow> bool" where
  main_call: "ws_main s = X_idle \<Longrightarrow> ws_step s (SCall Main t) (s\<lparr>ws_main := X_submit (I_lock t)\<rparr>)"
| main_return: "ws_main s = X_submit I_done \<Longrightarrow> ws_step s (SRet Main) (s\<lparr>ws_main := X_idle\<rparr>)"
| run_call: "ws_main s = X_idle \<Longrightarrow> ws_step s (SRunCall n) (s\<lparr>ws_main := X_build, ws_n := n\<rparr>)"
| main: "ws_main_step s (ws_main s) = Some (s', pc) \<Longrightarrow> ws_step s STau (s'\<lparr>ws_main := pc\<rparr>)"
| run_return: "ws_main s = X_join \<Longrightarrow> list_all (\<lambda>k. wk_code k = V_exit) (ws_workers s) \<Longrightarrow>
    ws_step s SRunRet (s\<lparr>ws_main := X_idle, ws_workers := [], ws_deques := []\<rparr>)"
| worker: "ws_at s w pc b \<Longrightarrow> ws_worker_step r w s b pc = Some (s', pc', b') \<Longrightarrow>
    ws_step s STau (ws_set s' w pc' b')"
| take_own: "ws_at s w (V_pop (PopRet (Some t))) b \<Longrightarrow> ws_step s (SStart w t) (ws_set s w (V_run t) b)"
| take_stolen: "ws_at s w (V_steal start attempt victim (StealRet res)) b \<Longrightarrow> res_task res = Some t \<Longrightarrow>
    ws_step s (SStart w t) (ws_set s w (V_run t) b)"
| task_call: "ws_at s w (V_run t) b \<Longrightarrow> ws_step s (SCall (Worker w) u) (ws_set s w (V_submit t (A_add u)) b)"
| task_return: "ws_at s w (V_submit t (A_push PushRet)) b \<Longrightarrow> ws_step s (SRet (Worker w)) (ws_set s w (V_run t) b)"
| task_finish: "ws_at s w (V_run t) b \<Longrightarrow> ws_step s (SFinish w t) (ws_set s w V_dec b)"

section \<open>What the threads hold\<close>

fun own_held :: "'t opc \<Rightarrow> 't multiset" where
  "own_held (Push_bot x) = {#x#}"
| "own_held (Push_top x b) = {#x#}"
| "own_held (Push_array x b t) = {#x#}"
| "own_held (Push_check x b t a) = {#x#}"
| "own_held (Push_put x b a) = {#x#}"
| "own_held (Push_publish x b) = {#x#}"
| "own_held (PopRet r) = (case r of None \<Rightarrow> {#} | Some x \<Rightarrow> {#x#})"
| "own_held pc = {#}"

fun thief_held :: "'t tpc \<Rightarrow> 't multiset" where
  "thief_held (StealRet r) = (case res_task r of None \<Rightarrow> {#} | Some x \<Rightarrow> {#x#})"
| "thief_held q = {#}"

text \<open>A step of an operation moves a task between the deque and the thread's hands, or not at all.\<close>

lemma owner_step_held:
  assumes "dq_ok d pc" and "in_push pc \<or> in_pop pc" and "owner_step d pc = (d', pc')"
  shows "adeque_content (dq_abs d' pc') + own_held pc' = adeque_content (dq_abs d pc) + own_held pc"
proof (rule exchange_cancel)
  show "adeque_content (dq_abs d' pc') + dtakes (owner_label pc pc')
      = adeque_content (dq_abs d pc) + dputs (owner_label pc pc')"
    by (rule adeque_conserves [OF owner_step_ok(3) [OF assms]])
  show "own_held pc' + dputs (owner_label pc pc') = own_held pc + dtakes (owner_label pc pc')"
    using assms(2,3)
    by (cases pc) (auto simp: owner_step_def owner_label_def Let_def split: if_splits prod.splits option.splits)
qed

lemma thief_step_held:
  assumes "dq_ok d pc" and "thief_ok d (climit d pc) q" and "in_steal q" and "thief_step d q = (d', q')"
  shows "adeque_content (dq_abs d' pc) + thief_held q' = adeque_content (dq_abs d pc) + thief_held q"
proof (rule exchange_cancel)
  show "adeque_content (dq_abs d' pc) + dtakes (thief_label 0 q')
      = adeque_content (dq_abs d pc) + dputs (thief_label 0 q')"
    using thief_step_ok [OF assms(1,2,4,3), of 0] by (blast intro: adeque_conserves)
  show "thief_held q' + dputs (thief_label 0 q') = thief_held q + dtakes (thief_label 0 q')"
    using assms(3,4) by (cases q) (auto simp: Let_def split: if_splits prod.splits option.splits)
qed

fun owner_pc :: "'t wcode \<Rightarrow> 't opc" where
  "owner_pc (V_pop pc) = pc"
| "owner_pc (V_submit t (A_push pc)) = pc"
| "owner_pc pc = OIdle"

definition owner_at :: "'t worker_ctx list \<Rightarrow> nat \<Rightarrow> 't opc" where
  "owner_at ks i = (if i < length ks then owner_pc (wk_code (ks ! i)) else OIdle)"

fun wcode_called :: "'t wcode \<Rightarrow> 't multiset" where
  "wcode_called (V_submit t (A_add u)) = {#u#}"
| "wcode_called (V_steal start attempt victim q) = thief_held q"
| "wcode_called pc = own_held (owner_pc pc)"

fun wcode_task :: "'t wcode \<Rightarrow> 't option" where
  "wcode_task (V_run t) = Some t"
| "wcode_task (V_submit t p) = Some t"
| "wcode_task pc = None"

fun wcode_counted :: "'t wcode \<Rightarrow> int" where
  "wcode_counted (V_submit t (A_add u)) = 1"
| "wcode_counted (V_submit t (A_push pc)) = 1 + int (size (own_held pc))"
| "wcode_counted (V_run t) = 1"
| "wcode_counted V_dec = 1"
| "wcode_counted (V_steal start attempt victim q) = int (size (thief_held q))"
| "wcode_counted pc = int (size (own_held (owner_pc pc)))"

abbreviation wk_called :: "'t worker_ctx \<Rightarrow> 't multiset" where
  "wk_called k \<equiv> wcode_called (wk_code k)"

abbreviation wk_counted :: "'t worker_ctx \<Rightarrow> int" where
  "wk_counted k \<equiv> wcode_counted (wk_code k)"

fun inject_called :: "'t inject \<Rightarrow> 't multiset" where
  "inject_called (I_lock t) = {#t#}"
| "inject_called (I_add t) = {#t#}"
| "inject_called (I_push t) = {#t#}"
| "inject_called p = {#}"

fun inject_counted :: "'t inject \<Rightarrow> int" where
  "inject_counted (I_push t) = 1"
| "inject_counted p = 0"

fun wmain_called :: "'t wmain \<Rightarrow> 't multiset" where
  "wmain_called (X_submit p) = inject_called p"
| "wmain_called pc = {#}"

fun wmain_counted :: "'t wmain \<Rightarrow> int" where
  "wmain_counted (X_submit p) = inject_counted p"
| "wmain_counted pc = 0"

fun wmain_outside :: "'t wmain \<Rightarrow> bool" where
  "wmain_outside X_idle = True"
| "wmain_outside (X_submit p) = True"
| "wmain_outside pc = False"

fun wmain_building :: "'t wmain \<Rightarrow> bool" where
  "wmain_building X_clear = True"
| "wmain_building X_lock = True"
| "wmain_building (X_drain i) = True"
| "wmain_building X_unlock = True"
| "wmain_building pc = False"

lemma ws_counted_nonneg [simp]:
  "0 \<le> wcode_counted (pc :: 'a wcode)" "0 \<le> wmain_counted (m :: 'a wmain)"
proof -
  show "0 \<le> wcode_counted pc" by (cases pc rule: wcode_counted.cases) auto
  have "0 \<le> inject_counted p" for p :: "'a inject" by (cases p) auto
  then show "0 \<le> wmain_counted m" by (cases m) auto
qed

lemma wcode_uncounted: "wcode_counted pc = 0 \<Longrightarrow> wcode_called pc = {#} \<and> wcode_task pc = None"
  by (cases pc rule: wcode_counted.cases) auto

section \<open>The invariant\<close>

definition deque_tasks :: "'t ws \<Rightarrow> 't multiset" where
  "deque_tasks s = sum_over (\<lambda>i. adeque_content (dq_abs (ws_deques s ! i) (owner_at (ws_workers s) i)))
     [0..<length (ws_deques s)]"

definition ws_waiting :: "'t ws \<Rightarrow> 't list" where
  "ws_waiting s = (case ws_main s of X_drain i \<Rightarrow> drop i (ws_inject s) | _ \<Rightarrow> ws_inject s)"

definition ws_tasks :: "'t ws \<Rightarrow> 't multiset" where
  "ws_tasks s = deque_tasks s + mset (ws_waiting s)"

definition ws_running :: "'t worker_ctx list \<Rightarrow> nat \<Rightarrow> 't option" where
  "ws_running ks w = (if w < length ks then wcode_task (wk_code (ks ! w)) else None)"

definition ws_view :: "'t ws \<Rightarrow> 't sched_state" where
  "ws_view s = \<lparr>
     sp_queued = ws_tasks s + wmain_called (ws_main s) + sum_over wk_called (ws_workers s),
     sp_running = ws_running (ws_workers s),
     sp_phase = (if wmain_outside (ws_main s) then None else Some (ws_n s))\<rparr>"

text \<open>
  Worker \<open>i\<close> is the one owner of deque \<open>i\<close>, every other access to it is a steal, and each of
  them knows what \<open>Deque_Machine\<close> says it knows.
\<close>

definition deques_ok :: "'t dq list \<Rightarrow> 't worker_ctx list \<Rightarrow> bool" where
  "deques_ok ds ks \<longleftrightarrow> length ks \<le> length ds
     \<and> (\<forall>i < length ds. dq_ok (ds ! i) (owner_at ks i))
     \<and> (\<forall>k \<in> set ks. \<forall>start attempt v q. wk_code k = V_steal start attempt v q \<longrightarrow>
          v < length ds \<and> thief_ok (ds ! v) (climit (ds ! v) (owner_at ks v)) q)"

fun wmain_drained :: "'t wmain \<Rightarrow> nat \<Rightarrow> bool" where
  "wmain_drained (X_drain i) n = (i \<le> n)"
| "wmain_drained pc n = True"

definition ws_proto :: "'t ws \<Rightarrow> bool" where
  "ws_proto s \<longleftrightarrow> deques_ok (ws_deques s) (ws_workers s)
     \<and> length (ws_deques s) = (if wmain_outside (ws_main s) \<or> ws_main s = X_build then 0 else ws_n s)
     \<and> (wmain_building (ws_main s) \<longrightarrow> ws_workers s = [])
     \<and> wmain_drained (ws_main s) (length (ws_inject s))"

text \<open>
  \<^verbatim>\<open>pending_\<close> is the number of tasks in the deques and the injection queue, in the hands of
  a thread, or run and not yet counted off, plus \<open>e\<close> that other threads have added.
\<close>

definition ws_counts :: "int \<Rightarrow> 't ws \<Rightarrow> bool" where
  "ws_counts e s \<longleftrightarrow> ws_pending s = e + int (size (ws_tasks s)) + wmain_counted (ws_main s)
     + sum_over wk_counted (ws_workers s)"

definition ws_inv :: "'t ws \<Rightarrow> bool" where
  "ws_inv s \<longleftrightarrow> ws_proto s \<and> ws_counts 0 s
     \<and> (ws_main s = X_shut \<or> ws_main s = X_join \<longrightarrow> ws_pending s = 0)"

lemma ws_pending_zero:
  assumes "ws_counts 0 s" and "ws_pending s = 0"
  shows "ws_tasks s = {#}" and "k \<in> set (ws_workers s) \<Longrightarrow> wk_counted k = 0"
proof -
  have nn: "0 \<le> sum_over wk_counted (ws_workers s)" by (rule sum_over_nonneg) simp
  have m: "0 \<le> wmain_counted (ws_main s)" by simp
  have sum: "int (size (ws_tasks s)) + wmain_counted (ws_main s) + sum_over wk_counted (ws_workers s) = 0"
    using assms by (simp add: ws_counts_def)
  with nn m have "int (size (ws_tasks s)) = 0" by linarith
  then show "ws_tasks s = {#}" by simp
  from sum nn m have z: "sum_over wk_counted (ws_workers s) = 0" by linarith
  show "wk_counted k = 0" if "k \<in> set (ws_workers s)"
    using sum_over_member_le [of wk_counted k "ws_workers s"] that z by (simp add: antisym)
qed

section \<open>One thread moves\<close>

lemma owner_at_Nil [simp]: "owner_at [] i = OIdle"
  by (simp add: owner_at_def)

lemma owner_at_update:
  "w < length ks \<Longrightarrow> owner_at (ks[w := k]) i = (if i = w then owner_pc (wk_code k) else owner_at ks i)"
  by (auto simp: owner_at_def nth_list_update)

lemma deques_ok_thieves:
  "deques_ok ds ks \<Longrightarrow> k \<in> set ks \<Longrightarrow> wk_code k = V_steal start attempt v q \<Longrightarrow>
    v < length ds \<and> thief_ok (ds ! v) (climit (ds ! v) (owner_at ks v)) q"
  unfolding deques_ok_def by blast

lemma deques_ok_owners: "deques_ok ds ks \<Longrightarrow> i < length ds \<Longrightarrow> dq_ok (ds ! i) (owner_at ks i)"
  unfolding deques_ok_def by blast

lemma deques_ok_update:
  assumes ok: "deques_ok ds ks" and w: "w < length ks" and len: "length ds' = length ds"
    and same: "\<And>i. i < length ds \<Longrightarrow> dq_ok (ds' ! i) (owner_at (ks[w := k]) i)
      \<and> dq_evolves (ds ! i) (climit (ds ! i) (owner_at ks i)) (ds' ! i) (climit (ds' ! i) (owner_at (ks[w := k]) i))"
    and new: "\<And>start attempt v q. wk_code k = V_steal start attempt v q \<Longrightarrow>
      v < length ds \<and> thief_ok (ds' ! v) (climit (ds' ! v) (owner_at (ks[w := k]) v)) q"
  shows "deques_ok ds' (ks[w := k])"
proof -
  have "v < length ds \<and> thief_ok (ds' ! v) (climit (ds' ! v) (owner_at (ks[w := k]) v)) q"
    if j: "j \<in> set (ks[w := k])" "wk_code j = V_steal start attempt v q" for j start attempt v q
  proof (cases "j = k")
    case True
    with new j(2) show ?thesis by blast
  next
    case False
    then have "j \<in> set ks" using j(1) set_update_subset_insert [of ks w k] by blast
    with ok j(2) have old: "v < length ds" "thief_ok (ds ! v) (climit (ds ! v) (owner_at ks v)) q"
      by (auto simp: deques_ok_def)
    with same [OF old(1)] show ?thesis by (blast intro: thief_ok_evolves)
  qed
  then show ?thesis
    using ok same len by (auto simp: deques_ok_def)
qed

lemma deques_ok_owner:
  assumes ok: "deques_ok ds ks" and w: "w < length ks"
    and busy: "in_push pc \<or> in_pop pc" "owner_pc (wk_code (ks ! w)) = pc"
    and step: "owner_step (ds ! w) pc = (d', pc')"
    and new: "owner_pc (wk_code k) = pc'" "\<And>start attempt v q. wk_code k \<noteq> V_steal start attempt v q"
  shows "deques_ok (ds[w := d']) (ks[w := k])"
proof (rule deques_ok_update [OF ok w])
  have wd: "w < length ds" using ok w by (auto simp: deques_ok_def)
  have pc: "owner_at ks w = pc" using w busy(2) by (simp add: owner_at_def)
  then have "dq_ok (ds ! w) pc" using ok wd by (auto simp: deques_ok_def)
  note st = owner_step_ok [OF this busy(1) step]
  show "dq_ok (ds[w := d'] ! i) (owner_at (ks[w := k]) i)
      \<and> dq_evolves (ds ! i) (climit (ds ! i) (owner_at ks i)) (ds[w := d'] ! i)
          (climit (ds[w := d'] ! i) (owner_at (ks[w := k]) i))" if "i < length ds" for i
    using that ok st pc new(1) w by (cases "i = w") (auto simp: owner_at_update deques_ok_def)
qed (use new(2) in simp_all)

lemma deques_ok_thief:
  assumes ok: "deques_ok ds ks" and w: "w < length ks"
    and busy: "in_steal q" "wk_code (ks ! w) = V_steal start attempt v q"
    and step: "thief_step (ds ! v) q = (d', q')"
    and new: "wk_code k = V_steal start' attempt' v q'"
  shows "deques_ok (ds[v := d']) (ks[w := k])"
proof (rule deques_ok_update [OF ok w])
  have v: "v < length ds" "thief_ok (ds ! v) (climit (ds ! v) (owner_at ks v)) q" "dq_ok (ds ! v) (owner_at ks v)"
    using deques_ok_thieves [OF ok nth_mem [OF w] busy(2)] ok by (auto simp: deques_ok_def)
  note st = thief_step_ok [OF v(3,2) step busy(1)]
  have at: "owner_at (ks[w := k]) = owner_at ks"
    using w busy(2) new by (auto simp: fun_eq_iff owner_at_update) (auto simp: owner_at_def)
  show "dq_ok (ds[v := d'] ! i) (owner_at (ks[w := k]) i)
      \<and> dq_evolves (ds ! i) (climit (ds ! i) (owner_at ks i)) (ds[v := d'] ! i)
          (climit (ds[v := d'] ! i) (owner_at (ks[w := k]) i))" if "i < length ds" for i
    using that ok st v by (cases "i = v") (auto simp: at deques_ok_def)
  show "va < length ds \<and> thief_ok (ds[v := d'] ! va) (climit (ds[v := d'] ! va) (owner_at (ks[w := k]) va)) qa"
    if "wk_code k = V_steal s a va qa" for s a va qa
    using that new st v by (auto simp: at)
qed simp

text \<open>Code outside the operations: the deques are as they were.\<close>

definition owner_same :: "'t opc \<Rightarrow> 't opc \<Rightarrow> bool" where
  "owner_same pc pc' \<longleftrightarrow> (\<forall>d. dq_ok d pc' = dq_ok d pc \<and> climit d pc' = climit d pc \<and> dq_abs d pc' = dq_abs d pc)"

lemma owner_same_simps [simp]:
  "owner_same pc pc"
  "owner_same (PopRet r) OIdle"
  "owner_same OIdle Pop_bot"
  "owner_same OIdle (Push_bot x)"
  "owner_same PushRet OIdle"
  by (simp_all add: owner_same_def dq_ok_def dq_abs_def)

lemma deques_ok_same:
  assumes ok: "deques_ok ds ks" and w: "w < length ks"
    and same: "owner_same (owner_pc (wk_code (ks ! w))) (owner_pc (wk_code k))"
    and new: "\<And>start attempt v q. wk_code k = V_steal start attempt v q \<Longrightarrow> v < length ds \<and> q = Steal_top"
  shows "deques_ok ds (ks[w := k])"
proof (rule deques_ok_update [OF ok w])
  show "dq_ok (ds ! i) (owner_at (ks[w := k]) i)
      \<and> dq_evolves (ds ! i) (climit (ds ! i) (owner_at ks i)) (ds ! i)
          (climit (ds ! i) (owner_at (ks[w := k]) i))" if "i < length ds" for i
    using deques_ok_owners [OF ok that] same w
    by (cases "i = w") (simp_all add: owner_at_update owner_same_def, simp add: owner_at_def)
qed (use new in auto)

text \<open>The tasks in the deques, when one deque or its owner changes.\<close>

lemma sum_over_upt:
  fixes f :: "nat \<Rightarrow> 'm::comm_monoid_add"
  assumes "i < n" and "\<And>j. j < n \<Longrightarrow> j \<noteq> i \<Longrightarrow> f' j = f j"
  shows "sum_over f' [0..<n] + f i = sum_over f [0..<n] + f' i"
proof -
  have "map f' [0..<n] = (map f [0..<n])[i := f' i]"
    using assms by (auto simp: list_eq_iff_nth_eq nth_list_update)
  then have "sum_over f' [0..<n] = sum_over id ((map f [0..<n])[i := f' i])"
    by (simp add: sum_over_def)
  with sum_over_update [of i "map f [0..<n]" id "f' i"] assms(1) show ?thesis
    by (simp add: sum_over_def)
qed

lemma deque_tasks_update:
  assumes "i < length (ws_deques s)" and "length (ws_deques s') = length (ws_deques s)"
    and "\<And>j. j < length (ws_deques s) \<Longrightarrow> j \<noteq> i \<Longrightarrow>
      ws_deques s' ! j = ws_deques s ! j \<and> owner_at (ws_workers s') j = owner_at (ws_workers s) j"
    and "adeque_content (dq_abs (ws_deques s' ! i) (owner_at (ws_workers s') i)) + x
      = adeque_content (dq_abs (ws_deques s ! i) (owner_at (ws_workers s) i)) + y"
  shows "deque_tasks s' + x = deque_tasks s + y"
proof -
  let ?f = "\<lambda>s i. adeque_content (dq_abs (ws_deques s ! i) (owner_at (ws_workers s) i))"
  have "sum_over (?f s') [0..<length (ws_deques s)] + ?f s i
      = sum_over (?f s) [0..<length (ws_deques s)] + ?f s' i"
    using assms(1,3) by (intro sum_over_upt) auto
  from exchange_cancel [OF this, of x y] assms(2,4) show ?thesis
    by (simp add: deque_tasks_def ac_simps)
qed

definition ws_frame :: "'t ws \<Rightarrow> 't ws \<Rightarrow> bool" where
  "ws_frame s s' \<longleftrightarrow> ws_workers s' = ws_workers s \<and> ws_main s' = ws_main s \<and> ws_n s' = ws_n s
     \<and> ws_inject s' = ws_inject s"

lemma ws_frame_waiting: "ws_frame s s' \<Longrightarrow> ws_waiting (ws_set s' w pc b) = ws_waiting s"
  by (cases "ws_main s") (simp_all add: ws_frame_def ws_waiting_def ws_set_def)

lemma ws_frame_proto:
  assumes "ws_proto s" and "w < length (ws_workers s)" and "ws_frame s s'"
    and "length (ws_deques s') = length (ws_deques s)"
    and "deques_ok (ws_deques s') ((ws_workers s)[w := \<lparr>wk_code = pc, wk_backoff = b\<rparr>])"
  shows "ws_proto (ws_set s' w pc b)"
proof -
  have "ws_workers s \<noteq> []" using assms(2) by auto
  with assms show ?thesis by (auto simp: ws_proto_def ws_frame_def ws_set_def)
qed

lemma ws_at_facts:
  assumes "ws_proto s" and "ws_at s w pc b"
  shows "w < length (ws_workers s)" "w < length (ws_deques s)" "wk_code (ws_workers s ! w) = pc"
    "owner_at (ws_workers s) w = owner_pc pc" "deques_ok (ws_deques s) (ws_workers s)"
  using assms by (auto simp: ws_proto_def ws_at_def deques_ok_def owner_at_def)

lemma ws_move_same:
  assumes proto: "ws_proto s" and at: "ws_at s w pc b" and frame: "ws_frame s s'"
    and ds: "ws_deques s' = ws_deques s" and same: "owner_same (owner_pc pc) (owner_pc pc')"
    and new: "\<And>start attempt v q. pc' = V_steal start attempt v q \<Longrightarrow> v < length (ws_deques s) \<and> q = Steal_top"
  shows "ws_proto (ws_set s' w pc' b')" and "ws_tasks (ws_set s' w pc' b') = ws_tasks s"
proof -
  note f = ws_at_facts [OF proto at]
  have "deques_ok (ws_deques s) ((ws_workers s)[w := \<lparr>wk_code = pc', wk_backoff = b'\<rparr>])"
    by (rule deques_ok_same [OF f(5,1)]) (use f(3) same new in simp_all)
  then show "ws_proto (ws_set s' w pc' b')"
    using ds by (intro ws_frame_proto [OF proto f(1) frame]) simp_all
  have "deque_tasks (ws_set s' w pc' b') + {#} = deque_tasks s + {#}"
    by (rule deque_tasks_update [where i = w])
      (use f ds frame same in \<open>auto simp: ws_set_def owner_at_update ws_frame_def owner_same_def\<close>)
  then show "ws_tasks (ws_set s' w pc' b') = ws_tasks s"
    by (simp add: ws_tasks_def ws_frame_waiting [OF frame])
qed

lemma ws_move_owner:
  assumes proto: "ws_proto s" and at: "ws_at s w pc b" and frame: "ws_frame s s'"
    and busy: "in_push (owner_pc pc) \<or> in_pop (owner_pc pc)"
    and step: "owner_step (ws_deques s ! w) (owner_pc pc) = (d, owner_pc pc')"
    and ds: "ws_deques s' = (ws_deques s)[w := d]"
    and new: "\<And>start attempt v q. pc' \<noteq> V_steal start attempt v q"
  shows "ws_proto (ws_set s' w pc' b')"
    and "ws_tasks (ws_set s' w pc' b') + own_held (owner_pc pc') = ws_tasks s + own_held (owner_pc pc)"
proof -
  note f = ws_at_facts [OF proto at]
  have "deques_ok ((ws_deques s)[w := d]) ((ws_workers s)[w := \<lparr>wk_code = pc', wk_backoff = b'\<rparr>])"
    by (rule deques_ok_owner [OF f(5,1) busy _ step]) (use f(3) new in simp_all)
  then show "ws_proto (ws_set s' w pc' b')"
    using ds by (intro ws_frame_proto [OF proto f(1) frame]) simp_all
  have "dq_ok (ws_deques s ! w) (owner_pc pc)" using deques_ok_owners [OF f(5,2)] f(4) by simp
  note held = owner_step_held [OF this busy step]
  have "deque_tasks (ws_set s' w pc' b') + own_held (owner_pc pc') = deque_tasks s + own_held (owner_pc pc)"
    by (rule deque_tasks_update [where i = w])
      (use f ds frame held in \<open>auto simp: ws_set_def owner_at_update ws_frame_def\<close>)
  then show "ws_tasks (ws_set s' w pc' b') + own_held (owner_pc pc') = ws_tasks s + own_held (owner_pc pc)"
    by (simp add: ws_tasks_def ws_frame_waiting [OF frame] ac_simps)
qed

lemma ws_move_thief:
  assumes proto: "ws_proto s" and at: "ws_at s w (V_steal start attempt v q) b" and frame: "ws_frame s s'"
    and busy: "in_steal q" and step: "thief_step (ws_deques s ! v) q = (d, q')"
    and ds: "ws_deques s' = (ws_deques s)[v := d]"
  shows "ws_proto (ws_set s' w (V_steal start attempt v q') b')"
    and "ws_tasks (ws_set s' w (V_steal start attempt v q') b') + thief_held q' = ws_tasks s + thief_held q"
proof -
  note f = ws_at_facts [OF proto at]
  have "deques_ok ((ws_deques s)[v := d]) ((ws_workers s)[w := \<lparr>wk_code = V_steal start attempt v q', wk_backoff = b'\<rparr>])"
    by (rule deques_ok_thief [OF f(5,1) busy f(3) step]) simp
  then show "ws_proto (ws_set s' w (V_steal start attempt v q') b')"
    using ds by (intro ws_frame_proto [OF proto f(1) frame]) simp_all
  have v: "v < length (ws_deques s)" "thief_ok (ws_deques s ! v) (climit (ws_deques s ! v) (owner_at (ws_workers s) v)) q"
    using deques_ok_thieves [OF f(5) nth_mem [OF f(1)] f(3)] by auto
  note held = thief_step_held [OF deques_ok_owners [OF f(5) v(1)] v(2) busy step]
  have own: "owner_at ((ws_workers s)[w := \<lparr>wk_code = V_steal start attempt v q', wk_backoff = b'\<rparr>]) j
      = owner_at (ws_workers s) j" for j
    using f by (auto simp: owner_at_update)
  have "deque_tasks (ws_set s' w (V_steal start attempt v q') b') + thief_held q' = deque_tasks s + thief_held q"
    by (rule deque_tasks_update [where i = v])
      (use v ds frame held own in \<open>auto simp: ws_set_def ws_frame_def\<close>)
  then show "ws_tasks (ws_set s' w (V_steal start attempt v q') b') + thief_held q' = ws_tasks s + thief_held q"
    by (simp add: ws_tasks_def ws_frame_waiting [OF frame] ac_simps)
qed

lemma ws_running_Nil [simp]: "ws_running [] = (\<lambda>_. None)"
  by (simp add: ws_running_def fun_eq_iff)

lemma ws_running_update:
  "w < length ks \<Longrightarrow> ws_running (ks[w := k]) = (ws_running ks)(w := wcode_task (wk_code k))"
  by (auto simp: ws_running_def fun_eq_iff nth_list_update)

lemma ws_running_spawn: "ws_running (ks @ [wk_new]) = ws_running ks"
  by (auto simp: ws_running_def wk_new_def fun_eq_iff nth_append)

text \<open>The books after a worker's move.\<close>

definition worker_move where
  "worker_move s s' w pc pc' b b' x y \<longleftrightarrow>
     ws_at s w pc b \<and> ws_frame s s' \<and> ws_proto (ws_set s' w pc' b')
     \<and> ws_tasks (ws_set s' w pc' b') + wcode_called pc' + x = ws_tasks s + wcode_called pc + y
     \<and> ws_pending s' - int (size (ws_tasks (ws_set s' w pc' b'))) - wcode_counted pc'
         = ws_pending s - int (size (ws_tasks s)) - wcode_counted pc
     \<and> (wcode_counted pc = 0 \<longrightarrow> ws_pending s' = ws_pending s)"

lemma move_counts:
  assumes move: "worker_move s s' w pc pc' b b' x y" and "ws_counts e s"
  shows "ws_counts e (ws_set s' w pc' b')"
proof -
  have len: "w < length (ws_workers s)" and code: "wk_code (ws_workers s ! w) = pc" and frame: "ws_frame s s'"
    using move by (auto simp: worker_move_def ws_at_def)
  have "ws_pending s = e + int (size (ws_tasks s)) + wmain_counted (ws_main s) + sum_over wk_counted (ws_workers s)"
    using assms(2) by (simp add: ws_counts_def)
  moreover have "sum_over wk_counted ((ws_workers s)[w := \<lparr>wk_code = pc', wk_backoff = b'\<rparr>])
      = sum_over wk_counted (ws_workers s) + wcode_counted pc' - wcode_counted pc"
    using sum_over_update_int [OF len, of wk_counted] code by simp
  moreover have "ws_pending s' - int (size (ws_tasks (ws_set s' w pc' b'))) - wcode_counted pc'
         = ws_pending s - int (size (ws_tasks s)) - wcode_counted pc"
    using move by (simp add: worker_move_def)
  ultimately have "ws_pending s' = e + int (size (ws_tasks (ws_set s' w pc' b'))) + wmain_counted (ws_main s)
      + sum_over wk_counted ((ws_workers s)[w := \<lparr>wk_code = pc', wk_backoff = b'\<rparr>])"
    by linarith
  with frame show ?thesis by (simp add: ws_counts_def ws_frame_def ws_set_def)
qed

lemma move_inv:
  assumes move: "worker_move s s' w pc pc' b b' x y" and inv: "ws_inv s"
  shows "ws_inv (ws_set s' w pc' b')"
proof -
  have len: "w < length (ws_workers s)" and code: "wk_code (ws_workers s ! w) = pc" and frame: "ws_frame s s'"
    using move by (auto simp: worker_move_def ws_at_def)
  have "ws_pending s' = 0" if m: "ws_main s = X_shut \<or> ws_main s = X_join"
  proof -
    have p0: "ws_pending s = 0" using inv m by (auto simp: ws_inv_def)
    have "wk_counted (ws_workers s ! w) = 0"
      using inv p0 by (intro ws_pending_zero(2)) (auto simp: ws_inv_def len)
    with move p0 code show ?thesis by (simp add: worker_move_def)
  qed
  with inv move_counts [OF move, of 0] move frame show ?thesis
    by (auto simp: ws_inv_def ws_set_def ws_frame_def worker_move_def)
qed

lemma move_view:
  assumes move: "worker_move s s' w pc pc' b b' x y"
  shows "sp_queued (ws_view (ws_set s' w pc' b')) + x = sp_queued (ws_view s) + y"
    and "sp_running (ws_view (ws_set s' w pc' b')) = (sp_running (ws_view s))(w := wcode_task pc')"
    and "sp_running (ws_view s) w = wcode_task pc"
    and "sp_phase (ws_view (ws_set s' w pc' b')) = sp_phase (ws_view s)"
proof -
  have len: "w < length (ws_workers s)" and code: "wk_code (ws_workers s ! w) = pc" and frame: "ws_frame s s'"
    using move by (auto simp: worker_move_def ws_at_def)
  obtain rest where rest: "sum_over wk_called (ws_workers s) = wcode_called pc + rest"
    "sum_over wk_called ((ws_workers s)[w := \<lparr>wk_code = pc', wk_backoff = b'\<rparr>]) = wcode_called pc' + rest"
    using sum_over_split [OF len, of wk_called] code by force
  have "ws_tasks (ws_set s' w pc' b') + wcode_called pc' + x = ws_tasks s + wcode_called pc + y"
    using move by (simp add: worker_move_def)
  then have "ws_tasks (ws_set s' w pc' b') + wcode_called pc' + x + (wmain_called (ws_main s) + rest)
      = ws_tasks s + wcode_called pc + y + (wmain_called (ws_main s) + rest)"
    by simp
  moreover have same: "ws_workers (ws_set s' w pc' b') = (ws_workers s)[w := \<lparr>wk_code = pc', wk_backoff = b'\<rparr>]"
    "ws_main (ws_set s' w pc' b') = ws_main s" "ws_n (ws_set s' w pc' b') = ws_n s"
    using frame by (simp_all add: ws_set_def ws_frame_def)
  ultimately show "sp_queued (ws_view (ws_set s' w pc' b')) + x = sp_queued (ws_view s) + y"
    by (simp add: ws_view_def rest ac_simps)
  show "sp_running (ws_view (ws_set s' w pc' b')) = (sp_running (ws_view s))(w := wcode_task pc')"
    "sp_phase (ws_view (ws_set s' w pc' b')) = sp_phase (ws_view s)"
    using same len by (simp_all add: ws_view_def ws_running_update)
  show "sp_running (ws_view s) w = wcode_task pc"
    using len code by (simp add: ws_view_def ws_running_def)
qed

lemma move_tau:
  assumes move: "worker_move s s' w pc pc' b b' {#} {#}" and "wcode_task pc' = wcode_task pc"
  shows "ws_view (ws_set s' w pc' b') = ws_view s"
  using move_view [OF move] assms(2) by (intro sched_state.equality) (auto simp: fun_eq_iff)

lemma move_same:
  assumes proto: "ws_proto s" and at: "ws_at s w pc b" and frame: "ws_frame s s'"
    and ds: "ws_deques s' = ws_deques s" and same: "owner_same (owner_pc pc) (owner_pc pc')"
    and new: "\<And>start attempt v q. pc' = V_steal start attempt v q \<Longrightarrow> v < length (ws_deques s) \<and> q = Steal_top"
    and held: "wcode_called pc' + x = wcode_called pc + y"
    and pending: "ws_pending s' - wcode_counted pc' = ws_pending s - wcode_counted pc"
    and zero: "wcode_counted pc = 0 \<Longrightarrow> ws_pending s' = ws_pending s"
  shows "worker_move s s' w pc pc' b b' x y"
proof -
  note move = ws_move_same [OF proto at frame ds same new, where b' = b']
  have "ws_tasks s + (wcode_called pc' + x) = ws_tasks s + (wcode_called pc + y)" using held by simp
  with move at frame pending zero show ?thesis by (simp add: worker_move_def add.assoc)
qed

lemma pick_victim_less: "0 < n \<Longrightarrow> pick_victim n me start attempt < n"
  by (simp add: pick_victim_def Let_def)

lemma spawn_step_move:
  assumes proto: "ws_proto s" and at: "ws_at s w (V_submit t p) b" and step: "spawn_step w s p = Some (s', p')"
  shows "worker_move s s' w (V_submit t p) (V_submit t p') b b {#} {#}"
proof (cases p)
  case (A_add u)
  with step have s': "s' = s\<lparr>ws_pending := ws_pending s + 1\<rparr>" "p' = A_push (Push_bot u)" by auto
  show ?thesis
    by (rule move_same [OF proto at]) (use s' A_add in \<open>simp_all add: ws_frame_def\<close>)
next
  case (A_push pc)
  then have busy: "in_push pc" using step by (simp split: if_splits)
  obtain d pc' where st: "owner_step (ws_deques s ! w) pc = (d, pc')" by fastforce
  with step A_push busy have s': "s' = set_deque s w d" "p' = A_push pc'" by auto
  have frame: "ws_frame s s'" by (simp add: s' ws_frame_def set_deque_def)
  note move = ws_move_owner [OF proto at frame, of d "V_submit t p'", where b' = b]
  have "ws_proto (ws_set s' w (V_submit t p') b)"
    "ws_tasks (ws_set s' w (V_submit t p') b) + own_held pc' = ws_tasks s + own_held pc"
    using move st busy A_push s' by (simp_all add: set_deque_def)
  moreover from this(2) have "size (ws_tasks (ws_set s' w (V_submit t p') b)) + size (own_held pc')
      = size (ws_tasks s) + size (own_held pc)" by (metis size_union)
  ultimately show ?thesis
    using at frame A_push s' by (simp add: worker_move_def set_deque_def)
qed

lemma worker_step_move:
  assumes proto: "ws_proto s" and at: "ws_at s w pc b"
    and step: "ws_worker_step r w s b pc = Some (s', pc', b')"
  shows "worker_move s s' w pc pc' b b' {#} {#} \<and> wcode_task pc' = wcode_task pc"
proof (cases pc)
  case (V_pop c)
  show ?thesis
  proof (cases "in_pop c")
    case True
    obtain d c' where st: "owner_step (ws_deques s ! w) c = (d, c')" by fastforce
    with step V_pop True have s': "s' = set_deque s w d" "pc' = V_pop c'" by auto
    have frame: "ws_frame s s'" by (simp add: s' ws_frame_def set_deque_def)
    note move = ws_move_owner [OF proto at frame, of d "V_pop c'", where b' = b']
    have "ws_proto (ws_set s' w (V_pop c') b')"
      "ws_tasks (ws_set s' w (V_pop c') b') + own_held c' = ws_tasks s + own_held c"
      using move st True V_pop s' by (simp_all add: set_deque_def)
    moreover from this(2) have "size (ws_tasks (ws_set s' w (V_pop c') b')) + size (own_held c')
        = size (ws_tasks s) + size (own_held c)" by (metis size_union)
    ultimately show ?thesis
      using at frame V_pop s' by (simp add: worker_move_def set_deque_def)
  next
    case False
    with step V_pop have "c = PopRet None" "s' = s" "pc' = V_pending"
      by (auto split: opc.splits option.splits)
    then show ?thesis
      using move_same [OF proto at, of s V_pending] V_pop by (simp add: ws_frame_def)
  qed
next
  case (V_submit t p)
  with step obtain p' where "spawn_step w s p = Some (s', p')" "pc' = V_submit t p'" "b' = b"
    by (auto split: option.splits)
  with spawn_step_move [OF proto at [unfolded V_submit]] V_submit show ?thesis by simp
next
  case (V_steal start attempt v q)
  show ?thesis
  proof (cases "in_steal q")
    case True
    obtain d q' where st: "thief_step (ws_deques s ! v) q = (d, q')" by fastforce
    with step V_steal True have s': "s' = set_deque s v d" "pc' = V_steal start attempt v q'" by auto
    have frame: "ws_frame s s'" by (simp add: s' ws_frame_def set_deque_def)
    note move = ws_move_thief [OF proto at [unfolded V_steal] frame True st, where b' = b']
    have "ws_proto (ws_set s' w pc' b')" "ws_tasks (ws_set s' w pc' b') + thief_held q' = ws_tasks s + thief_held q"
      using move s' by (simp_all add: set_deque_def)
    moreover from this(2) have "size (ws_tasks (ws_set s' w pc' b')) + size (thief_held q')
        = size (ws_tasks s) + size (thief_held q)" by (metis size_union)
    ultimately show ?thesis
      using at frame V_steal s' by (simp add: worker_move_def set_deque_def)
  next
    case False
    then obtain res where q: "q = StealRet res" "res_task res = None" "s' = s" "pc' = V_next start (attempt + 1)"
      using step V_steal by (cases q) (auto split: option.splits)
    show ?thesis
      using move_same [OF proto at, of s pc'] V_steal q by (simp add: ws_frame_def)
  qed
next
  case V_dec
  with step have s': "s' = s\<lparr>ws_pending := ws_pending s - 1\<rparr>" "pc' = V_exit \<or> pc' = V_pop Pop_bot"
    by (auto simp: Let_def split: if_splits)
  then show ?thesis
    using move_same [OF proto at, of s' pc'] V_dec by (auto simp: ws_frame_def)
next
  case (V_next start attempt)
  with step have s': "s' = s" "pc' = V_yield 0 \<or>
      pc' = V_steal start attempt (pick_victim (length (ws_deques s)) w start attempt) Steal_top"
    by (auto split: if_splits)
  have "w < length (ws_deques s)" using ws_at_facts(2) [OF proto at] .
  then have "pick_victim (length (ws_deques s)) w start attempt < length (ws_deques s)"
    by (intro pick_victim_less) auto
  with s' show ?thesis
    using move_same [OF proto at, of s pc'] V_next by (auto simp: ws_frame_def)
qed (use step move_same [OF proto at, of s pc'] in \<open>auto simp: ws_frame_def split: if_splits\<close>)

section \<open>The thread in run\<close>

lemma dq_ok_idle: "dq_ok d OIdle \<longleftrightarrow> dq_inv d \<and> None \<notin> set (dq_list d)"
proof -
  have "set (dq_list d) = circ_get (live_array d) ` {i. dtop d \<le> i \<and> i < dbot d}"
    by (auto simp: dq_list_def items_def)
  then have "None \<notin> set (dq_list d) \<longleftrightarrow> (\<forall>i. dtop d \<le> i \<and> i < dbot d \<longrightarrow> circ_get (live_array d) i \<noteq> None)"
    by (metis (mono_tags, lifting) image_iff mem_Collect_eq)
  then show ?thesis by (auto simp: dq_ok_def dq_inv_def)
qed

lemma idle_content: "adeque_content (dq_abs d OIdle) = mset (map the (dq_list d))"
  by (simp add: adeque_content_def dq_abs_def dq_list_def)

lemma dq_ok_new: "dq_ok dq_new OIdle" and new_content: "adeque_content (dq_abs dq_new OIdle) = {#}"
  by (simp_all add: dq_ok_idle idle_content dq_inv_new dq_list_new)

lemma dq_push_idle:
  "dq_ok d OIdle \<Longrightarrow> dq_ok (dq_push d (Some t)) OIdle
    \<and> adeque_content (dq_abs (dq_push d (Some t)) OIdle) = add_mset t (adeque_content (dq_abs d OIdle))"
  using dq_push_refines [of d "Some t"] by (auto simp: dq_ok_idle idle_content)

lemma deque_tasks_Nil: "ws_deques s = [] \<Longrightarrow> deque_tasks s = {#}"
  by (simp add: deque_tasks_def)

lemma deque_tasks_cong:
  assumes "ws_deques s' = ws_deques s" and "\<And>i. owner_at (ws_workers s') i = owner_at (ws_workers s) i
    \<or> owner_same (owner_at (ws_workers s) i) (owner_at (ws_workers s') i)"
  shows "deque_tasks s' = deque_tasks s"
proof -
  have "dq_abs d (owner_at (ws_workers s') i) = dq_abs d (owner_at (ws_workers s) i)" for d :: "'a dq" and i
    using assms(2) [of i] by (auto simp: owner_same_def)
  then show ?thesis by (simp add: deque_tasks_def assms(1))
qed

lemma deques_ok_drain:
  assumes "deques_ok ds []" and "ds \<noteq> []"
  shows "deques_ok (ds[0 := dq_push (ds ! 0) (Some t)]) []"
  using assms dq_push_idle [of "ds ! 0" t] by (auto simp: deques_ok_def nth_list_update)

lemma deque_tasks_drain:
  assumes "ws_workers s = []" and "deques_ok (ws_deques s) []" and "ws_deques s \<noteq> []"
  shows "deque_tasks (set_deque s 0 (dq_push (ws_deques s ! 0) (Some t))) = add_mset t (deque_tasks s)"
proof -
  have "deque_tasks (set_deque s 0 (dq_push (ws_deques s ! 0) (Some t))) + {#} = deque_tasks s + {#t#}"
    by (rule deque_tasks_update [where i = 0])
      (use assms dq_push_idle [of "ws_deques s ! 0" t] in \<open>auto simp: set_deque_def deques_ok_def\<close>)
  then show ?thesis by simp
qed

lemma owner_at_spawn: "owner_same (owner_at ks i) (owner_at (ks @ [wk_new]) i)"
  by (auto simp: owner_at_def nth_append wk_new_def)

lemma deques_ok_spawn:
  assumes "deques_ok ds ks" and "length ks < length ds"
  shows "deques_ok ds (ks @ [wk_new])"
proof -
  have same: "dq_ok d (owner_at (ks @ [wk_new]) i) = dq_ok d (owner_at ks i)"
    "climit d (owner_at (ks @ [wk_new]) i) = climit d (owner_at ks i)" for d :: "'a dq" and i
    using owner_at_spawn [of ks i] unfolding owner_same_def by blast+
  show ?thesis
    using assms by (auto simp: deques_ok_def same) (auto simp: wk_new_def)
qed

text \<open>\<open>main\<close>'s own steps change no promise: the view stays the same.\<close>

definition main_move :: "'t ws \<Rightarrow> 't ws \<Rightarrow> bool" where
  "main_move s s' \<longleftrightarrow> ws_proto s' \<and> ws_view s' = ws_view s \<and> (\<forall>e. ws_counts e s \<longrightarrow> ws_counts e s')"

lemma main_move_idle:
  assumes "ws_proto s" and "ws_proto s'" and "ws_deques s' = ws_deques s" and "ws_workers s' = ws_workers s"
    and "ws_n s' = ws_n s" and "wmain_outside (ws_main s') = wmain_outside (ws_main s)"
    and "mset (ws_waiting s') + wmain_called (ws_main s') = mset (ws_waiting s) + wmain_called (ws_main s)"
    and "ws_pending s' - int (length (ws_waiting s')) - wmain_counted (ws_main s')
      = ws_pending s - int (length (ws_waiting s)) - wmain_counted (ws_main s)"
  shows "main_move s s'"
proof -
  have "deque_tasks s' = deque_tasks s" using assms(3,4) by (intro deque_tasks_cong) simp_all
  moreover have "deque_tasks s + (mset (ws_waiting s') + wmain_called (ws_main s'))
      = deque_tasks s + (mset (ws_waiting s) + wmain_called (ws_main s))"
    by (simp only: assms(7))
  ultimately show ?thesis
    using assms by (auto simp: main_move_def ws_view_def ws_counts_def ws_tasks_def ac_simps)
qed

lemma proto_outside:
  "ws_proto s \<Longrightarrow> wmain_outside (ws_main s) \<or> ws_main s = X_build \<Longrightarrow> ws_deques s = [] \<and> ws_workers s = []"
  by (auto simp: ws_proto_def deques_ok_def)

lemma build_move:
  assumes proto: "ws_proto s" and m: "ws_main s = X_build"
  shows "main_move s (s\<lparr>ws_deques := replicate (ws_n s) dq_new, ws_main := X_clear\<rparr>)"
proof -
  let ?s = "s\<lparr>ws_deques := replicate (ws_n s) dq_new, ws_main := X_clear\<rparr>"
  have none: "ws_deques s = []" "ws_workers s = []" using proto_outside [OF proto] m by auto
  have "deque_tasks ?s = {#}" unfolding deque_tasks_def
    by (rule sum_over_zero) (use none in \<open>auto simp: new_content\<close>)
  moreover have "deque_tasks s = {#}" using none by (simp add: deque_tasks_Nil)
  ultimately show ?thesis
    using none m by (auto simp: main_move_def ws_proto_def ws_view_def ws_counts_def ws_tasks_def ws_waiting_def
        deques_ok_def dq_ok_new)
qed

lemma drain_move:
  assumes proto: "ws_proto s" and m: "ws_main s = X_drain i" and i: "i < length (ws_inject s)" and ne: "ws_deques s \<noteq> []"
  shows "main_move s ((set_deque s 0 (dq_push (ws_deques s ! 0) (Some (ws_inject s ! i))))\<lparr>ws_main := X_drain (i + 1)\<rparr>)"
    (is "main_move s ?s")
proof -
  have none: "ws_workers s = []" "deques_ok (ws_deques s) []" using proto m by (auto simp: ws_proto_def)
  have "deque_tasks ?s = deque_tasks (set_deque s 0 (dq_push (ws_deques s ! 0) (Some (ws_inject s ! i))))"
    by (rule deque_tasks_cong) simp_all
  then have tasks: "deque_tasks ?s = add_mset (ws_inject s ! i) (deque_tasks s)"
    by (simp only: deque_tasks_drain [OF none ne])
  have wait: "ws_waiting s = ws_inject s ! i # ws_waiting ?s"
    using i m by (simp add: ws_waiting_def set_deque_def Cons_nth_drop_Suc)
  have "ws_proto ?s"
    using proto m i none deques_ok_drain [OF none(2) ne] by (auto simp: ws_proto_def set_deque_def)
  moreover have "ws_tasks ?s = ws_tasks s" unfolding ws_tasks_def tasks wait by simp
  ultimately show ?thesis
    using m none by (auto simp: main_move_def ws_view_def ws_counts_def set_deque_def)
qed

lemma spawn_move:
  assumes proto: "ws_proto s" and m: "ws_main s = X_spawn" and l: "length (ws_workers s) < ws_n s"
  shows "main_move s (s\<lparr>ws_workers := ws_workers s @ [wk_new], ws_main := X_spawn\<rparr>)" (is "main_move s ?s")
proof -
  have "deque_tasks ?s = deque_tasks s"
    by (rule deque_tasks_cong) (simp_all add: owner_at_spawn)
  then have "ws_tasks ?s = ws_tasks s" using m by (simp add: ws_tasks_def ws_waiting_def)
  moreover have "ws_proto ?s"
    using proto m l by (auto simp: ws_proto_def intro: deques_ok_spawn)
  ultimately show ?thesis
    using m by (auto simp: main_move_def ws_view_def ws_counts_def ws_running_spawn) (auto simp: wk_new_def)
qed

lemma main_step_move:
  assumes proto: "ws_proto s" and step: "ws_main_step s (ws_main s) = Some (s', pc)"
  shows "main_move s (s'\<lparr>ws_main := pc\<rparr>)"
proof (cases "ws_main s")
  case (X_submit p)
  then obtain p' where p': "inject_step s p = Some (s', p')" "pc = X_submit p'"
    using step by (auto split: option.splits)
  have books: "ws_deques s' = ws_deques s" "ws_workers s' = ws_workers s" "ws_n s' = ws_n s"
    "mset (ws_inject s') + inject_called p' = mset (ws_inject s) + inject_called p"
    "ws_pending s' - int (length (ws_inject s')) - inject_counted p'
      = ws_pending s - int (length (ws_inject s)) - inject_counted p"
    using p'(1) by (cases p; auto split: if_splits)+
  show ?thesis
    by (rule main_move_idle [OF proto])
      (use p'(2) X_submit proto books in \<open>auto simp: ws_proto_def ws_waiting_def\<close>)
next
  case X_build
  with step build_move [OF proto] show ?thesis by auto
next
  case (X_drain i)
  show ?thesis
  proof (cases "i < length (ws_inject s)")
    case True
    with drain_move [OF proto X_drain] step X_drain show ?thesis by (auto split: if_splits)
  next
    case False
    then have "i = length (ws_inject s)" using proto X_drain by (simp add: ws_proto_def)
    with False step X_drain proto show ?thesis
      by (intro main_move_idle) (auto simp: ws_proto_def ws_waiting_def)
  qed
next
  case X_spawn
  show ?thesis
  proof (cases "length (ws_workers s) < ws_n s")
    case True
    with spawn_move [OF proto X_spawn] step X_spawn show ?thesis by auto
  next
    case False
    with step X_spawn proto show ?thesis by (intro main_move_idle) (auto simp: ws_proto_def ws_waiting_def)
  qed
qed (use step proto in \<open>intro main_move_idle; auto simp: ws_proto_def ws_waiting_def split: if_splits\<close>)+

section \<open>Every step keeps the invariant and the promise\<close>

definition ws_good :: "'t ws \<Rightarrow> 't slabel \<Rightarrow> 't ws \<Rightarrow> bool" where
  "ws_good s l s' \<longleftrightarrow> ws_inv s' \<and> sched_spec (ws_view s) l (ws_view s')"

lemma ws_counts_nonneg: "ws_counts e s \<Longrightarrow> e \<le> ws_pending s"
  by (simp add: ws_counts_def sum_over_nonneg add_nonneg_nonneg)

lemma ws_main_good:
  assumes inv: "ws_inv s" and step: "ws_main_step s (ws_main s) = Some (s', pc)"
  shows "ws_good s STau (s'\<lparr>ws_main := pc\<rparr>)"
proof -
  have proto: "ws_proto s" and counts: "ws_counts 0 s" using inv by (auto simp: ws_inv_def)
  note move = main_step_move [OF proto step]
  have "ws_pending s' = 0" if "pc = X_shut \<or> pc = X_join"
    using that step inv ws_counts_nonneg [OF counts]
    by (cases "ws_main s") (auto simp: ws_inv_def split: if_splits option.splits)
  with move counts show ?thesis by (auto simp: ws_good_def ws_inv_def main_move_def sched_spec_simps)
qed

text \<open>A move of a worker that its user sees: the deques and counters stay as they are.\<close>

lemma label_move:
  assumes proto: "ws_proto s" and at: "ws_at s w pc b"
    and same: "owner_same (owner_pc pc) (owner_pc pc')" "\<And>start attempt v q. pc' \<noteq> V_steal start attempt v q"
    and held: "wcode_called pc' + x = wcode_called pc + y" and counted: "wcode_counted pc' = wcode_counted pc"
  shows "worker_move s s w pc pc' b b x y"
  by (rule move_same) (use assms in \<open>simp_all add: ws_frame_def\<close>)

text \<open>What a step is: a move of a worker, of \<open>run\<close>'s thread, or a call or return of its user.\<close>

definition move_spec :: "'t ws \<Rightarrow> 't slabel \<Rightarrow> nat \<Rightarrow> 't wcode \<Rightarrow> 't wcode \<Rightarrow> 't multiset \<Rightarrow> 't multiset \<Rightarrow> bool" where
  "move_spec s l w pc pc' x y \<longleftrightarrow>
     l = STau \<and> x = {#} \<and> y = {#} \<and> wcode_task pc' = wcode_task pc
     \<or> (\<exists>t. l = SStart w t \<and> x = {#t#} \<and> y = {#} \<and> wcode_task pc = None \<and> wcode_task pc' = Some t)
     \<or> (\<exists>u. l = SCall (Worker w) u \<and> x = {#} \<and> y = {#u#} \<and> wcode_task pc \<noteq> None \<and> wcode_task pc' = wcode_task pc)
     \<or> l = SRet (Worker w) \<and> x = {#} \<and> y = {#} \<and> wcode_task pc' = wcode_task pc
     \<or> (\<exists>t. l = SFinish w t \<and> x = {#} \<and> y = {#} \<and> wcode_task pc = Some t \<and> wcode_task pc' = None)"

lemma ws_step_move:
  assumes proto: "ws_proto s" and "ws_step s l s'"
  obtains (worker) s1 w pc pc' b b' x y where "worker_move s s1 w pc pc' b b' x y" "s' = ws_set s1 w pc' b'"
      "move_spec s l w pc pc' x y"
    | (main) s1 pc where "l = STau" "ws_main_step s (ws_main s) = Some (s1, pc)" "s' = s1\<lparr>ws_main := pc\<rparr>"
    | (call) t where "l = SCall Main t" "ws_main s = X_idle" "s' = s\<lparr>ws_main := X_submit (I_lock t)\<rparr>"
    | (return) "l = SRet Main" "ws_main s = X_submit I_done" "s' = s\<lparr>ws_main := X_idle\<rparr>"
    | (run_call) n where "l = SRunCall n" "ws_main s = X_idle" "s' = s\<lparr>ws_main := X_build, ws_n := n\<rparr>"
    | (run_return) "l = SRunRet" "ws_main s = X_join" "list_all (\<lambda>k. wk_code k = V_exit) (ws_workers s)"
      "s' = s\<lparr>ws_main := X_idle, ws_workers := [], ws_deques := []\<rparr>"
  using assms(2)
proof cases
  case (worker w pc b r s1 pc' b')
  from worker_step_move [OF proto worker(3,4)] worker(1,2) show ?thesis
    by (intro that(1) [of s1 w pc pc' b b' "{#}" "{#}"]) (auto simp: move_spec_def)
next
  case (take_own w t b)
  have "worker_move s s w (V_pop (PopRet (Some t))) (V_run t) b b {#t#} {#}"
    by (rule label_move [OF proto take_own(3)]) simp_all
  with take_own(1,2) show ?thesis by (intro that(1)) (auto simp: move_spec_def)
next
  case (take_stolen w start attempt victim res b t)
  have "worker_move s s w (V_steal start attempt victim (StealRet res)) (V_run t) b b {#t#} {#}"
    by (rule label_move [OF proto take_stolen(3)]) (use take_stolen(4) in simp_all)
  with take_stolen(1,2) show ?thesis by (intro that(1)) (auto simp: move_spec_def)
next
  case (task_call w t b u)
  have "worker_move s s w (V_run t) (V_submit t (A_add u)) b b {#} {#u#}"
    by (rule label_move [OF proto task_call(3)]) simp_all
  with task_call(1,2) show ?thesis by (intro that(1)) (auto simp: move_spec_def)
next
  case (task_return w t b)
  have "worker_move s s w (V_submit t (A_push PushRet)) (V_run t) b b {#} {#}"
    by (rule label_move [OF proto task_return(3)]) simp_all
  then show ?thesis by (rule that(1)) (simp_all add: task_return(1,2) move_spec_def)
next
  case (task_finish w t b)
  have "worker_move s s w (V_run t) V_dec b b {#} {#}"
    by (rule label_move [OF proto task_finish(3)]) simp_all
  with task_finish(1,2) show ?thesis by (intro that(1)) (auto simp: move_spec_def)
qed (use that(2-6) in blast)+

lemma move_good:
  assumes inv: "ws_inv s" and move: "worker_move s s1 w pc pc' b b' x y" and spec: "move_spec s l w pc pc' x y"
  shows "ws_good s l (ws_set s1 w pc' b')"
proof -
  note view = move_view [OF move]
  have "w < length (ws_workers s)" using move by (simp add: worker_move_def ws_at_def)
  then have phase: "sp_phase (ws_view s) = Some (ws_n s)" "w < ws_n s"
    using inv by (auto simp: ws_view_def ws_inv_def ws_proto_def deques_ok_def split: if_splits)
  have "sched_spec (ws_view s) l (ws_view (ws_set s1 w pc' b'))"
    using spec view phase unfolding move_spec_def
    by (elim disjE) (auto simp: sched_spec_simps fun_upd_idem
        intro!: exI [of _ "sp_queued (ws_view (ws_set s1 w pc' b'))"] sched_state.equality)
  with move_inv [OF move inv] show ?thesis by (simp add: ws_good_def)
qed

lemma ws_step_good:
  assumes inv: "ws_inv s" and step: "ws_step s l s'"
  shows "ws_good s l s'"
proof -
  have proto: "ws_proto s" using inv by (simp add: ws_inv_def)
  show ?thesis
    using proto step
  proof (cases rule: ws_step_move)
    case worker
    with move_good [OF inv] show ?thesis by blast
  next
    case (main s1 pc)
    with ws_main_good [OF inv] show ?thesis by blast
  next
    case run_return
    have p0: "ws_pending s = 0" and counts: "ws_counts 0 s" using inv run_return by (auto simp: ws_inv_def)
    note zero = ws_pending_zero [OF counts p0]
    have idle: "wk_counted k = 0" if "k \<in> set (ws_workers s)" for k using zero(2) that .
    then have called: "sum_over wk_called (ws_workers s) = {#}"
      by (intro sum_over_zero) (use wcode_uncounted in blast)
    have running: "ws_running (ws_workers s) w = None" for w
      using idle [OF nth_mem] wcode_uncounted by (auto simp: ws_running_def)
    have "ws_waiting s = []" using zero(1) by (simp add: ws_tasks_def)
    then have "ws_inject s = []" using run_return by (simp add: ws_waiting_def)
    with run_return zero(1) called running inv p0 show ?thesis
      by (auto simp: ws_good_def ws_inv_def ws_proto_def ws_counts_def ws_view_def ws_tasks_def ws_waiting_def
          deque_tasks_Nil deques_ok_def sched_spec_simps fun_eq_iff)
  next
    case (call t)
    have none: "ws_deques s = []" "ws_workers s = []" using proto_outside [of s] inv call by (auto simp: ws_inv_def)
    with call inv show ?thesis
      by (auto simp: ws_good_def ws_inv_def ws_proto_def ws_counts_def ws_view_def ws_tasks_def ws_waiting_def
          deque_tasks_Nil sched_spec_simps)
  next
    case return
    have none: "ws_deques s = []" "ws_workers s = []" using proto_outside [of s] inv return by (auto simp: ws_inv_def)
    with return inv show ?thesis
      by (auto simp: ws_good_def ws_inv_def ws_proto_def ws_counts_def ws_view_def ws_tasks_def ws_waiting_def
          deque_tasks_Nil sched_spec_simps)
  next
    case (run_call n)
    have none: "ws_deques s = []" "ws_workers s = []" using proto_outside [of s] inv run_call by (auto simp: ws_inv_def)
    with run_call inv show ?thesis
      by (auto simp: ws_good_def ws_inv_def ws_proto_def ws_counts_def ws_view_def ws_tasks_def ws_waiting_def
          deque_tasks_Nil sched_spec_simps)
  qed
qed

lemma ws_inv_init: "ws_inv ws_init" and ws_view_init: "ws_view ws_init = spec_init"
  by (simp_all add: ws_inv_def ws_init_def ws_proto_def ws_counts_def ws_view_def ws_tasks_def ws_waiting_def
      deque_tasks_Nil deques_ok_def spec_init_def)

interpretation ws: scheduler ws_init ws_step ws_inv ws_view
  using ws_step_good by unfold_locales (auto simp: ws_good_def ws_inv_init ws_view_init)

section \<open>Replaying a schedule\<close>

definition ws_do_main :: "'t ws \<Rightarrow> ('t slabel \<times> 't ws) option" where
  "ws_do_main s = (case ws_main_step s (ws_main s) of
       Some (s', pc) \<Rightarrow> Some (STau, s'\<lparr>ws_main := pc\<rparr>)
     | None \<Rightarrow> (case ws_main s of
           X_submit I_done \<Rightarrow> Some (SRet Main, s\<lparr>ws_main := X_idle\<rparr>)
         | X_join \<Rightarrow> if list_all (\<lambda>k. wk_code k = V_exit) (ws_workers s)
                     then Some (SRunRet, s\<lparr>ws_main := X_idle, ws_workers := [], ws_deques := []\<rparr>) else None
         | _ \<Rightarrow> None))"

text \<open>The random generator of the replay returns 0.\<close>

definition ws_do_worker :: "nat \<Rightarrow> 't ws \<Rightarrow> ('t slabel \<times> 't ws) option" where
  "ws_do_worker w s =
     (if length (ws_workers s) \<le> w then None
      else let pc = wk_code (ws_workers s ! w); b = wk_backoff (ws_workers s ! w) in
        case ws_worker_step 0 w s b pc of
          Some (s', pc', b') \<Rightarrow> Some (STau, ws_set s' w pc' b')
        | None \<Rightarrow> (case pc of
              V_pop (PopRet (Some t)) \<Rightarrow> Some (SStart w t, ws_set s w (V_run t) b)
            | V_steal start attempt victim (StealRet res) \<Rightarrow>
                (case res_task res of Some t \<Rightarrow> Some (SStart w t, ws_set s w (V_run t) b) | None \<Rightarrow> None)
            | V_submit t (A_push PushRet) \<Rightarrow> Some (SRet (Worker w), ws_set s w (V_run t) b)
            | _ \<Rightarrow> None))"

definition ws_in :: "'t ws \<Rightarrow> nat \<Rightarrow> 't option" where
  "ws_in s w = (if length (ws_workers s) \<le> w then None
     else case wk_code (ws_workers s ! w) of V_run t \<Rightarrow> Some t | _ \<Rightarrow> None)"

definition ws_put :: "'t ws \<Rightarrow> nat \<Rightarrow> 't wcode \<Rightarrow> 't ws" where
  "ws_put s w pc = ws_set s w pc (wk_backoff (ws_workers s ! w))"

definition ws_do :: "'t act \<Rightarrow> 't ws \<Rightarrow> ('t slabel \<times> 't ws) option" where
  "ws_do a s = (case a of
       Submit Main t \<Rightarrow> (case ws_main s of
           X_idle \<Rightarrow> Some (SCall Main t, s\<lparr>ws_main := X_submit (I_lock t)\<rparr>) | _ \<Rightarrow> None)
     | Submit (Worker w) u \<Rightarrow> (case ws_in s w of None \<Rightarrow> None
         | Some t \<Rightarrow> Some (SCall (Worker w) u, ws_put s w (V_submit t (A_add u))))
     | Run n \<Rightarrow> (case ws_main s of
           X_idle \<Rightarrow> Some (SRunCall n, s\<lparr>ws_main := X_build, ws_n := n\<rparr>) | _ \<Rightarrow> None)
     | Finish w \<Rightarrow> (case ws_in s w of None \<Rightarrow> None
         | Some t \<Rightarrow> Some (SFinish w t, ws_put s w V_dec))
     | Do Main \<Rightarrow> ws_do_main s
     | Do (Worker w) \<Rightarrow> ws_do_worker w s)"

lemma ws_at_code:
  "w < length (ws_workers s) \<Longrightarrow> wk_code (ws_workers s ! w) = pc \<Longrightarrow> ws_at s w pc (wk_backoff (ws_workers s ! w))"
  by (simp add: ws_at_def)

lemma ws_in_at: "ws_in s w = Some t \<Longrightarrow> ws_at s w (V_run t) (wk_backoff (ws_workers s ! w))"
  by (auto simp: ws_in_def intro!: ws_at_code split: if_splits wcode.splits)

lemma ws_do_main_step: "ws_do_main s = Some (l, s') \<Longrightarrow> ws_step s l s'"
proof (cases "ws_main_step s (ws_main s)")
  case None
  moreover assume "ws_do_main s = Some (l, s')"
  ultimately show ?thesis
    by (auto simp: ws_do_main_def split: wmain.splits inject.splits if_splits
        intro: ws_step.main_return ws_step.run_return)
qed (auto simp: ws_do_main_def intro: ws_step.main)

lemma ws_do_worker_step:
  assumes do: "ws_do_worker w s = Some (l, s')"
  shows "ws_step s l s'"
proof -
  let ?pc = "wk_code (ws_workers s ! w)" and ?b = "wk_backoff (ws_workers s ! w)"
  have at: "ws_at s w ?pc ?b" using do by (auto simp: ws_do_worker_def intro!: ws_at_code split: if_splits)
  then have len: "\<not> length (ws_workers s) \<le> w" by (simp add: ws_at_def)
  show ?thesis
  proof (cases "ws_worker_step 0 w s ?b ?pc")
    case None
    with do len consider t where "?pc = V_pop (PopRet (Some t))" "l = SStart w t" "s' = ws_set s w (V_run t) ?b"
      | start attempt victim res t where "?pc = V_steal start attempt victim (StealRet res)" "res_task res = Some t"
          "l = SStart w t" "s' = ws_set s w (V_run t) ?b"
      | t where "?pc = V_submit t (A_push PushRet)" "l = SRet (Worker w)" "s' = ws_set s w (V_run t) ?b"
      by (auto simp: ws_do_worker_def Let_def split: wcode.splits opc.splits option.splits tpc.splits spawn.splits)
    then show ?thesis
      using at by cases (auto intro: ws_step.take_own ws_step.take_stolen ws_step.task_return)
  next
    case (Some r)
    obtain s1 pc b where r: "r = (s1, pc, b)" by (cases r) auto
    with Some have "ws_step s STau (ws_set s1 w pc b)" using ws_step.worker [OF at, of 0] by simp
    moreover have "l = STau" "s' = ws_set s1 w pc b"
      using do Some r len by (auto simp: ws_do_worker_def Let_def)
    ultimately show ?thesis by simp
  qed
qed

lemma ws_do_step: "ws_do a s = Some (l, s') \<Longrightarrow> ws_step s l s'"
  by (auto simp: ws_do_def ws_put_def intro: ws_step.intros ws_do_main_step ws_do_worker_step dest!: ws_in_at
      split: act.splits thread.splits wmain.splits option.splits)

lemma ws_play: "lts_run ws_step s (fst (play ws_do as s)) (snd (play ws_do as s))"
  by (rule play_run [OF ws_do_step]) simp_all

end
