(* ===== verification/Steal_Runs.thy ===== *)
theory Steal_Runs
  imports Work_Stealing
begin

text \<open>
  Properties of the work-stealing scheduler: what \<open>run\<close> guarantees, the deques as runs of
  \<open>Deque_Machine\<close>, the choice of victims, the backoff, and the two ways to misuse it
  (\<open>submit\<close> from a thread that is not a worker while \<open>run\<close> is under way, and \<open>run(0)\<close>).
\<close>

section \<open>The scan for a victim\<close>

lemma add_mod_cases: "a < n \<Longrightarrow> b < n \<Longrightarrow> (a + b) mod n = (if a + b < n then a + b else a + b - n)" for a b n :: nat
  by (simp add: mod_if)

lemma pick_start_range:
  assumes "2 \<le> n" and "me < n"
  shows "pick_start n me r < n \<and> pick_start n me r \<noteq> me"
proof -
  have "unat r mod (n - 1) < n - 1" using assms by (intro mod_less_divisor) simp
  then have "Suc (unat r mod (n - 1)) < n" by simp
  with assms show ?thesis by (auto simp: pick_start_def Let_def)
qed

lemma pick_start_any:
  assumes "2 \<le> n" and "n \<le> 2 ^ 32" and "me < n" and "v < n" and "v \<noteq> me"
  shows "\<exists>r. pick_start n me r = v"
proof
  let ?k = "if me < v then v - 1 else v"
  have k: "?k < n - 1" "?k < 2 ^ 32" using assms by auto
  have "unat (of_nat ?k :: 32 word) = ?k" 
    using k(2) by (simp add: unat_of_nat take_bit_nat_eq_self)
  with k(1) assms show "pick_start n me (of_nat ?k) = v" by (auto simp: pick_start_def Let_def)
qed

definition scan :: "nat \<Rightarrow> nat \<Rightarrow> nat \<Rightarrow> nat set" where
  "scan n me start = pick_victim n me start ` {..< n - 1}"

lemma raw_scan:
  fixes start n :: nat
  assumes "start < n" and "2 \<le> n"
  shows "(\<lambda>a. (start + a) mod n) ` {..< n - 1} = {..<n} - {(start + n - 1) mod n}"
proof -
  have last: "(start + n - 1) mod n = (start + (n - 1)) mod n" using assms by simp
  have step: "(start + a) mod n = (if start + a < n then start + a else start + a - n)" if "a < n" for a
    using assms(1) that by (rule add_mod_cases)
  have "v \<in> (\<lambda>a. (start + a) mod n) ` {..< n - 1}" if v: "v < n" "v \<noteq> (start + n - 1) mod n" for v
  proof
    let ?a = "if start \<le> v then v - start else v + n - start"
    have a: "?a < n" using v(1) assms by auto
    show hit: "v = (start + ?a) mod n" using step [OF a] v(1) assms(1) by auto
    have "?a \<noteq> n - 1" using hit v(2) last by auto
    with a show "?a \<in> {..< n - 1}" by simp
  qed
  moreover have "(start + a) mod n \<noteq> (start + (n - 1)) mod n" if "a < n - 1" for a
    using that step [of a] step [of "n - 1"] assms by (auto split: if_splits)
  ultimately show ?thesis using assms last by auto
qed

lemma scan_cases:
  assumes "2 \<le> n" and "me < n" and "start < n" and "start \<noteq> me" and "n \<le> 2 ^ 31"
  shows "scan n me start = {..<n} - {me, (start + n - 1) mod n} \<union>
    (if start = (me + 2) mod n then {(me + 1) mod n} else {})"
proof -
  let ?raw = "(\<lambda>a. (start + a) mod n) ` {..< n - 1}" and ?m = "(start + n - 1) mod n"
  let ?skip = "\<lambda>v. if v = me then (me + 1) mod n else v"
  have scan: "scan n me start = ?skip ` ?raw"
  proof -
    have "unat (of_nat start + of_nat a :: 32 word) = start + a" if "a < n - 1" for a
    proof -
      have "start + a < 2 ^ 32" using that assms(3,5) by simp
      then have "unat (of_nat (start + a) :: 32 word) = start + a" by (simp only: unat_of_nat take_bit_nat_eq_self_iff) simp
      then show ?thesis by simp
    qed
    then show ?thesis by (auto simp: scan_def pick_victim_def Let_def image_image intro!: image_cong)
  qed
  have raw: "?raw = {..<n} - {?m}" using raw_scan [OF assms(3,1)] .
  have next_me: "(me + 1) mod n < n" "(me + 1) mod n \<noteq> me" using assms by (auto simp: mod_if)
  have m: "?m = (if start = 0 then n - 1 else start - 1)" using assms by (auto simp: mod_if)
  have eqs: "?m = me \<longleftrightarrow> start = (me + 1) mod n" "?m = (me + 1) mod n \<longleftrightarrow> start = (me + 2) mod n"
    using assms unfolding m by (auto simp: mod_if split: if_splits)
  have differ: "(me + 1) mod n \<noteq> (me + 2) mod n" if "start = (me + 2) mod n"
    using that assms by (auto simp: mod_if split: if_splits)
  show ?thesis
  proof (cases "?m = me")
    case True
    with eqs differ have "start \<noteq> (me + 2) mod n" by metis
    with True show ?thesis unfolding scan raw by auto
  next
    case False
    with next_me eqs show ?thesis unfolding scan raw using assms by (auto simp: image_iff)
  qed
qed

section \<open>Each deque is a run of the deque machine\<close>

fun thief_of :: "'t wcode \<Rightarrow> nat \<Rightarrow> 't tpc" where
  "thief_of (V_steal start attempt v q) i = (if v = i then q else TIdle)"
| "thief_of pc i = TIdle"

definition thief_at :: "'t worker_ctx list \<Rightarrow> nat \<Rightarrow> nat \<Rightarrow> 't tpc" where
  "thief_at ks i w = (if w < length ks then thief_of (wk_code (ks ! w)) i else TIdle)"

text \<open>Deque \<open>i\<close>, worker \<open>i\<close> as its owner, the workers stealing from it as its thieves.\<close>

definition ws_deque :: "'t ws \<Rightarrow> nat \<Rightarrow> 't dsys" where
  "ws_deque s i = \<lparr>shared = ws_deques s ! i, opc = owner_at (ws_workers s) i, tpc = thief_at (ws_workers s) i\<rparr>"

definition dq_steps :: "'t dsys \<Rightarrow> 't dsys \<Rightarrow> bool" where
  "dq_steps x y \<longleftrightarrow> (\<exists>ls. lts_run dq_step x ls y)"

lemma dq_steps_refl [simp]: "dq_steps x x"
  by (auto simp: dq_steps_def intro: run_nil)

lemma dq_steps_one: "dq_step x l y \<Longrightarrow> dq_steps x y"
  unfolding dq_steps_def by (blast intro: lts_run_Cons run_nil)

lemma dq_steps_trans: "dq_steps x y \<Longrightarrow> dq_steps y z \<Longrightarrow> dq_steps x z"
  unfolding dq_steps_def by (blast intro: lts_run_append)

lemma thief_at_update:
  "w < length ks \<Longrightarrow> thief_at (ks[w := k]) i = (thief_at ks i)(w := thief_of (wk_code k) i)"
  by (auto simp: thief_at_def fun_eq_iff nth_list_update)

lemma ws_deque_set:
  assumes "ws_at s w pc b" and "ws_workers s' = ws_workers s"
  shows "ws_deque (ws_set s' w pc' b') i =
    \<lparr>shared = ws_deques s' ! i, opc = (if i = w then owner_pc pc' else owner_at (ws_workers s) i),
     tpc = (thief_at (ws_workers s) i)(w := thief_of pc' i)\<rparr>"
  using assms by (simp add: ws_deque_def ws_set_def ws_at_def owner_at_update thief_at_update)

lemma ws_at_pcs:
  assumes "ws_at s w pc b"
  shows "owner_at (ws_workers s) w = owner_pc pc" and "thief_at (ws_workers s) i w = thief_of pc i"
  using assms by (auto simp: ws_at_def owner_at_def thief_at_def)

text \<open>A move outside the deques, one of the owner, one of a thief.\<close>

lemma deque_stays:
  assumes at: "ws_at s w pc b" and "ws_workers s' = ws_workers s" and "ws_deques s' ! i = ws_deques s ! i"
    and "i = w \<Longrightarrow> owner_pc pc' = owner_pc pc" and "thief_of pc' i = thief_of pc i"
  shows "dq_steps (ws_deque s i) (ws_deque (ws_set s' w pc' b') i)"
proof -
  have "(thief_at (ws_workers s) i)(w := thief_of pc' i) = thief_at (ws_workers s) i"
    using assms(5) ws_at_pcs(2) [OF at, of i] by auto
  then have "ws_deque (ws_set s' w pc' b') i = ws_deque s i"
    unfolding ws_deque_set [OF assms(1,2)] using assms(3,4) ws_at_pcs(1) [OF at] by (auto simp: ws_deque_def)
  then show ?thesis by simp
qed

lemma deque_owner_moves:
  assumes at: "ws_at s w pc b" and "ws_workers s' = ws_workers s"
    and step: "dq_step (ws_deque s w) l ((ws_deque s w)\<lparr>shared := ws_deques s' ! w, opc := owner_pc pc'\<rparr>)"
    and "\<And>j. thief_of pc j = TIdle" and "\<And>j. thief_of pc' j = TIdle" and "i \<noteq> w \<Longrightarrow> ws_deques s' ! i = ws_deques s ! i"
  shows "dq_steps (ws_deque s i) (ws_deque (ws_set s' w pc' b') i)"
proof (cases "i = w")
  case True
  have "(thief_at (ws_workers s) w)(w := TIdle) = thief_at (ws_workers s) w"
    using assms(4) ws_at_pcs(2) [OF at, of w] by auto
  then have "ws_deque (ws_set s' w pc' b') w = (ws_deque s w)\<lparr>shared := ws_deques s' ! w, opc := owner_pc pc'\<rparr>"
    unfolding ws_deque_set [OF assms(1,2)] using assms(5) by (simp add: ws_deque_def)
  with step True show ?thesis by (auto intro: dq_steps_one)
next
  case False
  with assms show ?thesis by (intro deque_stays [OF at]) auto
qed

lemma deque_thief_moves:
  assumes at: "ws_at s w pc b" and "ws_workers s' = ws_workers s"
    and step: "dq_step (ws_deque s v) l ((ws_deque s v)\<lparr>shared := ws_deques s' ! v, tpc := (tpc (ws_deque s v))(w := thief_of pc' v)\<rparr>)"
    and "owner_pc pc' = owner_pc pc" and "\<And>j. j \<noteq> v \<Longrightarrow> thief_of pc' j = thief_of pc j"
    and "i \<noteq> v \<Longrightarrow> ws_deques s' ! i = ws_deques s ! i"
  shows "dq_steps (ws_deque s i) (ws_deque (ws_set s' w pc' b') i)"
proof (cases "i = v")
  case True
  have "ws_deque (ws_set s' w pc' b') v
      = (ws_deque s v)\<lparr>shared := ws_deques s' ! v, tpc := (tpc (ws_deque s v))(w := thief_of pc' v)\<rparr>"
    unfolding ws_deque_set [OF assms(1,2)] using assms(4) ws_at_pcs(1) [OF at] by (simp add: ws_deque_def)
  with step True show ?thesis by (auto intro: dq_steps_one)
next
  case False
  with assms show ?thesis by (intro deque_stays [OF at]) auto
qed

lemma owner_calls:
  assumes at: "ws_at s w pc b" and frame: "ws_workers s' = ws_workers s" "ws_deques s' = ws_deques s"
    and "owner_pc pc = OIdle \<and> (owner_pc pc' = Pop_bot \<or> (\<exists>x. owner_pc pc' = Push_bot x))
      \<or> owner_pc pc' = OIdle \<and> (owner_pc pc = PushRet \<or> (\<exists>r. owner_pc pc = PopRet r))"
    and "\<And>j. thief_of pc j = TIdle" "\<And>j. thief_of pc' j = TIdle"
  shows "dq_steps (ws_deque s i) (ws_deque (ws_set s' w pc' b') i)"
proof -
  have pc: "opc (ws_deque s w) = owner_pc pc" by (simp add: ws_deque_def ws_at_pcs(1) [OF at])
  have "(ws_deque s w)\<lparr>shared := ws_deques s' ! w, opc := q\<rparr> = (ws_deque s w)\<lparr>opc := q\<rparr>" for q
    by (simp add: ws_deque_def frame(2))
  moreover have "dq_step (ws_deque s w) DTau ((ws_deque s w)\<lparr>opc := owner_pc pc'\<rparr>)"
    using assms(4) pc by (auto intro: call_push call_pop push_return pop_return)
  ultimately have "dq_step (ws_deque s w) DTau ((ws_deque s w)\<lparr>shared := ws_deques s' ! w, opc := owner_pc pc'\<rparr>)"
    by simp
  from deque_owner_moves [OF at frame(1) this assms(5,6)] frame(2) show ?thesis by simp
qed

lemma owner_works:
  assumes at: "ws_at s w pc b" and w: "w < length (ws_deques s)" and frame: "ws_workers s' = ws_workers s"
    and busy: "in_push (owner_pc pc) \<or> in_pop (owner_pc pc)"
    and step: "owner_step (ws_deques s ! w) (owner_pc pc) = (d, owner_pc pc')"
    and ds: "ws_deques s' = (ws_deques s)[w := d]"
    and "\<And>j. thief_of pc j = TIdle" "\<And>j. thief_of pc' j = TIdle"
  shows "dq_steps (ws_deque s i) (ws_deque (ws_set s' w pc' b') i)"
proof -
  have pc: "opc (ws_deque s w) = owner_pc pc" "shared (ws_deque s w) = ws_deques s ! w"
    by (simp_all add: ws_deque_def ws_at_pcs(1) [OF at])
  have "dq_step (ws_deque s w) (owner_label (owner_pc pc) (owner_pc pc'))
      ((ws_deque s w)\<lparr>shared := d, opc := owner_pc pc'\<rparr>)"
    using dq_step.owner [of "ws_deque s w" d "owner_pc pc'"] pc busy step by simp
  then have "dq_step (ws_deque s w) (owner_label (owner_pc pc) (owner_pc pc'))
      ((ws_deque s w)\<lparr>shared := ws_deques s' ! w, opc := owner_pc pc'\<rparr>)"
    using ds w by simp
  from deque_owner_moves [OF at frame this assms(7,8)] ds show ?thesis by simp
qed

lemma thief_calls:
  assumes at: "ws_at s w pc b" and frame: "ws_workers s' = ws_workers s" "ws_deques s' = ws_deques s"
    and own: "owner_pc pc' = owner_pc pc"
    and call: "pc' = V_steal start attempt v Steal_top \<and> (\<forall>j. thief_of pc j = TIdle)
      \<or> pc = V_steal start attempt v (StealRet r) \<and> (\<forall>j. thief_of pc' j = TIdle)"
  shows "dq_steps (ws_deque s i) (ws_deque (ws_set s' w pc' b') i)"
proof -
  have pc: "tpc (ws_deque s v) w = thief_of pc v" by (simp add: ws_deque_def ws_at_pcs(2) [OF at])
  have "(ws_deque s v)\<lparr>shared := ws_deques s' ! v, tpc := q\<rparr> = (ws_deque s v)\<lparr>tpc := q\<rparr>" for q
    by (simp add: ws_deque_def frame(2))
  moreover have "dq_step (ws_deque s v) DTau ((ws_deque s v)\<lparr>tpc := (tpc (ws_deque s v))(w := thief_of pc' v)\<rparr>)"
    using call pc by (auto intro: call_steal steal_return)
  ultimately have "dq_step (ws_deque s v) DTau
      ((ws_deque s v)\<lparr>shared := ws_deques s' ! v, tpc := (tpc (ws_deque s v))(w := thief_of pc' v)\<rparr>)"
    by simp
  from deque_thief_moves [OF at frame(1) this own] call frame(2) show ?thesis by auto
qed

lemma thief_works:
  assumes at: "ws_at s w (V_steal start attempt v q) b" and v: "v < length (ws_deques s)"
    and frame: "ws_workers s' = ws_workers s"
    and busy: "in_steal q" and step: "thief_step (ws_deques s ! v) q = (d, q')"
    and ds: "ws_deques s' = (ws_deques s)[v := d]"
  shows "dq_steps (ws_deque s i) (ws_deque (ws_set s' w (V_steal start attempt v q') b') i)"
proof -
  have pc: "tpc (ws_deque s v) w = q" "shared (ws_deque s v) = ws_deques s ! v"
    by (simp_all add: ws_deque_def ws_at_pcs(2) [OF at])
  have "dq_step (ws_deque s v) (thief_label w q') ((ws_deque s v)\<lparr>shared := d, tpc := (tpc (ws_deque s v))(w := q')\<rparr>)"
    using pc busy step by (intro dq_step.thief) simp_all
  then have "dq_step (ws_deque s v) (thief_label w q') ((ws_deque s v)\<lparr>shared := ws_deques s' ! v,
      tpc := (tpc (ws_deque s v))(w := thief_of (V_steal start attempt v q') v)\<rparr>)"
    using ds v by simp
  from deque_thief_moves [OF at frame this] ds show ?thesis by auto
qed

lemma worker_deque_steps:
  assumes proto: "ws_proto s" and at: "ws_at s w pc b"
    and step: "ws_worker_step r w s b pc = Some (s', pc', b')"
  shows "dq_steps (ws_deque s i) (ws_deque (ws_set s' w pc' b') i)"
proof -
  note f = ws_at_facts [OF proto at]
  have frame: "ws_workers s' = ws_workers s"
    using worker_step_move [OF proto at step] by (simp add: worker_move_def ws_frame_def)
  note stays = deque_stays [OF at frame, where i = i and pc' = pc' and b' = b']
    and calls = owner_calls [OF at frame, where i = i and pc' = pc' and b' = b']
    and works = owner_works [OF at f(2) frame, where i = i and pc' = pc' and b' = b']
    and steals = thief_calls [OF at frame, where i = i and pc' = pc' and b' = b']
  show ?thesis
  proof (cases pc)
    case (V_pop q)
    show ?thesis
    proof (cases "in_pop q")
      case True
      obtain d q' where st: "owner_step (ws_deques s ! w) q = (d, q')" by fastforce
      with step V_pop True have "s' = set_deque s w d" "pc' = V_pop q'" by auto
      with V_pop True st show ?thesis by (intro works) (simp_all add: set_deque_def)
    next
      case False
      with step V_pop have "q = PopRet None" "s' = s" "pc' = V_pending"
        by (auto split: opc.splits option.splits)
      with V_pop show ?thesis by (intro calls) simp_all
    qed
  next
    case (V_submit t p)
    with step obtain p' where p': "spawn_step w s p = Some (s', p')" "pc' = V_submit t p'"
      by (auto split: option.splits)
    show ?thesis
    proof (cases p)
      case (A_add u)
      with p' V_submit show ?thesis by (intro calls) auto
    next
      case (A_push q)
      then have busy: "in_push q" using p' by (simp split: if_splits)
      obtain d q' where st: "owner_step (ws_deques s ! w) q = (d, q')" by fastforce
      with p' A_push busy have "s' = set_deque s w d" "pc' = V_submit t (A_push q')" by auto
      with V_submit A_push busy st show ?thesis by (intro works) (simp_all add: set_deque_def)
    qed
  next
    case V_dec
    with step have "s' = s\<lparr>ws_pending := ws_pending s - 1\<rparr>" "pc' = V_exit \<or> pc' = V_pop Pop_bot"
      by (auto simp: Let_def split: if_splits)
    with V_dec stays calls show ?thesis by auto
  next
    case (V_next start attempt)
    with step have "s' = s" "pc' = V_yield 0 \<or>
        pc' = V_steal start attempt (pick_victim (length (ws_deques s)) w start attempt) Steal_top"
      by (auto split: if_splits)
    with V_next stays steals show ?thesis by auto
  next
    case (V_steal start attempt v q)
    show ?thesis
    proof (cases "in_steal q")
      case True
      obtain d q' where st: "thief_step (ws_deques s ! v) q = (d, q')" by fastforce
      have v: "v < length (ws_deques s)"
        using deques_ok_thieves [OF f(5) nth_mem [OF f(1)]] f(3) V_steal by blast
      from st step V_steal True have "s' = set_deque s v d" "pc' = V_steal start attempt v q'" by auto
      with thief_works [OF at [unfolded V_steal] v frame True st] show ?thesis by (simp add: set_deque_def)
    next
      case False
      then obtain res where "q = StealRet res" "s' = s" "pc' = V_next start (attempt + 1)"
        using step V_steal by (cases q) (auto split: option.splits)
      with V_steal show ?thesis by (intro steals [where start = start and attempt = attempt and v = v and r = res]) auto
    qed
  next
    case (V_yield k)
    with step stays calls show ?thesis by (auto split: if_splits)
  qed (use step stays in auto)
qed

definition deques_run :: "'t ws \<Rightarrow> bool" where
  "deques_run s \<longleftrightarrow> (\<forall>i < length (ws_deques s). dq_steps dsys_init (ws_deque s i))"

lemma deques_run_step:
  assumes "deques_run s" and "length (ws_deques s') = length (ws_deques s)"
    and "\<And>i. i < length (ws_deques s) \<Longrightarrow> dq_steps (ws_deque s i) (ws_deque s' i)"
  shows "deques_run s'"
  using assms unfolding deques_run_def by (metis dq_steps_trans)

lemma label_deques_run:
  assumes proto: "ws_proto s" and run: "deques_run s" and at: "ws_at s w pc b"
    and "\<And>i. dq_steps (ws_deque s i) (ws_deque (ws_set s w pc' b') i)"
  shows "deques_run (ws_set s w pc' b')"
  using assms by (intro deques_run_step [OF run]) (simp_all add: ws_set_def)

lemma thief_at_Nil [simp]: "thief_at [] i = (\<lambda>_. TIdle)"
  by (simp add: thief_at_def fun_eq_iff)

lemma main_deques_run:
  assumes proto: "ws_proto s" and run: "deques_run s" and step: "ws_main_step s (ws_main s) = Some (s', pc)"
  shows "deques_run (s'\<lparr>ws_main := pc\<rparr>)"
proof -
  have same: ?thesis if "ws_deques s' = ws_deques s" "ws_workers s' = ws_workers s"
    using run that by (simp add: deques_run_def ws_deque_def)
  show ?thesis
  proof (cases "ws_main s")
    case (X_submit p)
    with step show ?thesis by (intro same; cases p) (auto split: if_splits)
  next
    case X_build
    have "ws_workers s = []" using proto_outside [OF proto] X_build by simp
    with X_build step show ?thesis
      by (auto simp: deques_run_def ws_deque_def) (simp add: dsys_init_def [symmetric])
  next
    case (X_drain i)
    have none: "ws_workers s = []" using proto X_drain by (simp add: ws_proto_def)
    show ?thesis
    proof (cases "i < length (ws_inject s)")
      case True
      let ?d = "dq_push (ws_deques s ! 0) (Some (ws_inject s ! i))"
      have s': "s' = set_deque s 0 ?d" "ws_deques s \<noteq> []"
        using True X_drain step by (auto split: if_splits)
      have "dq_steps (ws_deque s j) (ws_deque (s'\<lparr>ws_main := pc\<rparr>) j)" if "j < length (ws_deques s)" for j
      proof (cases "j = 0")
        case True
        let ?x = "ws_deque s 0"
        have "opc ?x = OIdle" by (simp add: ws_deque_def none)
        from push_run [OF this, of "ws_inject s ! i"]
        have "dq_steps ?x (?x\<lparr>shared := ?d, opc := PushRet\<rparr>)"
          unfolding dq_steps_def by (auto simp: ws_deque_def)
        moreover have "dq_steps (?x\<lparr>shared := ?d, opc := PushRet\<rparr>) (?x\<lparr>shared := ?d, opc := OIdle\<rparr>)"
          using push_return [of "?x\<lparr>shared := ?d, opc := PushRet\<rparr>"] by (auto intro: dq_steps_one)
        moreover have "ws_deque (s'\<lparr>ws_main := pc\<rparr>) 0 = ?x\<lparr>shared := ?d, opc := OIdle\<rparr>"
          using s' none by (simp add: ws_deque_def set_deque_def)
        ultimately show ?thesis using True by (metis dq_steps_trans)
      next
        case False
        then have "ws_deque (s'\<lparr>ws_main := pc\<rparr>) j = ws_deque s j"
          using s' by (simp add: ws_deque_def set_deque_def)
        then show ?thesis by simp
      qed
      with s' show ?thesis by (intro deques_run_step [OF run]) (simp_all add: set_deque_def)
    next
      case False
      with X_drain step show ?thesis by (intro same) auto
    qed
  next
    case X_spawn
    show ?thesis
    proof (cases "length (ws_workers s) < ws_n s")
      case False
      with X_spawn step show ?thesis by (intro same) auto
    next
      case True
      then have s': "s' = s\<lparr>ws_workers := ws_workers s @ [wk_new]\<rparr>" using X_spawn step by auto
      have t: "thief_at (ws_workers s @ [wk_new]) j = thief_at (ws_workers s) j" for j :: nat
        by (auto simp: thief_at_def fun_eq_iff nth_append wk_new_def)
      have o: "owner_at (ws_workers s @ [wk_new]) j =
          (if j = length (ws_workers s) then Pop_bot else owner_at (ws_workers s) j)" for j
        by (auto simp: owner_at_def nth_append wk_new_def)
      have "dq_steps (ws_deque s j) (ws_deque (s'\<lparr>ws_main := pc\<rparr>) j)" for j
      proof (cases "j = length (ws_workers s)")
        case True
        have "opc (ws_deque s j) = OIdle" by (simp add: ws_deque_def owner_at_def True)
        from call_pop [OF this] show ?thesis
          using True by (auto simp: ws_deque_def s' t o intro: dq_steps_one)
      next
        case False
        then have "ws_deque (s'\<lparr>ws_main := pc\<rparr>) j = ws_deque s j" by (simp add: ws_deque_def s' t o)
        then show ?thesis by simp
      qed
      with s' show ?thesis by (intro deques_run_step [OF run]) simp_all
    qed
  qed (use step same in \<open>auto split: if_splits\<close>)
qed

lemma ws_step_deques_run:
  assumes proto: "ws_proto s" and run: "deques_run s" and step: "ws_step s l s'"
  shows "deques_run s'"
  using step
proof cases
  case (main s1 pc)
  with main_deques_run [OF proto run] show ?thesis by blast
next
  case (worker w pc b r s1 pc' b')
  have len: "length (ws_deques (ws_set s1 w pc' b')) = length (ws_deques s)"
    using worker(4) by (cases pc) (auto simp: ws_set_def set_deque_def Let_def
        split: if_splits option.splits prod.splits opc.splits tpc.splits elim!: spawn_step.elims)
  show ?thesis
    unfolding worker(2) using worker_deque_steps [OF proto worker(3,4)] by (intro deques_run_step [OF run len])
next
  case (take_own w t b)
  have "dq_steps (ws_deque s i) (ws_deque s' i)" for i
    unfolding take_own(2) by (rule owner_calls [OF take_own(3)]) simp_all
  with take_own(2) show ?thesis by (intro deques_run_step [OF run]) (simp_all add: ws_set_def)
next
  case (take_stolen w start attempt victim res b t)
  have "dq_steps (ws_deque s i) (ws_deque s' i)" for i
    unfolding take_stolen(2)
    by (rule thief_calls [OF take_stolen(3), where start = start and attempt = attempt and v = victim and r = res]) simp_all
  with take_stolen(2) show ?thesis by (intro deques_run_step [OF run]) (simp_all add: ws_set_def)
next
  case (task_call w t b u)
  have "dq_steps (ws_deque s i) (ws_deque s' i)" for i
    unfolding task_call(2) by (rule deque_stays [OF task_call(3)]) simp_all
  with task_call(2) show ?thesis by (intro deques_run_step [OF run]) (simp_all add: ws_set_def)
next
  case (task_return w t b)
  have "dq_steps (ws_deque s i) (ws_deque s' i)" for i
    unfolding task_return(2) by (rule owner_calls [OF task_return(3)]) simp_all
  with task_return(2) show ?thesis by (intro deques_run_step [OF run]) (simp_all add: ws_set_def)
next
  case (task_finish w t b)
  have "dq_steps (ws_deque s i) (ws_deque s' i)" for i
    unfolding task_finish(2) by (rule deque_stays [OF task_finish(3)]) simp_all
  with task_finish(2) show ?thesis by (intro deques_run_step [OF run]) (simp_all add: ws_set_def)
qed (use run in \<open>simp_all add: deques_run_def ws_deque_def\<close>)

lemma ws_run_proto: "lts_run ws_step ws_init ls s \<Longrightarrow> ws_proto s"
  using ws.waiting.run_inv by (auto simp: ws_inv_def)

lemma ws_run_deques: "lts_run ws_step ws_init ls s \<Longrightarrow> deques_run s"
proof (induction rule: lts_run.induct)
  case run_nil
  show ?case by (simp add: deques_run_def ws_init_def)
next
  case (run_snoc ls s l s')
  then show ?case using ws_step_deques_run ws_run_proto by blast
qed

section \<open>The backoff\<close>

definition backoff_ok :: "32 word \<Rightarrow> bool" where
  "backoff_ok b \<longleftrightarrow> b \<in> {1, 2, 4, 8, 16, 32, 64, 128}"

lemma backoff_next: "backoff_ok b \<Longrightarrow> backoff_ok (next_backoff b)"
  by (auto simp: backoff_ok_def next_backoff_def)

lemma backoff_power:
  assumes "backoff_ok b"
  shows "\<exists>j \<le> 7. unat b = 2 ^ j"
proof -
  have "unat b \<in> {1, 2, 4, 8, 16, 32, 64, 128}" using assms by (auto simp: backoff_ok_def)
  also have "\<dots> = (\<lambda>j. 2 ^ j) ` {..7}" by code_simp
  finally show ?thesis by auto
qed

lemma worker_step_backoff:
  "ws_worker_step r w s b pc = Some (s', pc', b') \<Longrightarrow> b' \<in> {b, 1, next_backoff b}"
  by (cases pc) (auto simp: Let_def split: if_splits option.splits prod.splits opc.splits tpc.splits)

lemma ws_step_backoff:
  assumes ok: "\<forall>k \<in> set (ws_workers s). backoff_ok (wk_backoff k)" and step: "ws_step s l s'"
  shows "\<forall>k \<in> set (ws_workers s'). backoff_ok (wk_backoff k)"
proof -
  have set: "\<forall>k \<in> set (ws_workers (ws_set s1 w pc' b')). backoff_ok (wk_backoff k)"
    if "ws_workers s1 = ws_workers s" "backoff_ok b'" for s1 w pc' b'
    using ok that by (auto simp: ws_set_def dest!: set_update_subset_insert [THEN subsetD])
  have one: "backoff_ok 1" by (simp add: backoff_ok_def)
  have at: "backoff_ok b" if "ws_at s w pc b" for w pc b
    using ok that nth_mem [of w "ws_workers s"] by (force simp: ws_at_def)
  show ?thesis
    using step
  proof cases
    case (main s1 pc)
    have "ws_workers s1 = ws_workers s \<or> ws_workers s1 = ws_workers s @ [wk_new]"
      using main(3) by (cases "ws_main s")
        (auto simp: set_deque_def split: if_splits option.splits elim!: inject_step.elims)
    with ok one main(2) show ?thesis by (auto simp: wk_new_def)
  next
    case (worker w pc b r s1 pc' b')
    have "ws_workers s1 = ws_workers s"
      using worker(4) by (cases pc) (auto simp: set_deque_def Let_def
          split: if_splits option.splits prod.splits opc.splits tpc.splits elim!: spawn_step.elims)
    moreover have "backoff_ok b'"
      using worker_step_backoff [OF worker(4)] at [OF worker(3)] one backoff_next by blast
    ultimately show ?thesis unfolding worker(2) by (rule set)
  qed (use ok in simp, use ok in simp, use ok in simp, simp, (use set [OF refl at] in blast)+)
qed

lemma ws_run_backoff: "lts_run ws_step ws_init ls s \<Longrightarrow> \<forall>k \<in> set (ws_workers s). backoff_ok (wk_backoff k)"
  by (erule lts_run_invariant) (auto simp: ws_init_def dest: ws_step_backoff)

section \<open>The workers' code is never stuck\<close>

text \<open>
  The shapes a worker's code goes through: inside an operation its program counter is one of that
  operation, and a round of steals has another worker to steal from.
\<close>

definition pop_code :: "'t opc \<Rightarrow> bool" where
  "pop_code pc \<longleftrightarrow> in_pop pc \<or> (case pc of PopRet r \<Rightarrow> True | _ \<Rightarrow> False)"

definition push_code :: "'t opc \<Rightarrow> bool" where
  "push_code pc \<longleftrightarrow> in_push pc \<or> (case pc of PushRet \<Rightarrow> True | _ \<Rightarrow> False)"

definition steal_code :: "'t tpc \<Rightarrow> bool" where
  "steal_code q \<longleftrightarrow> in_steal q \<or> (case q of StealRet r \<Rightarrow> True | _ \<Rightarrow> False)"

lemma code_iffs:
  "pop_code pc \<longleftrightarrow> in_pop pc \<or> (\<exists>r. pc = PopRet r)"
  "push_code pc \<longleftrightarrow> in_push pc \<or> pc = PushRet"
  "steal_code q \<longleftrightarrow> in_steal q \<or> (\<exists>r. q = StealRet r)"
proof -
  show "pop_code pc \<longleftrightarrow> in_pop pc \<or> (\<exists>r. pc = PopRet r)" by (cases pc) (simp_all add: pop_code_def)
  show "push_code pc \<longleftrightarrow> in_push pc \<or> pc = PushRet" by (cases pc) (simp_all add: push_code_def)
  show "steal_code q \<longleftrightarrow> in_steal q \<or> (\<exists>r. q = StealRet r)" by (cases q) (simp_all add: steal_code_def)
qed

fun wcode_typed :: "nat \<Rightarrow> nat \<Rightarrow> 't wcode \<Rightarrow> bool" where
  "wcode_typed n w (V_pop pc) = pop_code pc"
| "wcode_typed n w (V_submit t (A_push pc)) = push_code pc"
| "wcode_typed n w V_pick = (2 \<le> n)"
| "wcode_typed n w (V_next start attempt) = (2 \<le> n \<and> start < n \<and> start \<noteq> w)"
| "wcode_typed n w (V_steal start attempt v q) =
     (2 \<le> n \<and> start < n \<and> start \<noteq> w \<and> v < n \<and> v \<noteq> w \<and> steal_code q)"
| "wcode_typed n w pc = True"

lemma pick_victim_range:
  assumes "2 \<le> n" and "me < n"
  shows "pick_victim n me start attempt < n \<and> pick_victim n me start attempt \<noteq> me"
proof -
  have "(me + 1) mod n < n \<and> (me + 1) mod n \<noteq> me"
    using assms by (cases "me + 1 < n") (simp_all add: not_less le_antisym le_mod_geq)
  moreover have "unat (of_nat start + of_nat attempt :: 32 word) mod n < n" using assms by simp
  ultimately show ?thesis by (auto simp: pick_victim_def Let_def)
qed

lemma push_step_typed: "in_push pc \<Longrightarrow> push_code (snd (owner_step d pc))"
  by (cases pc) (simp_all add: owner_step_def code_iffs Let_def)

lemma pop_step_typed: "in_pop pc \<Longrightarrow> pop_code (snd (owner_step d pc))"
  by (cases pc) (simp_all add: owner_step_def code_iffs Let_def split_beta)

lemma thief_step_typed: "in_steal q \<Longrightarrow> steal_code (snd (thief_step d q))"
  by (cases q) (simp_all add: code_iffs Let_def split_beta)

lemma worker_step_typed:
  assumes typed: "wcode_typed (length (ws_deques s)) w pc" and w: "w < length (ws_deques s)"
    and step: "ws_worker_step r w s b pc = Some (s', pc', b')"
  shows "wcode_typed (length (ws_deques s)) w pc'"
proof (cases pc)
  case (V_pop p)
  show ?thesis
  proof (cases "in_pop p")
    case True
    then have "pc' = V_pop (snd (owner_step (ws_deques s ! w) p))" using step V_pop by (simp add: split_beta)
    with pop_step_typed [OF True] show ?thesis by simp
  next
    case False
    then obtain res where "p = PopRet res" using typed V_pop by (auto simp: code_iffs)
    with step V_pop have "pc' = V_pending" by (auto split: option.splits)
    then show ?thesis by simp
  qed
next
  case (V_submit t p)
  show ?thesis
  proof (cases p)
    case (A_add u)
    with step V_submit have "pc' = V_submit t (A_push (Push_bot u))" by auto
    then show ?thesis by (simp add: code_iffs)
  next
    case (A_push q)
    then have q: "in_push q" "pc' = V_submit t (A_push (snd (owner_step (ws_deques s ! w) q)))"
      using step V_submit by (auto simp: split_beta split: if_splits)
    with push_step_typed [OF q(1)] show ?thesis by simp
  qed
next
  case (V_steal start attempt v q)
  show ?thesis
  proof (cases "in_steal q")
    case True
    then have "pc' = V_steal start attempt v (snd (thief_step (ws_deques s ! v) q))"
      using step V_steal by (simp add: split_beta)
    with thief_step_typed [OF True] typed V_steal show ?thesis by simp
  next
    case False
    then obtain res where "q = StealRet res" using typed V_steal by (auto simp: code_iffs)
    with step V_steal have "pc' = V_next start (attempt + 1)" by (auto split: option.splits)
    with typed V_steal show ?thesis by simp
  qed
next
  case V_pick
  with typed pick_start_range [OF _ w] step show ?thesis by auto
next
  case (V_next start attempt)
  with typed pick_victim_range [OF _ w] step show ?thesis by (auto simp: code_iffs)
qed (use step in \<open>auto simp: Let_def code_iffs split: if_splits\<close>)

lemma owner_step_moves: "in_push pc \<or> in_pop pc \<Longrightarrow> snd (owner_step d pc) \<noteq> pc"
  by (cases pc) (auto simp: owner_step_def Let_def split_beta)

lemma thief_step_moves: "in_steal q \<Longrightarrow> snd (thief_step d q) \<noteq> q"
  by (cases q) (auto simp: Let_def split_beta)

lemma worker_progress:
  assumes at: "ws_at s w pc b" and typed: "wcode_typed n w pc" and live: "pc \<noteq> V_exit"
  shows "\<exists>l s' pc' b'. ws_step s l s' \<and> ws_at s' w pc' b' \<and> pc' \<noteq> pc"
proof -
  have own: "\<exists>l s' pc' b'. ws_step s l s' \<and> ws_at s' w pc' b' \<and> pc' \<noteq> pc"
    if "ws_worker_step r w s b pc = Some (s1, pc1, b1)" "ws_workers s1 = ws_workers s" "pc1 \<noteq> pc" for r s1 pc1 b1
  proof -
    have "ws_at (ws_set s1 w pc1 b1) w pc1 b1" using at that(2) by (simp add: ws_at_def ws_set_def)
    with ws_step.worker [OF at that(1)] that(3) show ?thesis by blast
  qed
  have user: "\<exists>l s' pc' b'. ws_step s l s' \<and> ws_at s' w pc' b' \<and> pc' \<noteq> pc"
    if "ws_step s l (ws_set s w pc1 b)" "pc1 \<noteq> pc" for l pc1
  proof -
    have "ws_at (ws_set s w pc1 b) w pc1 b" using at by (simp add: ws_at_def ws_set_def)
    with that show ?thesis by blast
  qed
  show ?thesis
  proof (cases pc)
    case (V_pop p)
    show ?thesis
    proof (cases "in_pop p")
      case True
      let ?r = "owner_step (ws_deques s ! w) p"
      show ?thesis
        by (rule own [of undefined "set_deque s w (fst ?r)" "V_pop (snd ?r)" b])
          (use V_pop True owner_step_moves [of p] in \<open>auto simp: set_deque_def split_beta\<close>)
    next
      case False
      then obtain res where p: "p = PopRet res" using typed V_pop by (auto simp: code_iffs)
      show ?thesis
      proof (cases res)
        case None
        show ?thesis by (rule own [of undefined s V_pending b]) (use V_pop p None in auto)
      next
        case (Some t)
        from user [OF ws_step.take_own] at V_pop p Some show ?thesis by blast
      qed
    qed
  next
    case (V_run t)
    from user [OF ws_step.task_finish] at V_run show ?thesis by blast
  next
    case (V_submit t a)
    show ?thesis
    proof (cases a)
      case (A_add u)
      show ?thesis
        by (rule own [of undefined "s\<lparr>ws_pending := ws_pending s + 1\<rparr>" "V_submit t (A_push (Push_bot u))" b])
          (use V_submit A_add in auto)
    next
      case (A_push p)
      show ?thesis
      proof (cases "in_push p")
        case True
        let ?r = "owner_step (ws_deques s ! w) p"
        show ?thesis
          by (rule own [of undefined "set_deque s w (fst ?r)" "V_submit t (A_push (snd ?r))" b])
            (use V_submit A_push True owner_step_moves [of p] in \<open>auto simp: set_deque_def split_beta\<close>)
      next
        case False
        then have "p = PushRet" using typed V_submit A_push by (auto simp: code_iffs)
        with user [OF ws_step.task_return] at V_submit A_push show ?thesis by blast
      qed
    qed
  next
    case (V_steal start attempt v q)
    show ?thesis
    proof (cases "in_steal q")
      case True
      let ?r = "thief_step (ws_deques s ! v) q"
      show ?thesis
        by (rule own [of undefined "set_deque s v (fst ?r)" "V_steal start attempt v (snd ?r)" b])
          (use V_steal True thief_step_moves [of q] in \<open>auto simp: set_deque_def split_beta\<close>)
    next
      case False
      then obtain res where q: "q = StealRet res" using typed V_steal by (auto simp: code_iffs)
      show ?thesis
      proof (cases "res_task res")
        case None
        show ?thesis by (rule own [of undefined s "V_next start (attempt + 1)" b]) (use V_steal q None in auto)
      next
        case (Some t)
        from user [OF ws_step.take_stolen [OF _ Some]] at V_steal q show ?thesis by blast
      qed
    qed
  next
    case (V_yield i)
    have "i + 1 \<noteq> i" by simp
    then show ?thesis
      by (intro own [of undefined s "if i < b then V_yield (i + 1) else V_pop Pop_bot" "if i < b then b else next_backoff b"])
        (use V_yield in auto)
  next
    case V_dec
    show ?thesis
      by (rule own [of undefined "s\<lparr>ws_pending := ws_pending s - 1\<rparr>"
            "if ws_pending s = 1 then V_exit else V_pop Pop_bot" "if ws_pending s = 1 then b else 1"])
        (use V_dec in auto)
  next
    case V_pending
    show ?thesis
      by (rule own [of undefined s "if ws_pending s = 0 then V_exit else V_shutdown" b]) (use V_pending in auto)
  next
    case V_shutdown
    show ?thesis
      by (rule own [of undefined s "if ws_shutdown s then V_exit else if length (ws_deques s) > 1 then V_pick else V_yield 0" b])
        (use V_shutdown in auto)
  next
    case V_pick
    show ?thesis
      by (rule own [of 0 s "V_next (pick_start (length (ws_deques s)) w 0) 0" b]) (use V_pick in auto)
  next
    case (V_next start attempt)
    show ?thesis
      by (rule own [of undefined s "if attempt < length (ws_deques s) - 1
          then V_steal start attempt (pick_victim (length (ws_deques s)) w start attempt) Steal_top else V_yield 0" b])
        (use V_next in auto)
  qed (use live in simp)
qed

definition workers_typed :: "'t ws \<Rightarrow> bool" where
  "workers_typed s \<longleftrightarrow> (\<forall>w < length (ws_workers s). wcode_typed (length (ws_deques s)) w (wk_code (ws_workers s ! w)))"

lemma workers_typed_set:
  "workers_typed s \<Longrightarrow> ws_workers s1 = ws_workers s \<Longrightarrow> length (ws_deques s1) = length (ws_deques s) \<Longrightarrow>
    wcode_typed (length (ws_deques s)) w pc \<Longrightarrow> workers_typed (ws_set s1 w pc b)"
  unfolding workers_typed_def ws_set_def
  by (simp del: all_simps) (metis nth_list_update_eq nth_list_update_neq worker_ctx.select_convs(1))

lemma ws_step_typed:
  assumes proto: "ws_proto s" and ok: "workers_typed s" and step: "ws_step s l s'"
  shows "workers_typed s'"
proof -
  have at: "wcode_typed (length (ws_deques s)) w pc" if "ws_at s w pc b" for w pc b
    using ok that by (force simp: workers_typed_def ws_at_def)
  show ?thesis
    using step
  proof cases
    case (main s1 pc)
    have none: "ws_main s = X_build \<longrightarrow> ws_workers s = []"
      using proto by (auto simp: ws_proto_def deques_ok_def split: if_splits)
    have "(ws_workers s1 = ws_workers s \<or> ws_workers s1 = ws_workers s @ [wk_new])
        \<and> (length (ws_deques s1) = length (ws_deques s) \<or> ws_workers s1 = [])"
      using main(3) none by (cases "ws_main s")
        (auto simp: set_deque_def split: if_splits option.splits elim!: inject_step.elims)
    with ok main(2) show ?thesis
      by (auto simp: workers_typed_def wk_new_def nth_append less_Suc_eq code_iffs)
  next
    case (worker w pc b r s1 pc' b')
    have same: "ws_workers s1 = ws_workers s" "length (ws_deques s1) = length (ws_deques s)"
      using worker(4) by (cases pc; auto simp: set_deque_def Let_def
          split: if_splits option.splits prod.splits opc.splits tpc.splits elim!: spawn_step.elims)+
    have "wcode_typed (length (ws_deques s)) w pc'"
      using worker_step_typed [OF at [OF worker(3)] ws_at_facts(2) [OF proto worker(3)] worker(4)] .
    with workers_typed_set [OF ok same] show ?thesis unfolding worker(2) .
  qed (use ok workers_typed_set [OF ok refl refl] in \<open>auto simp: workers_typed_def\<close>)
qed

lemma ws_run_typed: "lts_run ws_step ws_init ls s \<Longrightarrow> workers_typed s"
proof (induction rule: lts_run.induct)
  case run_nil
  show ?case by (simp add: workers_typed_def ws_init_def)
next
  case (run_snoc ls s l s')
  then show ?case using ws_step_typed ws_run_proto by blast
qed

section \<open>Calls of submit from other threads\<close>

text \<open>
  A thread that is neither a worker nor the one in \<open>run\<close> has \<^verbatim>\<open>tl_worker_id_ == -1\<close>, so its
  \<open>submit\<close> takes the path of the injection queue, also while \<open>run\<close> is under way. The state is the
  scheduler and the program counters of the threads that have called \<open>submit\<close>; a label is a
  step of the scheduler, or the number of the calling thread.
\<close>

inductive ws_ext_step :: "'t ws \<times> 't inject list \<Rightarrow> 't slabel + nat \<Rightarrow> 't ws \<times> 't inject list \<Rightarrow> bool" where
  own: "ws_step s l s' \<Longrightarrow> ws_ext_step (s, xs) (Inl l) (s', xs)"
| ext_call: "ws_ext_step (s, xs) (Inr (length xs)) (s, xs @ [I_lock t])"
| ext_work: "i < length xs \<Longrightarrow> inject_step s (xs ! i) = Some (s', p) \<Longrightarrow>
    ws_ext_step (s, xs) (Inr i) (s', xs[i := p])"

definition ws_drained :: "'t ws \<Rightarrow> bool" where
  "ws_drained s \<longleftrightarrow> deque_tasks s = {#} \<and> (\<forall>k \<in> set (ws_workers s). wk_counted k = 0)"

definition ext_inv :: "int \<Rightarrow> 't ws \<Rightarrow> bool" where
  "ext_inv e s \<longleftrightarrow> ws_proto s \<and> ws_counts e s \<and> (ws_main s = X_shut \<or> ws_main s = X_join \<longrightarrow> ws_drained s)"

lemma move_drained:
  assumes move: "worker_move s s1 w pc pc' b b' x y" and drained: "ws_drained s"
  shows "ws_drained (ws_set s1 w pc' b')"
proof -
  have at: "ws_at s w pc b" and frame: "ws_frame s s1" using move by (auto simp: worker_move_def)
  then have zero: "wcode_counted pc = 0" using drained nth_mem [of w "ws_workers s"] by (auto simp: ws_drained_def ws_at_def)
  then have "int (size (ws_tasks (ws_set s1 w pc' b'))) + wcode_counted pc' = int (size (ws_tasks s))"
    using move by (simp add: worker_move_def)
  then have "int (size (deque_tasks (ws_set s1 w pc' b'))) + wcode_counted pc' = 0"
    using drained ws_frame_waiting [OF frame, of w pc' b'] by (simp add: ws_tasks_def ws_drained_def)
  moreover have "0 \<le> wcode_counted pc'" by simp
  ultimately have "size (deque_tasks (ws_set s1 w pc' b')) = 0" "wcode_counted pc' = 0" by linarith+
  with drained frame show ?thesis
    by (auto simp: ws_drained_def) (auto simp: ws_set_def ws_frame_def dest!: set_update_subset_insert [THEN subsetD])
qed

lemma counts_drained:
  assumes "ws_counts e s" and "0 \<le> e" and "ws_pending s \<le> 0" and "ws_main s = X_wait"
  shows "ws_drained s"
proof -
  have nn: "0 \<le> sum_over wk_counted (ws_workers s)" by (rule sum_over_nonneg) simp
  moreover have "ws_pending s = e + int (size (ws_tasks s)) + sum_over wk_counted (ws_workers s)"
    using assms(1,4) by (simp add: ws_counts_def)
  ultimately have z: "size (ws_tasks s) = 0" "sum_over wk_counted (ws_workers s) = 0"
    using assms(2,3) by linarith+
  have "wk_counted k = 0" if "k \<in> set (ws_workers s)" for k
    using sum_over_member_le [of wk_counted k "ws_workers s"] that z(2) by (simp add: antisym)
  with z(1) show ?thesis by (simp add: ws_drained_def ws_tasks_def)
qed

lemma ws_step_ext_inv:
  assumes inv: "ext_inv e s" and e: "0 \<le> e" and step: "ws_step s l s'"
  shows "ext_inv e s'"
proof -
  have proto: "ws_proto s" and counts: "ws_counts e s" using inv by (auto simp: ext_inv_def)
  show ?thesis
    using proto step
  proof (cases rule: ws_step_move)
    case (worker s1 w pc pc' b b' x y)
    have frame: "ws_main (ws_set s1 w pc' b') = ws_main s" and "ws_proto (ws_set s1 w pc' b')"
      using worker(1) by (auto simp: worker_move_def ws_frame_def ws_set_def)
    with move_counts [OF worker(1) counts] move_drained [OF worker(1)] inv worker(2) show ?thesis
      by (auto simp: ext_inv_def)
  next
    case (main s1 pc)
    have move: "ws_proto s'" "ws_counts e s'"
      using main_step_move [OF proto main(2)] counts main(3) by (auto simp: main_move_def)
    have "ws_drained s'" if m: "pc = X_shut \<or> pc = X_join"
    proof -
      have "ws_drained s" using m main(2) inv counts_drained [OF counts e]
        by (cases "ws_main s") (auto simp: ext_inv_def split: if_splits option.splits)
      moreover have "ws_deques s' = ws_deques s" "ws_workers s' = ws_workers s"
        using m main(2,3) by (cases "ws_main s"; auto split: if_splits option.splits)+
      ultimately show ?thesis by (simp add: ws_drained_def deque_tasks_def)
    qed
    with move main(3) show ?thesis by (auto simp: ext_inv_def)
  next
    case (call t)
    have none: "ws_deques s = []" "ws_workers s = []" using proto_outside [OF proto] call by auto
    with call inv show ?thesis
      by (auto simp: ext_inv_def ws_proto_def ws_counts_def ws_tasks_def ws_waiting_def deque_tasks_Nil)
  next
    case return
    have none: "ws_deques s = []" "ws_workers s = []" using proto_outside [OF proto] return by auto
    with return inv show ?thesis
      by (auto simp: ext_inv_def ws_proto_def ws_counts_def ws_tasks_def ws_waiting_def deque_tasks_Nil)
  next
    case (run_call n)
    have none: "ws_deques s = []" "ws_workers s = []" using proto_outside [OF proto] run_call by auto
    with run_call inv show ?thesis
      by (auto simp: ext_inv_def ws_proto_def ws_counts_def ws_tasks_def ws_waiting_def deque_tasks_Nil)
  next
    case run_return
    then have "ws_drained s" using inv by (simp add: ext_inv_def)
    moreover have "sum_over wk_counted (ws_workers s) = 0"
      using calculation by (intro sum_over_zero) (simp add: ws_drained_def)
    ultimately show ?thesis
      using run_return inv
      by (auto simp: ext_inv_def ws_proto_def ws_counts_def ws_tasks_def ws_waiting_def ws_drained_def
          deque_tasks_Nil deques_ok_def)
  qed
qed

text \<open>What another thread in \<open>submit\<close> does to the scheduler.\<close>

lemma inject_step_books:
  assumes "inject_step s p = Some (s', p')"
  shows "ws_deques s' = ws_deques s" "ws_workers s' = ws_workers s" "ws_n s' = ws_n s" "ws_main s' = ws_main s"
    "\<exists>ts. ws_inject s' = ws_inject s @ ts"
    "ws_pending s' - int (length (ws_inject s')) - inject_counted p'
      = ws_pending s - int (length (ws_inject s)) - inject_counted p"
  using assms by (cases p; auto split: if_splits)+

lemma inject_step_ext_inv:
  assumes inv: "ext_inv e s" and step: "inject_step s p = Some (s', p')"
  shows "ext_inv (e + inject_counted p' - inject_counted p) s'"
proof -
  note books = inject_step_books [OF step]
  obtain ts where ts: "ws_inject s' = ws_inject s @ ts" using books(5) by blast
  have drained: "wmain_drained (ws_main s) (length (ws_inject s))" using inv by (simp add: ext_inv_def ws_proto_def)
  then have "wmain_drained (ws_main s') (length (ws_inject s'))"
    by (cases "ws_main s") (simp_all add: books ts)
  moreover have "length (ws_waiting s') = length (ws_waiting s) + length ts"
    using drained by (cases "ws_main s") (simp_all add: ws_waiting_def books ts)
  moreover have "deque_tasks s' = deque_tasks s" by (simp add: deque_tasks_def books)
  ultimately show ?thesis
    using inv books(1-4,6) ts
    by (auto simp: ext_inv_def ws_proto_def ws_counts_def ws_tasks_def ws_drained_def)
qed

lemma inject_counted_nonneg: "0 \<le> inject_counted p"
  by (cases p) auto

lemma ws_ext_inv:
  assumes "lts_run ws_ext_step (ws_init, []) ls x"
  shows "ext_inv (sum_over inject_counted (snd x)) (fst x)"
  using assms
proof (rule lts_run_invariant)
  show "ext_inv (sum_over inject_counted (snd (ws_init, []))) (fst (ws_init, []))"
    using ws_inv_init by (auto simp: ext_inv_def ws_inv_def) (simp_all add: ws_init_def)
next
  fix x l x'
  assume inv: "ext_inv (sum_over inject_counted (snd x)) (fst x)" and step: "ws_ext_step x l x'"
  from step show "ext_inv (sum_over inject_counted (snd x')) (fst x')"
  proof cases
    case (own s l s' xs)
    with ws_step_ext_inv [of _ s l s'] inv sum_over_nonneg [of inject_counted xs] inject_counted_nonneg
    show ?thesis by auto
  next
    case (ext_work i xs s s' p)
    from inject_step_ext_inv [of _ s "xs ! i" s' p] inv ext_work show ?thesis
      by (simp add: sum_over_update_int)
  qed (use inv in simp)
qed

lemma ext_step_waits:
  assumes inv: "ext_inv e s" and e: "0 \<le> e" and wait: "ws_main s = X_wait" and ne: "ws_inject s \<noteq> []"
    and step: "ws_ext_step (s, xs) l (s', xs')"
  shows "ws_main s' = X_wait \<and> l \<noteq> Inl SRunRet \<and> (\<exists>ts. ws_inject s' = ws_inject s @ ts)"
  using step
proof cases
  case (own k)
  have proto: "ws_proto s" and counts: "ws_counts e s" using inv by (auto simp: ext_inv_def)
  have "0 \<le> sum_over wk_counted (ws_workers s)" by (rule sum_over_nonneg) simp
  moreover have "ws_pending s = e + int (size (deque_tasks s)) + int (length (ws_inject s)) + sum_over wk_counted (ws_workers s)"
    using counts wait by (simp add: ws_counts_def ws_tasks_def ws_waiting_def)
  moreover have "0 < length (ws_inject s)" using ne by simp
  ultimately have pos: "0 < ws_pending s" using e by linarith
  show ?thesis
    using proto own(3)
  proof (cases rule: ws_step_move)
    case (worker s1 w pc pc' b b' x y)
    with wait own(1) show ?thesis by (auto simp: worker_move_def ws_frame_def ws_set_def move_spec_def)
  next
    case (main s1 pc)
    with wait pos own(1) show ?thesis by auto
  qed (use wait in auto)
next
  case ext_call
  with wait show ?thesis by simp
next
  case (ext_work i p)
  with inject_step_books(4,5) [OF ext_work(4)] wait show ?thesis by simp
qed

lemma ext_run_waits:
  assumes "lts_run ws_ext_step x ls' x'" and "lts_run ws_ext_step (ws_init, []) ls x"
    and "ws_main (fst x) = X_wait" and "ws_inject (fst x) \<noteq> []"
  shows "ws_main (fst x') = X_wait \<and> Inl SRunRet \<notin> set ls' \<and> (\<exists>ts. ws_inject (fst x') = ws_inject (fst x) @ ts)"
  using assms(1)
proof (induction rule: lts_run.induct)
  case run_nil
  with assms(3) show ?case by simp
next
  case (run_snoc ls1 y l y')
  have "ext_inv (sum_over inject_counted (snd y)) (fst y)"
    using lts_run_append [OF run_snoc.hyps(1) assms(2)] by (rule ws_ext_inv)
  moreover have "0 \<le> sum_over inject_counted (snd y)" by (intro sum_over_nonneg inject_counted_nonneg)
  moreover have "ws_inject (fst y) \<noteq> []" using run_snoc.IH assms(4) by auto
  ultimately show ?case
    using ext_step_waits [of "sum_over inject_counted (snd y)" "fst y" "snd y" l "fst y'" "snd y'"]
      run_snoc.IH run_snoc.hyps(2) by auto
qed

section \<open>Calls of run with no workers\<close>

fun holds_inject_mu :: "'t wmain \<Rightarrow> bool" where
  "holds_inject_mu (X_submit (I_add t)) = True"
| "holds_inject_mu (X_submit (I_push t)) = True"
| "holds_inject_mu (X_submit I_unlock) = True"
| "holds_inject_mu (X_drain i) = True"
| "holds_inject_mu X_unlock = True"
| "holds_inject_mu pc = False"

lemma worker_step_mu: "ws_worker_step r w s b pc = Some (s', pc', b') \<Longrightarrow>
    ws_inject_mu s' = ws_inject_mu s \<and> ws_main s' = ws_main s"
  by (cases pc) (auto simp: set_deque_def Let_def
      split: if_splits option.splits prod.splits opc.splits tpc.splits elim!: spawn_step.elims)

lemma ws_step_mu:
  assumes "ws_inject_mu s = holds_inject_mu (ws_main s)" and "ws_step s l s'"
  shows "ws_inject_mu s' = holds_inject_mu (ws_main s')"
  using assms(2)
proof cases
  case (main s1 pc)
  with assms(1) show ?thesis
    by (cases "ws_main s") (auto simp: set_deque_def split: if_splits option.splits elim!: inject_step.elims)
next
  case (worker w pc b r s1 pc' b')
  with assms(1) worker_step_mu [OF worker(4)] show ?thesis by (simp add: ws_set_def)
qed (use assms(1) in \<open>simp_all add: ws_set_def\<close>)

lemma ws_run_mu: "lts_run ws_step ws_init ls s \<Longrightarrow> ws_inject_mu s = holds_inject_mu (ws_main s)"
  by (erule lts_run_invariant) (simp add: ws_init_def, erule (1) ws_step_mu)

lemma run_zero_stuck:
  assumes "lts_run ws_step ws_init ls s" and "ws_main s = X_idle" and "ws_inject s \<noteq> []"
  shows "\<exists>s'. lts_run ws_step s [SRunCall 0, STau, STau, STau] s' \<and> ws_main s' = X_drain 0 \<and> ws_deques s' = []
    \<and> (\<forall>l s''. \<not> ws_step s' l s'')"
proof -
  have none: "ws_workers s = []" using proto_outside [OF ws_run_proto [OF assms(1)]] assms(2) by simp
  have free: "\<not> ws_inject_mu s" using ws_run_mu [OF assms(1)] assms(2) by simp
  let ?s1 = "s\<lparr>ws_main := X_build, ws_n := 0\<rparr>"
  let ?s2 = "?s1\<lparr>ws_deques := [], ws_main := X_clear\<rparr>"
  let ?s3 = "?s2\<lparr>ws_shutdown := False, ws_main := X_lock\<rparr>"
  let ?s4 = "?s3\<lparr>ws_inject_mu := True, ws_main := X_drain 0\<rparr>"
  have st: "ws_step s (SRunCall 0) ?s1" "ws_step ?s1 STau ?s2" "ws_step ?s2 STau ?s3" "ws_step ?s3 STau ?s4"
    using ws_step.run_call [OF assms(2)] ws_step.main [of ?s1] ws_step.main [of ?s2] ws_step.main [of ?s3] free
    by simp_all
  have "lts_run ws_step s [SRunCall 0, STau, STau, STau] ?s4"
    by (rule lts_run_Cons [OF st(1) lts_run_Cons [OF st(2) lts_run_Cons [OF st(3) lts_run_Cons [OF st(4) run_nil [of ws_step]]]]])
  moreover have "\<not> ws_step ?s4 l s''" for l s''
  proof
    assume "ws_step ?s4 l s''"
    then show False by cases (use none assms(3) in \<open>simp_all add: ws_at_def\<close>)
  qed
  ultimately show ?thesis by (intro exI [of _ ?s4]) simp
qed

section \<open>Concrete runs\<close>

text \<open>Worker 0 runs task 7, which spawns task 8; worker 1 steals it.\<close>

definition ws_demo :: "nat slabel list \<times> nat ws" where
  "ws_demo = play ws_do (Submit Main 7 # replicate 5 (Do Main) @ Run 2 # replicate 9 (Do Main)
     @ replicate 8 (Do (Worker 0)) @ Submit (Worker 0) 8 # replicate 8 (Do (Worker 0)) @ replicate 20 (Do (Worker 1))
     @ [Finish 0, Do (Worker 0), Finish 1, Do (Worker 1)] @ replicate 12 (Do (Worker 0)) @ replicate 4 (Do Main)) ws_init"

definition ws_demo_labels :: "nat slabel list" where
  "ws_demo_labels = butlast (fst ws_demo)"

lemma ws_demo_prefix: "lts_run ws_step ws_init (fst ws_demo) (snd ws_demo)"
  unfolding ws_demo_def by (rule ws_play)

lemma ws_demo_return: "lts_run ws_step ws_init (ws_demo_labels @ [SRunRet]) (snd ws_demo)"
proof -
  have "fst ws_demo = ws_demo_labels @ [SRunRet]" by code_simp
  with ws_demo_prefix show ?thesis by metis
qed

text \<open>The same up to the theft.\<close>

definition ws_theft :: "nat slabel list \<times> nat ws" where
  "ws_theft = play ws_do (Submit Main 7 # replicate 5 (Do Main) @ Run 2 # replicate 9 (Do Main)
     @ replicate 8 (Do (Worker 0)) @ Submit (Worker 0) 8 # replicate 8 (Do (Worker 0)) @ replicate 16 (Do (Worker 1))) ws_init"

lemma ws_theft_run: "lts_run ws_step ws_init (fst ws_theft) (snd ws_theft)"
  unfolding ws_theft_def by (rule ws_play)

text \<open>A worker alone with a task that does not end: its colleague backs off eight times.\<close>

definition ws_idle :: "nat slabel list \<times> nat ws" where
  "ws_idle = play ws_do (Submit Main 7 # replicate 5 (Do Main) @ Run 2 # replicate 9 (Do Main)
     @ replicate 8 (Do (Worker 0)) @ replicate 600 (Do (Worker 1))) ws_init"

lemma ws_idle_run: "lts_run ws_step ws_init (fst ws_idle) (snd ws_idle)"
  unfolding ws_idle_def by (rule ws_play)

text \<open>Another thread submits task 9 while task 7 runs; then task 7 ends.\<close>

datatype 't ext_act = Own "'t act" | Ext 't | Ext_do nat

definition ws_ext_do :: "'t ext_act \<Rightarrow> 't ws \<times> 't inject list \<Rightarrow> (('t slabel + nat) \<times> 't ws \<times> 't inject list) option" where
  "ws_ext_do a x = (case a of
       Own b \<Rightarrow> (case ws_do b (fst x) of None \<Rightarrow> None | Some (l, s) \<Rightarrow> Some (Inl l, s, snd x))
     | Ext t \<Rightarrow> Some (Inr (length (snd x)), fst x, snd x @ [I_lock t])
     | Ext_do i \<Rightarrow> if length (snd x) \<le> i then None
         else (case inject_step (fst x) (snd x ! i) of None \<Rightarrow> None
           | Some (s, p) \<Rightarrow> Some (Inr i, s, (snd x)[i := p])))"

lemma ws_ext_do_step: "ws_ext_do a x = Some (l, x') \<Longrightarrow> ws_ext_step x l x'"
  by (cases x) (auto simp: ws_ext_do_def intro: ws_ext_step.intros dest: ws_do_step
      split: ext_act.splits option.splits if_splits)

lemma ws_ext_play: "lts_run ws_ext_step x (fst (play ws_ext_do as x)) (snd (play ws_ext_do as x))"
  by (rule play_run [OF ws_ext_do_step]) simp_all

definition ws_late :: "(nat slabel + nat) list \<times> nat ws \<times> nat inject list" where
  "ws_late = play ws_ext_do (map Own (Submit Main 7 # replicate 5 (Do Main) @ Run 1 # replicate 8 (Do Main)
     @ replicate 8 (Do (Worker 0))) @ Ext 9 # replicate 4 (Ext_do 0)) (ws_init, [])"

definition ws_later :: "(nat slabel + nat) list \<times> nat ws \<times> nat inject list" where
  "ws_later = play ws_ext_do (map Own (Finish 0 # replicate 40 (Do (Worker 0)) @ replicate 10 (Do Main))) (snd ws_late)"

section \<open>Properties\<close>

text \<open>C4. \<open>run\<close> returns only when every task submitted, before \<open>run\<close> or by a task, has been started
  exactly once and has finished: no task is lost or run twice between the deques and the thieves.\<close>

theorem stealing_run_completes:
  assumes "lts_run ws_step ws_init (ls @ [SRunRet]) s"
  shows "tally started ls = tally submitted ls \<and> tally finished ls = tally submitted ls"
  by (rule ws.return_complete [OF assms])

theorem stealing_run_completes_witness:
  "tally started ws_demo_labels = tally submitted ws_demo_labels
   \<and> tally finished ws_demo_labels = tally submitted ws_demo_labels"
  by (rule stealing_run_completes [OF ws_demo_return])

text \<open>C11. Every run of the class is label for label a run of the abstract scheduler, and at every moment
  each task submitted is in one place: a deque or the injection queue, the hands of a thread
  inside \<open>submit\<close>, \<open>pop_bottom\<close> or \<open>steal\<close>, under execution, or finished.\<close>

theorem stealing_implements_scheduler:
  assumes "lts_run ws_step ws_init ls s"
  shows "lts_run sched_spec spec_init ls (ws_view s)
    \<and> tally submitted ls = deque_tasks s + mset (ws_waiting s) + wmain_called (ws_main s)
        + sum_over wk_called (ws_workers s) + active_tasks (ws_running (ws_workers s)) + tally finished ls"
  using ws.run_view [OF assms] ws.account [OF assms] by (simp add: ws_view_def ws_tasks_def)

theorem stealing_implements_scheduler_witness:
  "lts_run sched_spec spec_init (fst ws_theft) (ws_view (snd ws_theft))
   \<and> wk_called (ws_workers (snd ws_theft) ! 1) = {#8#}"
proof -
  have "wk_code (ws_workers (snd ws_theft) ! 1) = V_steal 0 0 0 (StealRet \<lparr>res_task = Some 8, res_empty = False\<rparr>)"
    by code_simp
  then show ?thesis using stealing_implements_scheduler [OF ws_theft_run] by simp
qed

text \<open>C12. The deques of the scheduler are used as a Chase-Lev deque must be: whatever the workers do, the
  deque of worker \<open>i\<close> with worker \<open>i\<close> as owner and the workers stealing from it as thieves has gone
  through a run of the deque machine. So only its owner pushes and pops, each thread is in at most
  one of its operations, and what is proved of the deque alone holds of it here.\<close>

theorem stealing_uses_deque_machine:
  assumes "lts_run ws_step ws_init ls s" and "i < length (ws_deques s)"
  shows "\<exists>ls'. lts_run dq_step dsys_init ls' (ws_deque s i)"
  using ws_run_deques [OF assms(1)] assms(2) by (auto simp: deques_run_def dq_steps_def)

theorem stealing_uses_deque_machine_witness:
  "(\<exists>ls'. lts_run dq_step dsys_init ls' (ws_deque (snd ws_theft) 0))
   \<and> tpc (ws_deque (snd ws_theft) 0) 1 = StealRet \<lparr>res_task = Some 8, res_empty = False\<rparr>"
proof -
  have "0 < length (ws_deques (snd ws_theft))" by code_simp
  moreover have "tpc (ws_deque (snd ws_theft) 0) 1 = StealRet \<lparr>res_task = Some 8, res_empty = False\<rparr>" by code_simp
  ultimately show ?thesis using stealing_uses_deque_machine [OF ws_theft_run] by blast
qed

text \<open>C37. The choice of victims, with its arithmetic on 32 bits. The start is another worker, and any other
  worker can be it; every attempt of a round is on a deque of another worker, however many workers there
  are. Up to \<open>2 ^ 31\<close> workers the sum does not wrap, and this is what a round tries: every deque but the
  own one and the one before the start, which is left out unless the start is one of the next two workers.\<close>

theorem stealing_victims:
  assumes "2 \<le> n" and "n < 2 ^ 32" and "me < n"
  shows "pick_start n me r < n \<and> pick_start n me r \<noteq> me
    \<and> (\<forall>v. v < n \<and> v \<noteq> me \<longrightarrow> (\<exists>r. pick_start n me r = v))
    \<and> (\<forall>attempt. pick_victim n me (pick_start n me r) attempt < n
          \<and> pick_victim n me (pick_start n me r) attempt \<noteq> me)
    \<and> (n \<le> 2 ^ 31 \<longrightarrow> pick_victim n me (pick_start n me r) ` {..< n - 1}
        = {..<n} - {me, (pick_start n me r + n - 1) mod n}
          \<union> (if pick_start n me r = (me + 2) mod n then {(me + 1) mod n} else {}))"
proof -
  have range: "pick_start n me r < n" "pick_start n me r \<noteq> me" using pick_start_range [OF assms(1,3)] by auto
  have any: "\<exists>r. pick_start n me r = v" if "v < n \<and> v \<noteq> me" for v
    using pick_start_any [OF assms(1) _ assms(3)] assms(2) that by simp
  have "pick_victim n me (pick_start n me r) ` {..< n - 1}
      = {..<n} - {me, (pick_start n me r + n - 1) mod n}
        \<union> (if pick_start n me r = (me + 2) mod n then {(me + 1) mod n} else {})" if "n \<le> 2 ^ 31"
    using scan_cases [OF assms(1,3) range that] unfolding scan_def .
  with range any pick_victim_range [OF assms(1,3)] show ?thesis by blast
qed

theorem stealing_victims_witness:
  "pick_start 5 0 3 = 4 \<and> pick_victim 5 0 4 ` {..<4} = {1, 2, 4}"
proof -
  have start: "pick_start 5 0 3 = 4" by code_simp
  have "pick_victim 5 0 4 ` {..<5 - 1} = {..<5} - {0, (4 + 5 - 1) mod 5}
      \<union> (if (4::nat) = (0 + 2) mod 5 then {(0 + 1) mod 5} else {})"
    using stealing_victims [of 5 0 3] unfolding start by simp
  moreover have "{..<5} - {0, 3} = {1, 2, 4 :: nat}" by code_simp
  ultimately show ?thesis using start by simp
qed

text \<open>The number of yields of an unsuccessful round is a power of two between 1 and 128, so its
  doubling on 32 bits never wraps.\<close>

theorem stealing_backoff_bounded:
  assumes "lts_run ws_step ws_init ls s" and "k \<in> set (ws_workers s)"
  shows "(\<exists>j \<le> 7. unat (wk_backoff k) = 2 ^ j) \<and> unat (wk_backoff k * 2) = 2 * unat (wk_backoff k)"
proof -
  have "backoff_ok (wk_backoff k)" using ws_run_backoff [OF assms(1)] assms(2) by blast
  moreover from this have "unat (wk_backoff k * 2) = 2 * unat (wk_backoff k)" by (auto simp: backoff_ok_def)
  ultimately show ?thesis using backoff_power by blast
qed

theorem stealing_backoff_bounded_witness:
  "wk_backoff (ws_workers (snd ws_idle) ! 1) = 128 \<and> unat (wk_backoff (ws_workers (snd ws_idle) ! 1) * 2) = 256"
proof -
  have b: "map wk_backoff (ws_workers (snd ws_idle)) = [1, 128]" by code_simp
  then have len: "length (ws_workers (snd ws_idle)) = 2" by (metis length_map length_Cons list.size(3) One_nat_def Suc_1)
  with b have one: "wk_backoff (ws_workers (snd ws_idle) ! 1) = 128"
    by (metis nth_map nth_Cons_0 nth_Cons_Suc One_nat_def lessI Suc_1)
  have "ws_workers (snd ws_idle) ! 1 \<in> set (ws_workers (snd ws_idle))" using len by simp
  from stealing_backoff_bounded [OF ws_idle_run this] one show ?thesis by simp
qed

text \<open>C31. The workers are well typed and never stuck. In every run a worker has a deque of its own, its
  backoff is a power of two between 1 and 128, a steal under way is from the deque of another
  worker that exists, and a worker that has not left its loop can take a step of its own: its
  code never reaches a state in which the model, and so the program, has no next step.\<close>

theorem stealing_workers_typed:
  assumes "lts_run ws_step ws_init ls s" and "ws_at s w pc b"
  shows "w < length (ws_deques s) \<and> (\<exists>j \<le> 7. unat b = 2 ^ j)
    \<and> (\<forall>start attempt v q. pc = V_steal start attempt v q \<longrightarrow> v < length (ws_deques s) \<and> v \<noteq> w)
    \<and> (pc = V_exit \<or> (\<exists>l s' pc' b'. ws_step s l s' \<and> ws_at s' w pc' b' \<and> pc' \<noteq> pc))"
proof -
  have w: "w < length (ws_workers s)" and k: "ws_workers s ! w = \<lparr>wk_code = pc, wk_backoff = b\<rparr>"
    using assms(2) by (auto simp: ws_at_def)
  have "backoff_ok b" using ws_run_backoff [OF assms(1)] nth_mem [OF w] k by force
  then have "\<exists>j \<le> 7. unat b = 2 ^ j" by (rule backoff_power)
  moreover have typed: "wcode_typed (length (ws_deques s)) w pc"
    using ws_run_typed [OF assms(1)] w k by (force simp: workers_typed_def)
  moreover have "pc = V_exit \<or> (\<exists>l s' pc' b'. ws_step s l s' \<and> ws_at s' w pc' b' \<and> pc' \<noteq> pc)"
    using worker_progress [OF assms(2) typed] by blast
  ultimately show ?thesis using ws_at_facts(2) [OF ws_run_proto [OF assms(1)] assms(2)] by auto
qed

theorem stealing_workers_typed_witness:
  "0 < length (ws_deques (snd ws_theft)) \<and> (\<exists>l s' pc' b'. ws_step (snd ws_theft) l s' \<and> ws_at s' 1 pc' b')"
proof -
  have code: "wk_code (ws_workers (snd ws_theft) ! 1) = V_steal 0 0 0 (StealRet \<lparr>res_task = Some 8, res_empty = False\<rparr>)"
    by code_simp
  have "1 < length (ws_workers (snd ws_theft))" by code_simp
  then have at: "ws_at (snd ws_theft) 1 (V_steal 0 0 0 (StealRet \<lparr>res_task = Some 8, res_empty = False\<rparr>))
      (wk_backoff (ws_workers (snd ws_theft) ! 1))"
    using code by (simp add: ws_at_def)
  from stealing_workers_typed [OF ws_theft_run at] show ?thesis by auto
qed

text \<open>C19. A task that another thread submits while \<open>run\<close> waits is lost: it stays in the injection queue,
  which nobody reads before the next \<open>run\<close>, and since it is counted as pending, \<open>run\<close> waits for
  ever. So \<open>submit\<close> is not safe from any thread, as its comment says.\<close>

theorem stealing_late_submit_hangs:
  assumes "lts_run ws_ext_step (ws_init, []) ls (s, xs)" and "ws_main s = X_wait" and "t \<in> set (ws_inject s)"
    and "lts_run ws_ext_step (s, xs) ls' (s', xs')"
  shows "ws_main s' = X_wait \<and> Inl SRunRet \<notin> set ls' \<and> t \<in> set (ws_inject s')"
  using ext_run_waits [OF assms(4,1)] assms(2,3) by fastforce

theorem stealing_late_submit_hangs_witness:
  "ws_main (fst (snd ws_later)) = X_wait \<and> Inl SRunRet \<notin> set (fst ws_later) \<and> 9 \<in> set (ws_inject (fst (snd ws_later)))"
proof -
  have run: "lts_run ws_ext_step (ws_init, []) (fst ws_late) (fst (snd ws_late), snd (snd ws_late))"
    unfolding prod.collapse unfolding ws_late_def by (rule ws_ext_play)
  have more: "lts_run ws_ext_step (fst (snd ws_late), snd (snd ws_late)) (fst ws_later)
      (fst (snd ws_later), snd (snd ws_later))"
    unfolding prod.collapse unfolding ws_later_def by (rule ws_ext_play)
  have "ws_main (fst (snd ws_late)) = X_wait" "9 \<in> set (ws_inject (fst (snd ws_late)))" by code_simp+
  with stealing_late_submit_hangs [OF run _ _ more] show ?thesis by blast
qed

text \<open>C38. \<open>run(0)\<close> with a task submitted indexes an empty vector: it comes to the push into the deque of
  worker 0 with no deque there. The model has no step at that point.\<close>

theorem stealing_run_zero_undefined:
  assumes "lts_run ws_step ws_init ls s" and "ws_main s = X_idle" and "ws_inject s \<noteq> []"
  shows "\<exists>s'. lts_run ws_step s [SRunCall 0, STau, STau, STau] s' \<and> ws_main s' = X_drain 0 \<and> ws_deques s' = []
    \<and> (\<forall>l s''. \<not> ws_step s' l s'')"
  by (rule run_zero_stuck [OF assms])

definition ws_one :: "nat slabel list \<times> nat ws" where
  "ws_one = play ws_do (Submit Main 7 # replicate 5 (Do Main)) ws_init"

theorem stealing_run_zero_undefined_witness:
  "\<exists>s'. lts_run ws_step (snd ws_one) [SRunCall 0, STau, STau, STau] s' \<and> ws_deques s' = []"
proof -
  have run: "lts_run ws_step ws_init (fst ws_one) (snd ws_one)" unfolding ws_one_def by (rule ws_play)
  have "ws_main (snd ws_one) = X_idle" "ws_inject (snd ws_one) = [7]" by code_simp+
  with stealing_run_zero_undefined [OF run] show ?thesis by auto
qed

end
