(* ===== verification/Any_Scheduler.thy ===== *)
theory Any_Scheduler
  imports Mutex_Queue Lockfree_Queue Steal_Runs
begin

text \<open>
  The three classes behind the reference type \<^verbatim>\<open>IScheduler&\<close>: a state is the state of one of
  them, a step is a step of it. The factory and the names by which \<^verbatim>\<open>bench/scaling.cpp\<close> and
  \<^verbatim>\<open>bench/main.cpp\<close> refer to the classes are here, and what a program that submits a known
  set of tasks gets from any of them: the locale's conclusions hold for the reference type, so a
  client is verified once.
\<close>

section \<open>The classes and their names\<close>

datatype sched_class = MutexQueue | LockFreeQueue | WorkStealing

datatype 't any_sched = A_mutex "'t mq" | A_lockfree "'t lf" | A_stealing "'t ws"

fun any_init :: "sched_class \<Rightarrow> 't any_sched" where
  "any_init MutexQueue = A_mutex mq_init"
| "any_init LockFreeQueue = A_lockfree (lf_init kLog2Ring)"
| "any_init WorkStealing = A_stealing ws_init"

text \<open>\<^verbatim>\<open>name()\<close> of the three classes.\<close>

fun any_name :: "'t any_sched \<Rightarrow> string" where
  "any_name (A_mutex s) = ''MutexQueue''"
| "any_name (A_lockfree s) = ''LockFreeQueue''"
| "any_name (A_stealing s) = ''WorkStealing''"

text \<open>\<^verbatim>\<open>make_scheduler\<close>; \<open>None\<close> is \<^verbatim>\<open>std::abort()\<close>.\<close>

definition make_scheduler :: "string \<Rightarrow> 't any_sched option" where
  "make_scheduler nm =
     (if nm = ''MutexQueue'' then Some (any_init MutexQueue)
      else if nm = ''LockFreeQueue'' then Some (any_init LockFreeQueue)
      else if nm = ''WorkStealing'' then Some (any_init WorkStealing)
      else None)"

inductive any_step :: "'t any_sched \<Rightarrow> 't slabel \<Rightarrow> 't any_sched \<Rightarrow> bool" where
  mutex: "mq_step s l s' \<Longrightarrow> any_step (A_mutex s) l (A_mutex s')"
| lockfree: "lf_step s l s' \<Longrightarrow> any_step (A_lockfree s) l (A_lockfree s')"
| stealing: "ws_step s l s' \<Longrightarrow> any_step (A_stealing s) l (A_stealing s')"

inductive_simps any_step_simps:
  "any_step (A_mutex s) l s'"
  "any_step (A_lockfree s) l s'"
  "any_step (A_stealing s) l s'"

fun any_inv :: "'t any_sched \<Rightarrow> bool" where
  "any_inv (A_mutex s) = mq_inv s"
| "any_inv (A_lockfree s) = lf_inv s"
| "any_inv (A_stealing s) = ws_inv s"

fun any_view :: "'t any_sched \<Rightarrow> 't sched_state" where
  "any_view (A_mutex s) = mq_view s"
| "any_view (A_lockfree s) = lf_view s"
| "any_view (A_stealing s) = ws_view s"

lemma any_step_ok: "any_step s l s' \<Longrightarrow> any_inv s \<Longrightarrow> any_inv s' \<and> sched_spec (any_view s) l (any_view s')"
  by (induction rule: any_step.induct)
    (auto intro: mq.step_inv mq.step_spec lf.step_inv lf.step_spec ws.step_inv ws.step_spec)

lemma any_init_ok: "any_inv (any_init c) \<and> any_view (any_init c) = spec_init"
proof (cases c)
  case LockFreeQueue
  have "kLog2Ring = Suc 16" by (simp add: kLog2Ring_def)
  with LockFreeQueue lf.init_ok [of 16] show ?thesis by simp
qed (simp_all add: mq.init_ok ws.init_ok)

interpretation any: scheduler "any_init c" any_step any_inv any_view for c
  using any_step_ok any_init_ok by unfold_locales blast+

lemma make_init: "make_scheduler nm = Some s \<Longrightarrow> \<exists>c. s = any_init c"
  by (auto simp: make_scheduler_def simp del: any_init.simps split: if_splits)

lemma make_scheduler_of:
  "make_scheduler ''MutexQueue'' = Some (any_init MutexQueue)"
  "make_scheduler ''LockFreeQueue'' = Some (any_init LockFreeQueue)"
  "make_scheduler ''WorkStealing'' = Some (any_init WorkStealing)"
  by (simp_all add: make_scheduler_def)

text \<open>Steps are taken inside the class chosen at the start.\<close>

lemma any_step_name: "any_step s l s' \<Longrightarrow> any_name s' = any_name s"
  by (induction rule: any_step.induct) simp_all

section \<open>Replaying a schedule\<close>

fun any_do :: "'t act \<Rightarrow> 't any_sched \<Rightarrow> ('t slabel \<times> 't any_sched) option" where
  "any_do a (A_mutex s) = map_option (apsnd A_mutex) (mq_do a s)"
| "any_do a (A_lockfree s) = map_option (apsnd A_lockfree) (lf_do a s)"
| "any_do a (A_stealing s) = map_option (apsnd A_stealing) (ws_do a s)"

lemma any_do_step: "any_do a s = Some (l, s') \<Longrightarrow> any_step s l s'"
  by (cases s) (auto simp: apsnd_def map_prod_def split: prod.splits
      intro!: any_step.intros mq_do_step lf_do_step ws_do_step)

lemma any_play: "lts_run any_step s (fst (play any_do as s)) (snd (play any_do as s))"
  by (rule play_run [OF any_do_step]) simp_all

section \<open>Properties\<close>

text \<open>The factory and \<open>name()\<close> are inverse: a scheduler made for a name answers with that name,
  whatever has been done with it, and its name makes a scheduler like it again. Every other name
  aborts.\<close>

theorem factory_name_roundtrip:
  fixes s0 s :: "'a any_sched"
  assumes "make_scheduler nm = Some s0" and "lts_run any_step s0 ls s"
  shows "any_name s = nm \<and> make_scheduler (any_name s) = Some s0
    \<and> (make_scheduler nm' = (None :: 'a any_sched option) \<longleftrightarrow> nm' \<notin> {''MutexQueue'', ''LockFreeQueue'', ''WorkStealing''})"
proof -
  have "any_name s = any_name s0"
    using assms(2) by induction (simp_all add: any_step_name)
  then have "any_name s = nm" using assms(1) by (auto simp: make_scheduler_def split: if_splits)
  with assms(1) show ?thesis by (auto simp: make_scheduler_def)
qed

definition any_once :: "nat slabel list \<times> nat any_sched" where
  "any_once = play any_do (Submit Main 7 # replicate 5 (Do Main)) (any_init WorkStealing)"

theorem factory_name_roundtrip_witness:
  "any_name (snd any_once) = ''WorkStealing'' \<and> make_scheduler ''Mutex'' = (None :: nat any_sched option)"
proof -
  have "lts_run any_step (any_init WorkStealing) (fst any_once) (snd any_once)"
    unfolding any_once_def by (rule any_play)
  from factory_name_roundtrip [OF make_scheduler_of(3) this, of "''Mutex''"] show ?thesis by simp
qed

end
