(* ===== verification/Graph_Runs.thy ===== *)
theory Graph_Runs
  imports Graph_Execution Any_Scheduler
begin

text \<open>
  Task graphs on the schedulers of the library: what \<^verbatim>\<open>TaskGraph::execute\<close> does on a reference
  to any of them follows from the contract.
\<close>

interpretation anyg: node_scheduler "any_init c" any_step any_inv any_view for c
  by unfold_locales

section \<open>Concrete executions\<close>

definition round_robin :: "nat \<Rightarrow> thread list" where
  "round_robin k = concat (replicate k [Main, Worker 0, Worker 1])"

text \<open>Node 0 before nodes 1 and 2, these before node 3.\<close>

definition diamond :: "build_call list" where
  "diamond = [New_node, New_node, New_node, New_node, Depends_on 1 [0], Depends_on 2 [0], Depends_on 3 [1, 2]]"

definition diamond_graph :: graph where
  "diamond_graph = \<lparr>gr_nodes = [\<lparr>nd_deps = 0, nd_succs = [1, 2]\<rparr>, \<lparr>nd_deps = 1, nd_succs = [3]\<rparr>,
     \<lparr>nd_deps = 1, nd_succs = [3]\<rparr>, \<lparr>nd_deps = 2, nd_succs = []\<rparr>], gr_remaining = 0, gr_executing = False\<rparr>"

lemma diamond_built: "tg_build diamond = Some diamond_graph"
  by code_simp

definition ws_diamond :: "glabel list \<times> nat any_sched gsys" where
  "ws_diamond = play (tg_do any_do) (round_robin 220) (tg_start diamond_graph 2 (any_init WorkStealing))"

definition ws_diamond_before :: "glabel list" where
  "ws_diamond_before = takeWhile (\<lambda>l. l \<noteq> GBegin 3) (fst ws_diamond)"

lemma ws_diamond_labels:
  "fst ws_diamond = butlast (fst ws_diamond) @ [GReturn]"
  "fst ws_diamond = (ws_diamond_before @ [GBegin 3]) @ tl (dropWhile (\<lambda>l. l \<noteq> GBegin 3) (fst ws_diamond))"
  by code_simp+

lemma ws_diamond_run: "lts_run (tg_step any_step) (tg_start diamond_graph 2 (any_init WorkStealing)) (fst ws_diamond) (snd ws_diamond)"
  unfolding ws_diamond_def by (rule tg_play [OF any_do_step])

lemma ws_diamond_return:
  "lts_run (tg_step any_step) (tg_start diamond_graph 2 (any_init WorkStealing)) (butlast (fst ws_diamond) @ [GReturn]) (snd ws_diamond)"
  by (rule subst [OF ws_diamond_labels(1), where P = "\<lambda>ls. lts_run _ _ ls _"]) (rule ws_diamond_run)

text \<open>Nodes 1 and 2 wait for each other, node 3 for node 2; node 0 is free.\<close>

definition cyclic :: "build_call list" where
  "cyclic = [New_node, New_node, New_node, New_node, Depends_on 1 [2], Depends_on 2 [1], Depends_on 3 [2]]"

definition cyclic_graph :: graph where
  "cyclic_graph = the (tg_build cyclic)"

lemma cyclic_built: "tg_build cyclic = Some cyclic_graph"
  by code_simp

definition mq_cyclic :: "glabel list \<times> nat any_sched gsys" where
  "mq_cyclic = play (tg_do any_do) (round_robin 50) (tg_start cyclic_graph 2 (any_init MutexQueue))"

lemma mq_cyclic_labels: "fst mq_cyclic = butlast (fst mq_cyclic) @ [GFail]"
  by code_simp

lemma mq_cyclic_fail:
  "lts_run (tg_step any_step) (tg_start cyclic_graph 2 (any_init MutexQueue)) (butlast (fst mq_cyclic) @ [GFail]) (snd mq_cyclic)"
  by (rule subst [OF mq_cyclic_labels, where P = "\<lambda>ls. lts_run _ _ ls _"])
    (unfold mq_cyclic_def, rule tg_play [OF any_do_step])

lemma indeg_small:
  assumes "\<forall>m \<in> set [0..<tg_size g]. sum_list (map (\<lambda>p. count_list (succs g p) m) [0..<tg_size g]) < 5"
  shows "\<forall>m < tg_size g. indeg g m < 2 ^ 32"
proof (intro allI impI)
  fix m
  assume "m < tg_size g"
  with assms have "indeg g m < 5" by (simp add: indeg_eval)
  then show "indeg g m < 2 ^ 32" by simp
qed

lemma diamond_small: "\<forall>m < tg_size diamond_graph. indeg diamond_graph m < 2 ^ 32"
  by (rule indeg_small) code_simp

lemma cyclic_small: "\<forall>m < tg_size cyclic_graph. indeg cyclic_graph m < 2 ^ 32"
  by (rule indeg_small) code_simp

text \<open>The cyclic graph's nodes 1, 2 and 3 are the ones no run can reach.\<close>

lemma cyclic_succs: "succs cyclic_graph = (\<lambda>p. if p = 1 then [2] else if p = 2 then [1, 3] else [])"
proof
  fix p
  have size: "length (gr_nodes cyclic_graph) = 4" by code_simp
  have "\<forall>p \<in> set [0..<4]. succs cyclic_graph p = (if p = 1 then [2] else if p = 2 then [1, 3] else [])"
    by code_simp
  then show "succs cyclic_graph p = (if p = 1 then [2] else if p = 2 then [1, 3] else [])"
    by (cases "p < 4") (auto simp: succs_def size)
qed

lemma cyclic_unreachable: "{n. n < tg_size cyclic_graph \<and> n \<notin> Wellfounded.acc (edge cyclic_graph)} = {1, 2, 3}"
proof -
  have size: "tg_size cyclic_graph = 4" by code_simp
  have no: "n \<noteq> 1 \<and> n \<noteq> 2" if "n \<in> Wellfounded.acc (edge cyclic_graph)" for n
    using that
  proof (induction rule: acc.induct)
    case (accI n)
    have "(2, 1) \<in> edge cyclic_graph" "(1, 2) \<in> edge cyclic_graph" by (auto simp: edge_def cyclic_succs)
    with accI show ?case by blast
  qed
  have "3 \<notin> Wellfounded.acc (edge cyclic_graph)"
  proof
    assume "3 \<in> Wellfounded.acc (edge cyclic_graph)"
    moreover have "(2, 3) \<in> edge cyclic_graph" by (auto simp: edge_def cyclic_succs)
    ultimately have "2 \<in> Wellfounded.acc (edge cyclic_graph)" by (rule acc_downward)
    with no show False by blast
  qed
  moreover have "0 \<in> Wellfounded.acc (edge cyclic_graph)"
    by (rule accI) (auto simp: edge_def cyclic_succs split: if_splits)
  ultimately show ?thesis using no by (auto simp: size numeral_eq_Suc less_Suc_eq)
qed


lemma diamond_acyclic: "acyclic (edge diamond_graph)"
proof (rule acyclicI_order [where f = "\<lambda>n. - int n"])
  fix p n
  assume e: "(p, n) \<in> edge diamond_graph"
  have "\<forall>p \<in> set [0..<4]. \<forall>n \<in> set (succs diamond_graph p). p < n" by code_simp
  moreover have "p < 4" using e by (auto simp: edge_def succs_def diamond_graph_def split: if_splits)
  ultimately show "- int n < - int p" using e by (auto simp: edge_def)
qed

text \<open>A cycle is what keeps a node from being reached.\<close>

lemma acyclic_iff_all_acc: "acyclic (edge g) \<longleftrightarrow> {n. n < tg_size g \<and> n \<notin> Wellfounded.acc (edge g)} = {}"
proof
  assume "acyclic (edge g)"
  from acyclic_all_released [OF this] show "{n. n < tg_size g \<and> n \<notin> Wellfounded.acc (edge g)} = {}" by simp
next
  assume all: "{n. n < tg_size g \<and> n \<notin> Wellfounded.acc (edge g)} = {}"
  have "n \<in> Wellfounded.acc (edge g)" for n
  proof (rule accI)
    fix p
    assume "(p, n) \<in> edge g"
    then have "p < tg_size g" by (auto simp: edge_def succs_def tg_size_def split: if_splits)
    with all show "p \<in> Wellfounded.acc (edge g)" by blast
  qed
  then have "wf (edge g)" by (simp add: acc_wfI)
  then show "acyclic (edge g)" by (rule wf_acyclic)
qed

lemma any_graph_end:
  assumes "make_scheduler nm = Some s0" and "tg_build cs = Some g" and "\<forall>m < tg_size g. indeg g m < 2 ^ 32"
    and "lts_run (tg_step any_step) (tg_start g k s0) (ls @ [l]) s" and "l \<in> {GReturn, GFail}"
  shows "tally begun_nodes ls = mset_set {n. n < tg_size g \<and> n \<in> Wellfounded.acc (edge g)}"
    and "tally ended_nodes ls = tally begun_nodes ls"
    and "gr_remaining (gs_graph s) = int (card {n. n < tg_size g \<and> n \<notin> Wellfounded.acc (edge g)})"
    and "l = GFail \<longleftrightarrow> {n. n < tg_size g \<and> n \<notin> Wellfounded.acc (edge g)} \<noteq> {}"
proof -
  obtain c where c: "s0 = any_init c" using make_init [OF assms(1)] by blast
  have l: "l = GReturn \<or> l = GFail" using assms(5) by blast
  note ends = anyg.graph_end [OF build_ok [OF assms(2)] assms(3) assms(4) [unfolded c] l]
  then show "tally begun_nodes ls = mset_set {n. n < tg_size g \<and> n \<in> Wellfounded.acc (edge g)}"
    "tally ended_nodes ls = tally begun_nodes ls"
    and rest: "gr_remaining (gs_graph s) = int (card {n. n < tg_size g \<and> n \<notin> Wellfounded.acc (edge g)})"
    by simp_all
  have "l = GReturn \<longleftrightarrow> gr_remaining (gs_graph s) = 0" using ends by blast
  with rest l show "l = GFail \<longleftrightarrow> {n. n < tg_size g \<and> n \<notin> Wellfounded.acc (edge g)} \<noteq> {}" by auto
qed

section \<open>Properties\<close>

text \<open>C8. In every execution of a graph on any of the schedulers, a node's callable starts at most once, and only after the
  callables of all its predecessors have returned.\<close>

theorem dag_runs_in_order:
  assumes "make_scheduler nm = Some s0" and "tg_build cs = Some g" and "\<forall>m < tg_size g. indeg g m < 2 ^ 32"
    and "lts_run (tg_step any_step) (tg_start g k s0) (ls @ [GBegin n]) s"
  shows "n < tg_size g \<and> n \<notin># tally begun_nodes ls \<and> (\<forall>p. n \<in> set (succs g p) \<longrightarrow> p \<in># tally ended_nodes ls)"
proof -
  obtain c where "s0 = any_init c" using make_init [OF assms(1)] by blast
  with anyg.graph_order [OF build_ok [OF assms(2)] assms(3)] assms(4) show ?thesis by blast
qed

theorem dag_runs_in_order_witness:
  "3 \<notin># tally begun_nodes ws_diamond_before
   \<and> 1 \<in># tally ended_nodes ws_diamond_before \<and> 2 \<in># tally ended_nodes ws_diamond_before"
proof -
  obtain s where "lts_run (tg_step any_step) (tg_start diamond_graph 2 (any_init WorkStealing)) (ws_diamond_before @ [GBegin 3]) s"
    using lts_run_prefix ws_diamond_run ws_diamond_labels(2) by metis
  note order = dag_runs_in_order [OF make_scheduler_of(3) diamond_built diamond_small this]
  moreover have "3 \<in> set (succs diamond_graph 1)" "3 \<in> set (succs diamond_graph 2)" by code_simp+
  ultimately show ?thesis by blast
qed

text \<open>C7. On an acyclic graph, on any of the schedulers, the assertion at the end of \<open>execute\<close> never fails: when \<open>run\<close>
  has returned, every node's callable has run exactly once, \<^verbatim>\<open>remaining_nodes_\<close> is zero, and \<open>execute\<close>
  returns.\<close>

theorem dag_executes_every_node:
  assumes "make_scheduler nm = Some s0" and "tg_build cs = Some g" and "\<forall>m < tg_size g. indeg g m < 2 ^ 32" and "acyclic (edge g)"
    and "lts_run (tg_step any_step) (tg_start g k s0) (ls @ [l]) s" and "l \<in> {GReturn, GFail}"
  shows "l = GReturn \<and> tally begun_nodes ls = mset [0..<tg_size g] \<and> tally ended_nodes ls = mset [0..<tg_size g]
    \<and> gr_remaining (gs_graph s) = 0"
  using any_graph_end [OF assms(1-3,5,6)] assms(6)
  by (simp add: acyclic_all_released [OF assms(4)] lessThan_def [symmetric] lessThan_atLeast0)

theorem dag_executes_every_node_witness:
  "tally ended_nodes (butlast (fst ws_diamond)) = mset [0..<tg_size diamond_graph]
   \<and> gr_remaining (gs_graph (snd ws_diamond)) = 0"
  using dag_executes_every_node [OF make_scheduler_of(3) diamond_built diamond_small diamond_acyclic ws_diamond_return] by blast

text \<open>C24. On any graph and any of the schedulers, when \<open>run\<close> has returned, exactly the nodes that are not on or behind a
  cycle have run, each once, and \<^verbatim>\<open>remaining_nodes_\<close> counts the others. So with a cycle the
  assertion at the end of \<open>execute\<close> fails, and without one \<open>execute\<close> returns.\<close>

theorem dag_cycle_fails_assertion:
  assumes "make_scheduler nm = Some s0" and "tg_build cs = Some g" and "\<forall>m < tg_size g. indeg g m < 2 ^ 32"
    and "lts_run (tg_step any_step) (tg_start g k s0) (ls @ [l]) s" and "l \<in> {GReturn, GFail}"
  shows "tally begun_nodes ls = mset_set {n. n < tg_size g \<and> n \<in> Wellfounded.acc (edge g)}
    \<and> tally ended_nodes ls = tally begun_nodes ls
    \<and> gr_remaining (gs_graph s) = int (card {n. n < tg_size g \<and> n \<notin> Wellfounded.acc (edge g)})
    \<and> (l = GFail \<longleftrightarrow> \<not> acyclic (edge g))"
  using any_graph_end [OF assms] acyclic_iff_all_acc [of g] by simp

theorem dag_cycle_fails_assertion_witness: "gr_remaining (gs_graph (snd mq_cyclic)) = 3 \<and> \<not> acyclic (edge cyclic_graph)"
  using dag_cycle_fails_assertion [OF make_scheduler_of(1) cyclic_built cyclic_small mq_cyclic_fail]
  by (simp add: cyclic_unreachable)

end
