(* ===== verification/Workload.thy ===== *)
theory Workload
  imports Any_Scheduler
begin

text \<open>
  Programs that use a scheduler: the thread that owns it submits tasks and calls \<open>run\<close>, in a
  fixed order, and every task submits a fixed list of tasks when it runs. A client runs in step
  with the scheduler, allowing only the labels its program makes. Under the contract of a
  scheduler the tasks executed are then known: the submitted ones and all that these spawn.
\<close>

section \<open>Clients\<close>

datatype 't command = Submit_task 't | Call_run nat

record 't client =
  cl_todo :: "'t command list"              \<comment> \<open>what the owner still has to do\<close>
  cl_tasks :: "nat \<Rightarrow> 't list option"       \<comment> \<open>what the task a worker runs still has to submit\<close>

definition client_start :: "'t command list \<Rightarrow> 't client" where
  "client_start cs = \<lparr>cl_todo = cs, cl_tasks = (\<lambda>_. None)\<rparr>"

fun client_next :: "('t \<Rightarrow> 't list) \<Rightarrow> 't slabel \<Rightarrow> 't client \<Rightarrow> 't client option" where
  "client_next body (SCall Main t) c =
     (case cl_todo c of
        Submit_task u # cs \<Rightarrow> if u = t then Some (c\<lparr>cl_todo := cs\<rparr>) else None
      | _ \<Rightarrow> None)"
| "client_next body (SRunCall n) c =
     (case cl_todo c of
        Call_run m # cs \<Rightarrow> if m = n then Some (c\<lparr>cl_todo := cs\<rparr>) else None
      | _ \<Rightarrow> None)"
| "client_next body (SStart w t) c = Some (c\<lparr>cl_tasks := (cl_tasks c)(w := Some (body t))\<rparr>)"
| "client_next body (SCall (Worker w) t) c =
     (case cl_tasks c w of
        Some (u # us) \<Rightarrow> if u = t then Some (c\<lparr>cl_tasks := (cl_tasks c)(w := Some us)\<rparr>) else None
      | _ \<Rightarrow> None)"
| "client_next body (SFinish w t) c =
     (if cl_tasks c w = Some [] then Some (c\<lparr>cl_tasks := (cl_tasks c)(w := None)\<rparr>) else None)"
| "client_next body l c = Some c"

definition client_step :: "('s \<Rightarrow> 't slabel \<Rightarrow> 's \<Rightarrow> bool) \<Rightarrow> ('t \<Rightarrow> 't list) \<Rightarrow>
    's \<times> 't client \<Rightarrow> 't slabel \<Rightarrow> 's \<times> 't client \<Rightarrow> bool" where
  "client_step step body x l y \<longleftrightarrow> step (fst x) l (fst y) \<and> client_next body l (snd x) = Some (snd y)"

section \<open>What the tasks spawn\<close>

definition spawned :: "('t \<Rightarrow> 't list) \<Rightarrow> 't multiset \<Rightarrow> 't multiset" where
  "spawned body X = sum_mset (image_mset (\<lambda>t. mset (body t)) X)"

lemma spawned_simps [simp]:
  "spawned body {#} = {#}"
  "spawned body (add_mset t X) = mset (body t) + spawned body X"
  "spawned body (X + Y) = spawned body X + spawned body Y"
  by (simp_all add: spawned_def)

text \<open>A function that gives a task with everything it spawns, directly or not.\<close>

definition is_tree :: "('t \<Rightarrow> 't list) \<Rightarrow> ('t \<Rightarrow> 't multiset) \<Rightarrow> bool" where
  "is_tree body tree \<longleftrightarrow> (\<forall>t. tree t = add_mset t (sum_mset (image_mset tree (mset (body t)))))"

definition trees :: "('t \<Rightarrow> 't multiset) \<Rightarrow> 't multiset \<Rightarrow> 't multiset" where
  "trees tree X = sum_mset (image_mset tree X)"

lemma trees_simps [simp]:
  "trees tree {#} = {#}"
  "trees tree (add_mset t X) = tree t + trees tree X"
  "trees tree (X + Y) = trees tree X + trees tree Y"
  by (simp_all add: trees_def)

lemma trees_unfold: "is_tree body tree \<Longrightarrow> trees tree X = X + trees tree (spawned body X)"
proof (induction X)
  case (add t X)
  then have "tree t = add_mset t (trees tree (mset (body t)))" by (simp add: is_tree_def trees_def)
  with add show ?case by simp
qed simp

text \<open>A closed set of tasks is the trees of its roots.\<close>

lemma closed_trees:
  assumes "is_tree body tree" and "X = R + spawned body X"
  shows "X = trees tree R"
proof -
  have "X + trees tree (spawned body X) = trees tree X" using trees_unfold [OF assms(1), of X] by simp
  also have "\<dots> = trees tree R + trees tree (spawned body X)"
    using arg_cong [OF assms(2), of "trees tree"] by simp
  finally show ?thesis by simp
qed

section \<open>Accounting\<close>

primrec submits :: "'t command list \<Rightarrow> 't list" where
  "submits [] = []"
| "submits (c # cs) = (case c of Submit_task t \<Rightarrow> t # submits cs | Call_run n \<Rightarrow> submits cs)"

primrec runs :: "'t command list \<Rightarrow> nat" where
  "runs [] = 0"
| "runs (c # cs) = (case c of Submit_task t \<Rightarrow> runs cs | Call_run n \<Rightarrow> Suc (runs cs))"

lemma submits_append [simp]: "submits (cs @ ds) = submits cs @ submits ds" "runs (cs @ ds) = runs cs + runs ds"
  by (induction cs) (auto split: command.splits)

lemma submits_map [simp]: "submits (map Submit_task ts) = ts" "runs (map Submit_task ts) = 0"
  by (induction ts) auto

definition rest_tasks :: "(nat \<Rightarrow> 't list option) \<Rightarrow> 't multiset" where
  "rest_tasks r = (\<Sum>w\<in>dom r. mset (the (r w)))"

lemma rest_tasks_empty [simp]: "rest_tasks (\<lambda>_. None) = {#}"
  by (simp add: rest_tasks_def)

lemma rest_tasks_some: "finite (dom r) \<Longrightarrow> rest_tasks (r(w := Some ts)) = mset ts + rest_tasks (r(w := None))"
  by (auto simp: rest_tasks_def domIff sum.insert_remove intro!: sum.cong)

lemma rest_tasks_split: "finite (dom r) \<Longrightarrow> r w = Some ts \<Longrightarrow> rest_tasks r = mset ts + rest_tasks (r(w := None))"
  using rest_tasks_some [of r w ts] by (simp add: fun_upd_idem)

text \<open>
  What a client's run has done: \<open>d\<close> are the commands carried out, and the tasks submitted or
  still to be submitted by tasks under way are those of \<open>d\<close> and those spawned.
\<close>

definition client_books :: "'t command list \<Rightarrow> ('t \<Rightarrow> 't list) \<Rightarrow> 't slabel list \<Rightarrow> 't sched_state \<Rightarrow> 't client \<Rightarrow>
    't command list \<Rightarrow> bool" where
  "client_books cs body ls p c d \<longleftrightarrow> cs = d @ cl_todo c
     \<and> (\<forall>w. cl_tasks c w = None \<longleftrightarrow> sp_running p w = None)
     \<and> tally submitted ls + rest_tasks (cl_tasks c) = mset (submits d) + spawned body (tally started ls)
     \<and> runs d = count_list ls SRunRet + (if sp_phase p = None then 0 else 1)
     \<and> (sp_phase p \<noteq> None \<longrightarrow> (\<exists>d' n. d = d' @ [Call_run n]))"

lemma client_books_start: "client_books cs body [] spec_init (client_start cs) []"
  by (simp add: client_books_def client_start_def spec_init_def)

lemma client_books_step:
  assumes wf: "spec_wf p" and books: "client_books cs body ls p c d"
    and step: "sched_spec p l p'" and nxt: "client_next body l c = Some c'"
  shows "\<exists>d'. client_books cs body (ls @ [l]) p' c' d'"
proof -
  have iff: "cl_tasks c w = None \<longleftrightarrow> sp_running p w = None" for w using books unfolding client_books_def by blast
  have dom: "dom (cl_tasks c) = dom (sp_running p)" unfolding dom_def iff ..
  then have fin: "finite (dom (cl_tasks c))" using spec_wf_finite [OF wf] by simp
  have same: "\<exists>d'. client_books cs body (ls @ [l]) p' c' d'"
    if "l = STau \<or> (\<exists>th. l = SRet th)"
  proof -
    have "c' = c" "p' = p" "submitted l = {#}" "started l = {#}" "l \<noteq> SRunRet"
      using that nxt step by (auto simp: sched_spec_simps)
    with books show ?thesis by (auto simp: client_books_def)
  qed
  show ?thesis
  proof (cases l)
    case (SCall th t)
    show ?thesis
    proof (cases th)
      case Main
      then obtain ds where c: "cl_todo c = Submit_task t # ds" "c' = c\<lparr>cl_todo := ds\<rparr>"
        using nxt SCall by (auto split: list.splits command.splits if_splits)
      have p: "sp_phase p = None" "sp_running p' = sp_running p" "sp_phase p' = None"
        using step SCall Main by (auto simp: sched_spec_simps)
      have "client_books cs body (ls @ [l]) p' c' (d @ [Submit_task t])"
        using books c p SCall by (simp add: client_books_def ac_simps)
      then show ?thesis ..
    next
      case (Worker w)
      then obtain us where c: "cl_tasks c w = Some (t # us)" "c' = c\<lparr>cl_tasks := (cl_tasks c)(w := Some us)\<rparr>"
        using nxt SCall by (auto split: list.splits option.splits if_splits)
      have p: "sp_running p' = sp_running p" "sp_phase p' = sp_phase p" "sp_running p w \<noteq> None"
        using step SCall Worker by (auto simp: sched_spec_simps)
      have "rest_tasks (cl_tasks c) = add_mset t (rest_tasks (cl_tasks c'))"
        using rest_tasks_split [OF fin c(1)] rest_tasks_some [OF fin, of w us] c(2) by simp
      then have "client_books cs body (ls @ [l]) p' c' d"
        using books c p SCall by (auto simp: client_books_def)
      then show ?thesis ..
    qed
  next
    case (SStart w t)
    have c: "c' = c\<lparr>cl_tasks := (cl_tasks c)(w := Some (body t))\<rparr>" using nxt SStart by simp
    have p: "sp_running p w = None" "sp_running p' = (sp_running p)(w := Some t)" "sp_phase p' = sp_phase p"
      using step SStart by (auto simp: sched_spec_simps)
    have none: "cl_tasks c w = None" using books p(1) by (simp add: client_books_def)
    then have "rest_tasks (cl_tasks c') = mset (body t) + rest_tasks (cl_tasks c)"
      using rest_tasks_some [OF fin, of w "body t"] c by (simp add: fun_upd_idem)
    then have "client_books cs body (ls @ [l]) p' c' d"
      using books c p SStart by (simp add: client_books_def ac_simps)
    then show ?thesis ..
  next
    case (SFinish w t)
    then have c: "cl_tasks c w = Some []" "c' = c\<lparr>cl_tasks := (cl_tasks c)(w := None)\<rparr>"
      using nxt by (auto split: if_splits)
    have p: "sp_running p' = (sp_running p)(w := None)" "sp_phase p' = sp_phase p"
      using step SFinish by (auto simp: sched_spec_simps)
    have "rest_tasks (cl_tasks c') = rest_tasks (cl_tasks c)" using rest_tasks_split [OF fin c(1)] c(2) by simp
    then have "client_books cs body (ls @ [l]) p' c' d"
      using books c p SFinish by (simp add: client_books_def)
    then show ?thesis ..
  next
    case (SRunCall n)
    then obtain ds where c: "cl_todo c = Call_run n # ds" "c' = c\<lparr>cl_todo := ds\<rparr>"
      using nxt by (auto split: list.splits command.splits if_splits)
    have p: "sp_phase p = None" "sp_running p' = sp_running p" "sp_phase p' = Some n"
      using step SRunCall by (auto simp: sched_spec_simps)
    have "client_books cs body (ls @ [l]) p' c' (d @ [Call_run n])"
      using books c p SRunCall by (simp add: client_books_def)
    then show ?thesis ..
  next
    case SRunRet
    have p: "sp_phase p \<noteq> None" "sp_running p' = sp_running p" "sp_phase p' = None"
      using step SRunRet by (auto simp: sched_spec_simps)
    have "client_books cs body (ls @ [l]) p' c' d"
      using books nxt p SRunRet by (auto simp: client_books_def)
    then show ?thesis ..
  qed (use same in auto)
qed

text \<open>
  The programs of the benchmarks: rounds of submitting some tasks and calling \<open>run\<close>. What has
  been submitted when some call of \<open>run\<close> has been made is what its round and the ones before
  it submit.
\<close>

definition program_of :: "('t list \<times> nat) list \<Rightarrow> 't command list" where
  "program_of rounds = concat (map (\<lambda>(ts, n). map Submit_task ts @ [Call_run n]) rounds)"

lemma program_of_simps [simp]:
  "program_of [] = []"
  "program_of ((ts, n) # rounds) = map Submit_task ts @ Call_run n # program_of rounds"
  by (simp_all add: program_of_def)

lemma program_runs [simp]: "runs (program_of rounds) = length rounds"
  by (induction rounds) auto

lemma program_prefix:
  "program_of rounds = d @ rest \<Longrightarrow> d = d' @ [Call_run n] \<Longrightarrow>
    submits d = concat (map fst (take (runs d) rounds)) \<and> runs d \<le> length rounds"
proof (induction rounds arbitrary: d d')
  case (Cons round rounds)
  obtain ts m where round: "round = (ts, m)" by (cases round)
  let ?a = "map Submit_task ts @ [Call_run m]"
  have "?a @ program_of rounds = d @ rest" using Cons.prems(1) round by simp
  then consider us where "?a = d @ us" "us @ program_of rounds = rest"
    | us where "d = ?a @ us" "program_of rounds = us @ rest" unfolding append_eq_append_conv2 by metis
  then show ?case
  proof cases
    case 1
    have "runs us = 0" using arg_cong [OF 1(1), of runs] Cons.prems(2) by simp
    then have "us = []" using 1(1) by (cases us rule: rev_cases) (auto simp: append_eq_append_conv2)
    then have d: "d = ?a" using 1(1) by simp
    then show ?thesis by (simp add: round)
  next
    case (2 us)
    show ?thesis
    proof (cases us rule: rev_cases)
      case Nil
      with 2 show ?thesis by (simp add: round)
    next
      case (snoc vs c)
      then have "us = vs @ [Call_run n]" using 2(1) Cons.prems(2) by simp
      from Cons.IH [OF 2(2) this] 2(1) show ?thesis by (simp add: round)
    qed
  qed
qed simp

context scheduler begin

lemma client_run:
  assumes "lts_run (client_step step body) (init, client_start cs) ls x"
  shows "lts_run step init ls (fst x) \<and> (\<exists>d. client_books cs body ls (view (fst x)) (snd x) d)"
  using assms
proof (induction rule: lts_run.induct)
  case run_nil
  then show ?case using client_books_start init_ok by (auto simp: lts_run_Nil_iff)
next
  case (run_snoc ls x l y)
  then obtain d where run: "lts_run step init ls (fst x)" and books: "client_books cs body ls (view (fst x)) (snd x) d"
    by auto
  have step: "step (fst x) l (fst y)" and n: "client_next body l (snd x) = Some (snd y)"
    using run_snoc.hyps(2) by (auto simp: client_step_def)
  have good: "inv (fst x) \<and> spec_wf (view (fst x))" by (rule waiting.run_inv [OF run])
  with client_books_step [OF _ books step_spec [OF _ step] n] lts_run.run_snoc [OF run step] show ?case by blast
qed

text \<open>When \<open>run\<close> returns, the tasks executed so far are the trees of the tasks submitted so far.\<close>

lemma client_return:
  assumes run: "lts_run (client_step step body) (init, client_start cs) (ls @ [SRunRet]) x"
    and tree: "is_tree body tree"
  shows "\<exists>d d' n. cs = d @ cl_todo (snd x) \<and> d = d' @ [Call_run n] \<and> runs d = Suc (count_list ls SRunRet)
    \<and> tally finished ls = trees tree (mset (submits d)) \<and> tally started ls = tally finished ls"
proof -
  obtain y where y: "lts_run (client_step step body) (init, client_start cs) ls y"
    "client_step step body y SRunRet x" using run by (auto simp: lts_run_snoc_iff)
  then have st: "step (fst y) SRunRet (fst x)" and c: "snd x = snd y" by (auto simp: client_step_def)
  obtain d where books: "client_books cs body ls (view (fst y)) (snd y) d" and ls: "lts_run step init ls (fst y)"
    using client_run [OF y(1)] by blast
  have spec: "sched_spec (view (fst y)) SRunRet (view (fst x))"
    using waiting.run_inv [OF ls] st by (blast intro: step_spec)
  then have idle: "cl_tasks (snd y) = (\<lambda>_. None)" "sp_phase (view (fst y)) \<noteq> None"
    using books by (auto simp: client_books_def sched_spec_simps fun_eq_iff)
  have complete: "tally started ls = tally submitted ls" "tally finished ls = tally submitted ls"
    using return_complete [of ls "fst x"] lts_run.run_snoc [OF ls st] by blast+
  have "tally submitted ls = mset (submits d) + spawned body (tally submitted ls)"
    using books idle(1) complete(1) by (simp add: client_books_def)
  from closed_trees [OF tree this] complete(2) have "tally finished ls = trees tree (mset (submits d))" by simp
  with books idle c complete show ?thesis by (auto simp: client_books_def)
qed

text \<open>Round by round: what has finished, and what finishes between two returns.\<close>

lemma program_return:
  assumes run: "lts_run (client_step step body) (init, client_start (program_of rounds)) (ls @ [SRunRet]) x"
    and tree: "is_tree body tree"
  shows "count_list ls SRunRet < length rounds
    \<and> tally finished ls = trees tree (mset (concat (map fst (take (Suc (count_list ls SRunRet)) rounds))))
    \<and> tally started ls = tally finished ls"
proof -
  obtain d d' n where d: "program_of rounds = d @ cl_todo (snd x)" "d = d' @ [Call_run n]"
      "runs d = Suc (count_list ls SRunRet)" "tally finished ls = trees tree (mset (submits d))"
      "tally started ls = tally finished ls"
    using client_return [OF assms] by blast
  from program_prefix [OF d(1,2)] d(3-5) show ?thesis by simp
qed

lemma program_round:
  assumes run: "lts_run (client_step step body) (init, client_start (program_of rounds)) (ls1 @ SRunRet # ls2 @ [SRunRet]) x"
    and once: "count_list ls2 SRunRet = 0" and tree: "is_tree body tree"
  shows "Suc (count_list ls1 SRunRet) < length rounds
    \<and> tally finished ls2 = trees tree (mset (fst (rounds ! Suc (count_list ls1 SRunRet))))
    \<and> tally started ls2 = tally finished ls2"
proof -
  let ?k = "count_list ls1 SRunRet"
  have "lts_run (client_step step body) (init, client_start (program_of rounds)) ((ls1 @ SRunRet # ls2) @ [SRunRet]) x"
    using run by simp
  from program_return [OF this tree] once
  have two: "Suc ?k < length rounds"
    "tally finished (ls1 @ SRunRet # ls2) = trees tree (mset (concat (map fst (take (Suc (Suc ?k)) rounds))))"
    "tally started (ls1 @ SRunRet # ls2) = tally finished (ls1 @ SRunRet # ls2)" by simp_all
  have "lts_run (client_step step body) (init, client_start (program_of rounds)) ((ls1 @ [SRunRet]) @ ls2 @ [SRunRet]) x"
    using run by simp
  from lts_run_prefix [OF this] obtain y
    where "lts_run (client_step step body) (init, client_start (program_of rounds)) (ls1 @ [SRunRet]) y" by (elim exE)
  from program_return [OF this tree]
  have one: "tally finished ls1 = trees tree (mset (concat (map fst (take (Suc ?k) rounds))))"
    "tally started ls1 = tally finished ls1" by simp_all
  from one two show ?thesis by (simp add: take_Suc_conv_app_nth [OF two(1)])
qed

end

section \<open>Replaying a client\<close>

text \<open>A thread does what the program says if it can, or the next step of the scheduler's code.\<close>

definition client_act :: "thread \<Rightarrow> 't client \<Rightarrow> 't act" where
  "client_act th c = (case th of
       Main \<Rightarrow> (case cl_todo c of [] \<Rightarrow> Do Main
         | Submit_task t # cs \<Rightarrow> Submit Main t | Call_run n # cs \<Rightarrow> Run n)
     | Worker w \<Rightarrow> (case cl_tasks c w of None \<Rightarrow> Do th
         | Some [] \<Rightarrow> Finish w | Some (u # us) \<Rightarrow> Submit th u))"

definition client_do :: "('t act \<Rightarrow> 's \<Rightarrow> ('t slabel \<times> 's) option) \<Rightarrow> ('t \<Rightarrow> 't list) \<Rightarrow>
    thread \<Rightarrow> 's \<times> 't client \<Rightarrow> ('t slabel \<times> 's \<times> 't client) option" where
  "client_do sdo body th x =
     (case (case sdo (client_act th (snd x)) (fst x) of None \<Rightarrow> sdo (Do th) (fst x) | Some r \<Rightarrow> Some r) of
        None \<Rightarrow> None
      | Some (l, s') \<Rightarrow> (case client_next body l (snd x) of None \<Rightarrow> None | Some c' \<Rightarrow> Some (l, s', c')))"

lemma client_do_step:
  assumes "\<And>a s l s'. sdo a s = Some (l, s') \<Longrightarrow> step s l s'"
  shows "client_do sdo body th x = Some (l, y) \<Longrightarrow> client_step step body x l y"
proof -
  assume "client_do sdo body th x = Some (l, y)"
  then obtain a where a: "sdo a (fst x) = Some (l, fst y)" and c: "client_next body l (snd x) = Some (snd y)"
    by (auto simp: client_do_def split: option.splits)
  from assms [OF a] c show ?thesis by (simp add: client_step_def)
qed

lemma client_play:
  assumes "\<And>a s l s'. sdo a s = Some (l, s') \<Longrightarrow> step s l s'"
  shows "lts_run (client_step step body) x (fst (play (client_do sdo body) ths x)) (snd (play (client_do sdo body) ths x))"
  by (rule play_run [OF client_do_step [OF assms]]) simp_all

end
