(* ===== verification/Benchmark.thy ===== *)
theory Benchmark
  imports Workload Complex_Main
begin

text \<open>
  The benchmark harness: \<^verbatim>\<open>include/benchmark.hpp\<close> (scenarios, \<open>run_bench\<close>, \<open>run_suite\<close>) and
  the driver \<^verbatim>\<open>bench/main.cpp\<close>. A scenario is the tasks its setup function submits and the number
  it returns; the arithmetic inside the tasks, whose result the code discards, is left out.
  Measured times are parameters of the model, and its real numbers stand for the code's
  \<^verbatim>\<open>double\<close>s.
\<close>

section \<open>Scenarios\<close>

datatype bench_task = Cpu_task "64 word" | Spawn_task "32 word" | Tiny_task

text \<open>\<open>recursive_spawn\<close>: a task of positive depth submits two of the depth below.\<close>

definition recursive_spawn :: "32 word \<Rightarrow> bench_task list" where
  "recursive_spawn depth = (if depth = 0 then [] else [Spawn_task (depth - 1), Spawn_task (depth - 1)])"

fun bench_body :: "bench_task \<Rightarrow> bench_task list" where
  "bench_body (Cpu_task work_iters) = []"
| "bench_body (Spawn_task depth) = recursive_spawn depth"
| "bench_body Tiny_task = []"

text \<open>
  What a setup function submits, and what it returns. The shift in \<open>setup_recursive\<close> is
  undefined in C++ for \<open>tree_depth + 1 \<ge> 64\<close>; the theorems about it have depths up to 62.
\<close>

type_synonym scenario = "bench_task list \<times> 64 word"

definition setup_cpu_bound :: "64 word \<Rightarrow> 64 word \<Rightarrow> scenario" where
  "setup_cpu_bound num_tasks work_iters = (replicate (unat num_tasks) (Cpu_task work_iters), num_tasks)"

definition setup_recursive :: "32 word \<Rightarrow> scenario" where
  "setup_recursive tree_depth = ([Spawn_task tree_depth], push_bit (unat (tree_depth + 1)) 1 - 1)"

definition setup_tiny_tasks :: "64 word \<Rightarrow> scenario" where
  "setup_tiny_tasks num_tasks = (replicate (unat num_tasks) Tiny_task, num_tasks)"

text \<open>\<^verbatim>\<open>g_task_count\<close> after the steps \<open>ls\<close> since its last reset.\<close>

fun spawn_starts :: "bench_task slabel \<Rightarrow> nat" where
  "spawn_starts (SStart w (Spawn_task depth)) = 1"
| "spawn_starts l = 0"

definition g_task_count :: "bench_task slabel list \<Rightarrow> 64 word" where
  "g_task_count ls = of_nat (sum_list (map spawn_starts ls))"

section \<open>Running a benchmark\<close>

record bench_result =
  br_scheduler :: string
  br_benchmark :: string
  br_workers :: "32 word"
  br_tasks :: "64 word"
  br_wall :: real
  br_throughput :: real

text \<open>A warm-up, then the timed run; and the record made of it.\<close>

definition run_bench :: "scenario \<Rightarrow> nat \<Rightarrow> bench_task command list" where
  "run_bench sc num_workers =
     map Submit_task (fst sc) @ [Call_run num_workers] @ map Submit_task (fst sc) @ [Call_run num_workers]"

definition bench_record :: "string \<Rightarrow> string \<Rightarrow> 32 word \<Rightarrow> 64 word \<Rightarrow> real \<Rightarrow> bench_result" where
  "bench_record sched bench num_workers total_tasks wall =
     \<lparr>br_scheduler = sched, br_benchmark = bench, br_workers = num_workers, br_tasks = total_tasks,
      br_wall = wall, br_throughput = real (unat total_tasks) / wall\<rparr>"

definition suite_benches :: "(string \<times> scenario) list" where
  "suite_benches = [(''cpu_bound_50k'', setup_cpu_bound 50000 500), (''recursive_d12'', setup_recursive 12),
     (''tiny_tasks_100k'', setup_tiny_tasks 100000)]"

text \<open>The loop of \<open>run_suite\<close> over its benchmarks; the time of each timed run is \<open>wall\<close>.\<close>

definition suite_results :: "(string \<times> scenario) list \<Rightarrow> (string \<Rightarrow> 32 word \<Rightarrow> real) \<Rightarrow> string \<Rightarrow> 32 word list \<Rightarrow>
    bench_result list" where
  "suite_results benches wall sched thread_counts =
     concat (map (\<lambda>nw. map (\<lambda>(bench, sc). bench_record sched bench nw (snd sc) (wall bench nw)) benches)
       thread_counts)"

definition run_suite :: "(string \<Rightarrow> 32 word \<Rightarrow> real) \<Rightarrow> string \<Rightarrow> 32 word list \<Rightarrow> bench_result list" where
  "run_suite = suite_results suite_benches"

text \<open>What that loop does with the scheduler.\<close>

definition suite_commands :: "(string \<times> scenario) list \<Rightarrow> 32 word list \<Rightarrow> bench_task command list" where
  "suite_commands benches thread_counts =
     concat (map (\<lambda>nw. concat (map (\<lambda>(bench, sc). run_bench sc (unat nw)) benches)) thread_counts)"

section \<open>The driver\<close>

text \<open>\<^verbatim>\<open>for (n = 1; n <= hw; n = (n < 4 ? n + 1 : n * 2)) push_back(min(n, hw))\<close>, on 32 bits\<close>

partial_function (option) sweep :: "32 word \<Rightarrow> 32 word \<Rightarrow> 32 word list option" where
  "sweep n hw = (if n \<le> hw
     then Option.bind (sweep (if n < 4 then n + 1 else n * 2) hw) (\<lambda>ns. Some (min n hw # ns))
     else Some [])"

definition thread_counts :: "32 word \<Rightarrow> 32 word list option" where
  "thread_counts hw = map_option remdups_adj (sweep 1 hw)"

text \<open>The schedulers in the order of the sweep, and everything measured.\<close>

definition sched_names :: "string list" where
  "sched_names = [''MutexQueue'', ''LockFreeQueue'', ''WorkStealing'']"

definition all_results :: "(string \<Rightarrow> string \<Rightarrow> 32 word \<Rightarrow> real) \<Rightarrow> 32 word list \<Rightarrow> bench_result list" where
  "all_results wall counts =
     concat (map (\<lambda>s. run_suite (wall s) s counts) sched_names)"

definition find_tp :: "bench_result list \<Rightarrow> string \<Rightarrow> string \<Rightarrow> 32 word \<Rightarrow> real" where
  "find_tp all sname bname nw =
     (case List.find (\<lambda>r. br_scheduler r = sname \<and> br_benchmark r = bname \<and> br_workers r = nw) all of
        Some r \<Rightarrow> br_throughput r | None \<Rightarrow> 1)"

text \<open>The rows of the speedup table; \<open>None\<close> is \<^verbatim>\<open>back()\<close> of an empty vector.\<close>

definition speedup_table :: "bench_result list \<Rightarrow> 32 word list \<Rightarrow> (string \<times> real \<times> real \<times> real) list option" where
  "speedup_table all counts =
     (if counts = [] then None
      else Some (map (\<lambda>bn. let mt = find_tp all ''MutexQueue'' bn (last counts);
                              ws = find_tp all ''WorkStealing'' bn (last counts) in (bn, mt, ws, ws / mt))
        [''cpu_bound_50k'', ''recursive_d12'', ''tiny_tasks_100k'']))"

section \<open>The tasks of a scenario\<close>

primrec spawn_tree :: "nat \<Rightarrow> bench_task multiset" where
  "spawn_tree 0 = {#Spawn_task 0#}"
| "spawn_tree (Suc k) = add_mset (Spawn_task (of_nat (Suc k))) (spawn_tree k + spawn_tree k)"

fun bench_tree :: "bench_task \<Rightarrow> bench_task multiset" where
  "bench_tree (Spawn_task depth) = spawn_tree (unat depth)"
| "bench_tree t = {#t#}"

lemma is_tree_bench: "is_tree bench_body bench_tree"
  unfolding is_tree_def
proof
  fix t
  show "bench_tree t = add_mset t (\<Sum>\<^sub># (image_mset bench_tree (mset (bench_body t))))"
  proof (cases t)
    case (Spawn_task d)
    show ?thesis
    proof (cases "d = 0")
      case False
      then have "unat d = Suc (unat (d - 1))"
        by (metis Suc_pred' unat_gt_0 unat_minus_one)
      moreover have "of_nat (Suc (unat (d - 1))) = d" using calculation by simp
      ultimately show ?thesis using False Spawn_task by (simp add: recursive_spawn_def del: of_nat_Suc)
    qed (simp add: Spawn_task recursive_spawn_def)
  qed simp_all
qed

lemma spawn_tree_size: "Suc (size (spawn_tree k)) = 2 ^ Suc k"
  by (induction k) auto

lemma spawn_tree_all: "\<forall>t \<in># spawn_tree k. \<exists>d. t = Spawn_task d"
  by (induction k) auto

lemma unat_push_minus: "k \<le> 64 \<Longrightarrow> unat (push_bit k 1 - 1 :: 64 word) = 2 ^ k - 1"
proof -
  assume k: "k \<le> 64"
  have "(push_bit k 1 - 1 :: 64 word) = mask k" by (simp add: push_bit_eq_mult mask_eq_exp_minus_1)
  also have "\<dots> = of_nat (mask k)" by (simp add: of_nat_mask_eq)
  finally have "unat (push_bit k 1 - 1 :: 64 word) = take_bit 64 (mask k :: nat)" by (simp add: unsigned_of_nat)
  also have "\<dots> = mask k" using k by (simp add: take_bit_of_mask min_def)
  finally show ?thesis by (simp add: mask_eq_exp_minus_1)
qed

text \<open>The three scenarios of the suite, for all their parameters.\<close>

definition is_scenario :: "scenario \<Rightarrow> bool" where
  "is_scenario sc \<longleftrightarrow> (\<exists>n i. sc = setup_cpu_bound n i) \<or> (\<exists>n. sc = setup_tiny_tasks n)
     \<or> (\<exists>d. sc = setup_recursive d \<and> unat d \<le> 62)"

lemma trees_replicate: "trees tree (mset (replicate n t)) = repeat_mset n (tree t)"
  by (induction n) auto

lemma scenario_size: "is_scenario sc \<Longrightarrow> size (trees bench_tree (mset (fst sc))) = unat (snd sc)"
proof -
  assume "is_scenario sc"
  then consider (cpu) n i where "sc = setup_cpu_bound n i" | (tiny) n where "sc = setup_tiny_tasks n"
    | (recursive) d where "sc = setup_recursive d" "unat d \<le> 62"
    by (auto simp: is_scenario_def)
  then show ?thesis
  proof cases
    case recursive
    have "unat (d + 1) = unat d + 1"
      using recursive(2) by (simp add: unat_word_ariths)
    moreover have "size (spawn_tree (unat d)) = 2 ^ (unat d + 1) - 1" using spawn_tree_size [of "unat d"] by simp
    ultimately show ?thesis
      using recursive unat_push_minus [of "unat d + 1"] by (simp add: setup_recursive_def)
  qed (simp_all add: setup_cpu_bound_def setup_tiny_tasks_def trees_replicate del: mset_replicate)
qed

section \<open>The two runs of a benchmark\<close>

lemma run_bench_program: "run_bench sc n = program_of [(fst sc, n), (fst sc, n)]"
  by (simp add: run_bench_def)

lemma bench_runs:
  assumes "make_scheduler nm = Some s0"
    and "lts_run (client_step any_step bench_body) (s0, client_start (run_bench sc n)) (ls1 @ SRunRet # ls2 @ [SRunRet]) x"
  shows "tally finished ls2 = trees bench_tree (mset (fst sc)) \<and> tally started ls2 = tally finished ls2"
proof -
  obtain c where s0: "s0 = any_init c" using make_init [OF assms(1)] by blast
  have run: "lts_run (client_step any_step bench_body) (any_init c, client_start (program_of [(fst sc, n), (fst sc, n)]))
      (ls1 @ SRunRet # ls2 @ [SRunRet]) x"
    using assms(2) by (simp only: s0 run_bench_program)
  then have "lts_run (client_step any_step bench_body) (any_init c, client_start (program_of [(fst sc, n), (fst sc, n)]))
      ((ls1 @ SRunRet # ls2) @ [SRunRet]) x"
    by simp
  from any.program_return [OF this is_tree_bench] have none: "count_list ls1 SRunRet = 0" "count_list ls2 SRunRet = 0"
    by auto
  from any.program_round [OF run none(2) is_tree_bench] none(1) show ?thesis by simp
qed

text \<open>The suite is the program of its benchmarks, two rounds for each.\<close>

definition suite_pairs :: "(string \<times> scenario) list \<Rightarrow> 32 word list \<Rightarrow> (32 word \<times> string \<times> scenario) list" where
  "suite_pairs benches counts = concat (map (\<lambda>nw. map (Pair nw) benches) counts)"

lemma suite_results_pairs: "suite_results benches wall sched counts =
    map (\<lambda>(nw, bench, sc). bench_record sched bench nw (snd sc) (wall bench nw)) (suite_pairs benches counts)"
  by (simp add: suite_results_def suite_pairs_def map_concat comp_def case_prod_unfold)

lemma program_of_append: "program_of (rs @ rs') = program_of rs @ program_of rs'"
  by (simp add: program_of_def)

lemma suite_commands_pairs: "suite_commands benches counts =
    program_of (concat (map (\<lambda>(nw, bench, sc). replicate 2 (fst sc, unat nw)) (suite_pairs benches counts)))"
proof -
  have row: "concat (map (\<lambda>(bench, sc). run_bench sc (unat nw)) bs) =
      program_of (concat (map (\<lambda>(nw, bench, sc). replicate 2 (fst sc, unat nw)) (map (Pair nw) bs)))" for nw and bs :: "(string \<times> scenario) list"
    by (induction bs) (auto simp: run_bench_program program_of_append numeral_2_eq_2)
  show ?thesis
    by (induction counts) (simp_all add: suite_commands_def suite_pairs_def row program_of_append)
qed

lemma nth_concat_double:
  "length (concat (map (\<lambda>x. replicate 2 (f x)) xs)) = 2 * length xs"
  "i < length xs \<Longrightarrow> concat (map (\<lambda>x. replicate 2 (f x)) xs) ! Suc (2 * i) = f (xs ! i)"
proof -
  show "length (concat (map (\<lambda>x. replicate 2 (f x)) xs)) = 2 * length xs" by (induction xs) simp_all
  show "i < length xs \<Longrightarrow> concat (map (\<lambda>x. replicate 2 (f x)) xs) ! Suc (2 * i) = f (xs ! i)"
  proof (induction xs arbitrary: i)
    case (Cons x xs)
    then show ?case by (cases i) (simp_all add: numeral_2_eq_2)
  qed simp
qed

lemma suite_round:
  assumes "make_scheduler nm = Some s0"
    and "lts_run (client_step any_step bench_body) (s0, client_start (suite_commands benches counts))
      (ls1 @ SRunRet # ls2 @ [SRunRet]) x"
    and "count_list ls1 SRunRet = 2 * i" and "count_list ls2 SRunRet = 0"
  shows "i < length (suite_pairs benches counts)
    \<and> tally finished ls2 = trees bench_tree (mset (fst (snd (snd (suite_pairs benches counts ! i)))))"
proof -
  obtain c where s0: "s0 = any_init c" using make_init [OF assms(1)] by blast
  let ?rounds = "concat (map (\<lambda>x. replicate 2 (fst (snd (snd x)), unat (fst x))) (suite_pairs benches counts))"
  have "lts_run (client_step any_step bench_body) (any_init c, client_start (program_of ?rounds))
      (ls1 @ SRunRet # ls2 @ [SRunRet]) x"
    using assms(2) by (simp add: s0 suite_commands_pairs case_prod_unfold)
  from any.program_round [OF this assms(4) is_tree_bench] assms(3) show ?thesis
    by (simp add: nth_concat_double)
qed

lemma spawn_starts_tally: "sum_list (map spawn_starts ls) = size (filter_mset (\<lambda>t. \<exists>d. t = Spawn_task d) (tally started ls))"
proof (induction ls)
  case (Cons l ls)
  then show ?case by (cases l rule: spawn_starts.cases) auto
qed simp

section \<open>The sweep over thread counts\<close>

definition swept :: "nat \<Rightarrow> bool" where
  "swept m \<longleftrightarrow> m \<in> {1, 2, 3} \<or> (\<exists>k \<ge> 2. m = 2 ^ k)"

definition swept_next :: "nat \<Rightarrow> nat" where
  "swept_next m = (if m < 4 then m + 1 else m * 2)"

lemma swept_next: "swept m \<Longrightarrow> swept (swept_next m)"
proof -
  assume "swept m"
  then consider "m = 1" | "m = 2" | "m = 3" | k where "2 \<le> k" "m = 2 ^ k" by (auto simp: swept_def)
  then show ?thesis
  proof cases
    case 3
    have "(4::nat) = 2 ^ 2" by simp
    with 3 show ?thesis unfolding swept_def swept_next_def by auto
  next
    case (4 k)
    have "(2::nat) ^ 2 \<le> 2 ^ k" using 4(1) by (rule power_increasing) simp
    then have "swept_next m = 2 ^ Suc k" using 4(2) by (simp add: swept_next_def)
    moreover have "2 \<le> Suc k" using 4(1) by simp
    ultimately show ?thesis unfolding swept_def by blast
  qed (simp_all add: swept_def swept_next_def)
qed

lemma swept_gap: "swept m \<Longrightarrow> swept j \<Longrightarrow> m < j \<Longrightarrow> swept_next m \<le> j"
proof -
  assume m: "swept m" and j: "swept j" and less: "m < j"
  show ?thesis
  proof (cases "m < 4")
    case True
    with less show ?thesis by (simp add: swept_next_def)
  next
    case False
    then obtain k where k: "m = 2 ^ k" using m by (auto simp: swept_def)
    obtain i where i: "j = 2 ^ i" using j False less by (auto simp: swept_def)
    have "k < i" using less k i by (simp add: power_less_imp_less_exp)
    then have "(2::nat) ^ Suc k \<le> 2 ^ i" by (intro power_increasing) simp_all
    with False k i show ?thesis by (simp add: swept_next_def)
  qed
qed

lemma swept_next_greater: "swept m \<Longrightarrow> m < swept_next m"
  by (auto simp: swept_def swept_next_def)

definition word_next :: "32 word \<Rightarrow> 32 word" where
  "word_next n = (if n < 4 then n + 1 else n * 2)"

lemma unat_word_next: "unat n < 2 ^ 31 \<Longrightarrow> unat (word_next n) = swept_next (unat n)"
  by (auto simp: word_next_def swept_next_def word_less_nat_alt unat_word_ariths)

lemma sweep_unfold: "sweep n hw = (if n \<le> hw then Option.bind (sweep (word_next n) hw) (\<lambda>ns. Some (n # ns)) else Some [])"
  by (subst sweep.simps) (simp add: word_next_def min_def)

lemma sweep_terminates:
  assumes hw: "unat hw < 2 ^ 31"
  shows "swept (unat n) \<Longrightarrow> \<exists>ns. sweep n hw = Some ns \<and> sorted_wrt (<) ns
    \<and> (\<forall>m. m \<in> set ns \<longleftrightarrow> n \<le> m \<and> m \<le> hw \<and> swept (unat m))"
proof (induction "Suc (unat hw) - unat n" arbitrary: n rule: less_induct)
  case less
  show ?case
  proof (cases "n \<le> hw")
    case False
    then have "sweep n hw = Some []" by (simp add: sweep_unfold)
    with False show ?thesis by auto
  next
    case True
    then have le: "unat n \<le> unat hw" by (simp add: word_le_nat_alt)
    then have nxt: "unat (word_next n) = swept_next (unat n)" using hw by (intro unat_word_next) simp
    have "Suc (unat hw) - unat (word_next n) < Suc (unat hw) - unat n"
      using swept_next_greater [OF less.prems] nxt le by simp
    moreover have "swept (unat (word_next n))" using swept_next [OF less.prems] nxt by simp
    ultimately obtain ns where ns: "sweep (word_next n) hw = Some ns" "sorted_wrt (<) ns"
        "\<forall>m. m \<in> set ns \<longleftrightarrow> word_next n \<le> m \<and> m \<le> hw \<and> swept (unat m)"
      using less.hyps by blast
    have "sweep n hw = Some (n # ns)" using True ns(1) by (subst sweep_unfold) simp
    moreover have "n < m" if "m \<in> set ns" for m
      using that ns(3) nxt swept_next_greater [OF less.prems] by (auto simp: word_le_nat_alt word_less_nat_alt)
    moreover have "m \<in> set (n # ns) \<longleftrightarrow> n \<le> m \<and> m \<le> hw \<and> swept (unat m)" for m
    proof (cases "m = n")
      case False
      have "word_next n \<le> m \<longleftrightarrow> n \<le> m" if "swept (unat m)"
      proof
        assume "n \<le> m"
        with False have "n < m" by simp
        then have "unat n < unat m" by (simp add: word_less_nat_alt)
        with swept_gap [OF less.prems that] nxt show "word_next n \<le> m" by (simp add: word_le_nat_alt)
      next
        assume "word_next n \<le> m"
        with nxt swept_next_greater [OF less.prems] show "n \<le> m" by (simp add: word_le_nat_alt)
      qed
      with False ns(3) show ?thesis by auto
    qed (use True less.prems in auto)
    ultimately show ?thesis using ns(2) by (intro exI [of _ "n # ns"]) auto
  qed
qed

lemma swept_below: "swept 1" "swept m \<Longrightarrow> 1 \<le> m"
  by (auto simp: swept_def)

lemma remdups_sorted: "sorted_wrt (<) ns \<Longrightarrow> remdups_adj ns = (ns :: 'a::linorder list)"
  by (rule remdups_adj_distinct) (simp add: strict_sorted_iff)

text \<open>From \<open>2 ^ 31\<close> on the counter comes back to 0 and goes on below \<open>hw\<close> for ever.\<close>

definition orbit :: "32 word list" where
  "orbit = [0, 1, 2, 3] @ map (\<lambda>k. 2 ^ k) [2..<32]"

lemma orbit_next: "n \<in> set orbit \<Longrightarrow> word_next n \<in> set orbit"
proof -
  have "\<forall>n \<in> set orbit. word_next n \<in> set orbit" by code_simp
  then show "n \<in> set orbit \<Longrightarrow> word_next n \<in> set orbit" by blast
qed

lemma orbit_below: "n \<in> set orbit \<Longrightarrow> n \<le> 2 ^ 31"
proof -
  have "\<forall>n \<in> set orbit. n \<le> 2 ^ 31" by code_simp
  then show "n \<in> set orbit \<Longrightarrow> n \<le> 2 ^ 31" by blast
qed

lemma sweep_diverges:
  assumes "2 ^ 31 \<le> hw" and "n \<in> set orbit"
  shows "sweep n hw = None"
proof (rule ccontr)
  assume "sweep n hw \<noteq> None"
  then obtain ns where "sweep n hw = Some ns" by auto
  then have "n \<in> set orbit \<longrightarrow> \<not> 2 ^ 31 \<le> hw"
  proof (rule sweep.raw_induct [rotated])
    fix rec n hw ns
    assume IH: "\<And>n hw ns. rec n hw = Some ns \<Longrightarrow> n \<in> set orbit \<longrightarrow> \<not> 2 ^ 31 \<le> hw"
      and body: "(if n \<le> hw then Option.bind (rec (if n < 4 then n + 1 else n * 2) hw) (\<lambda>ns. Some (min n hw # ns))
        else Some []) = Some ns"
    show "n \<in> set orbit \<longrightarrow> \<not> 2 ^ 31 \<le> hw"
    proof (intro impI notI)
      assume n: "n \<in> set orbit" and hw: "2 ^ 31 \<le> hw"
      have "n \<le> hw" using orbit_below [OF n] hw by (rule order_trans)
      with body obtain ms where "rec (word_next n) hw = Some ms"
        by (auto simp: word_next_def bind_eq_Some_conv split: if_splits)
      with IH orbit_next [OF n] hw show False by blast
    qed
  qed
  with assms show False by blast
qed

section \<open>The tables\<close>

text \<open>The task count a benchmark of the suite records.\<close>

definition suite_tasks :: "string \<Rightarrow> nat" where
  "suite_tasks bench = (if bench = ''cpu_bound_50k'' then 50000 else if bench = ''recursive_d12'' then 8191 else 100000)"

lemma snd_setups [simp]:
  "snd (setup_cpu_bound n i) = n" "snd (setup_tiny_tasks n) = n"
  by (simp_all add: setup_cpu_bound_def setup_tiny_tasks_def)

lemma suite_counts:
  assumes "(bench, sc) \<in> set suite_benches"
  shows "unat (snd sc) = suite_tasks bench"
proof -
  have rec: "snd (setup_recursive 12) = 8191" by (simp add: setup_recursive_def)
  from assms consider "bench = ''cpu_bound_50k''" "sc = setup_cpu_bound 50000 500"
    | "bench = ''recursive_d12''" "sc = setup_recursive 12"
    | "bench = ''tiny_tasks_100k''" "sc = setup_tiny_tasks 100000"
    unfolding suite_benches_def by (simp only: list.set insert_iff empty_iff prod.inject) blast
  then show ?thesis by cases (simp_all add: suite_tasks_def rec)
qed

lemma all_results_iff: "r \<in> set (all_results wall counts) \<longleftrightarrow>
    (\<exists>s nw b sc. s \<in> set sched_names \<and> nw \<in> set counts \<and> (b, sc) \<in> set suite_benches
      \<and> r = bench_record s b nw (snd sc) (wall s b nw))"
  unfolding all_results_def run_suite_def suite_results_def by (auto simp: image_iff split_beta intro!: bexI) blast

lemma find_tp_measured:
  assumes "s \<in> set sched_names" and "nw \<in> set counts" and "(b, sc) \<in> set suite_benches"
  shows "find_tp (all_results wall counts) s b nw = real (suite_tasks b) / wall s b nw"
proof -
  let ?P = "\<lambda>r. br_scheduler r = s \<and> br_benchmark r = b \<and> br_workers r = nw"
  have "bench_record s b nw (snd sc) (wall s b nw) \<in> set (all_results wall counts)"
    using assms unfolding all_results_iff by blast
  then have "List.find ?P (all_results wall counts) \<noteq> None"
    unfolding find_None_iff by (metis bench_result.select_convs(1,2,3) bench_record_def)
  then obtain r where r: "List.find ?P (all_results wall counts) = Some r" by blast
  then have "?P r" "r \<in> set (all_results wall counts)" by (auto simp: find_Some_iff)
  then obtain sc' where "(b, sc') \<in> set suite_benches" "r = bench_record s b nw (snd sc') (wall s b nw)"
    unfolding all_results_iff by (auto simp: bench_record_def)
  with r suite_counts show ?thesis by (simp add: find_tp_def bench_record_def)
qed

lemma sched_names_set: "set sched_names = {''MutexQueue'', ''LockFreeQueue'', ''WorkStealing''}"
  by (simp add: sched_names_def)

section \<open>A benchmark run\<close>

text \<open>The recursive scenario of depth 1 on the work-stealing scheduler with two workers.\<close>

definition two_workers :: "nat \<Rightarrow> thread list" where
  "two_workers k = concat (replicate k [Main, Worker 0, Worker 1])"

definition bench_demo :: "bench_task slabel list \<times> bench_task any_sched \<times> bench_task client" where
  "bench_demo = play (client_do any_do bench_body) (two_workers 250)
     (any_init WorkStealing, client_start (run_bench (setup_recursive 1) 2))"

definition bench_first_labels :: "bench_task slabel list" where
  "bench_first_labels = takeWhile (\<lambda>l. l \<noteq> SRunRet) (fst bench_demo)"

definition bench_second_labels :: "bench_task slabel list" where
  "bench_second_labels = takeWhile (\<lambda>l. l \<noteq> SRunRet) (tl (dropWhile (\<lambda>l. l \<noteq> SRunRet) (fst bench_demo)))"

lemma bench_demo_labels: "fst bench_demo = bench_first_labels @ SRunRet # bench_second_labels @ [SRunRet]"
  by code_simp

lemma bench_demo_run: "lts_run (client_step any_step bench_body)
    (any_init WorkStealing, client_start (run_bench (setup_recursive 1) 2))
    (bench_first_labels @ SRunRet # bench_second_labels @ [SRunRet]) (snd bench_demo)"
  by (rule subst [OF bench_demo_labels, where P = "\<lambda>ls. lts_run _ _ ls _"])
    (unfold bench_demo_def, rule client_play [OF any_do_step])

lemma recursive_one: "is_scenario (setup_recursive 1)"
  unfolding is_scenario_def by (intro disjI2 exI [of _ 1]) simp

section \<open>Properties\<close>

text \<open>C25. What a suite reports is what it executed. The benchmarks are any list of the three scenarios of
  the header (\<open>setup_cpu_bound\<close>, \<open>setup_tiny_tasks\<close>, \<open>setup_recursive\<close> with a depth of at most 62),
  the thread counts any list, the scheduler one of the three. Then the \<open>i\<close>-th record carries the
  number of tasks finished in the \<open>i\<close>-th timed call of \<open>run\<close>, between its return and that of
  the warm-up before it: the tasks the setup function submits and all they spawn. (The code reports
  whatever a setup function returns; that the three return this number is part of the claim.)\<close>

theorem suite_reports_executed:
  assumes "make_scheduler nm = Some s0" and "\<forall>(bench, sc) \<in> set benches. is_scenario sc"
    and "lts_run (client_step any_step bench_body) (s0, client_start (suite_commands benches counts))
      (ls1 @ SRunRet # ls2 @ [SRunRet]) x"
    and "count_list ls1 SRunRet = 2 * i" and "count_list ls2 SRunRet = 0"
  shows "i < length (suite_results benches wall nm counts)
    \<and> size (tally finished ls2) = unat (br_tasks (suite_results benches wall nm counts ! i))"
proof -
  note round = suite_round [OF assms(1,3,4,5)]
  then have "suite_pairs benches counts ! i \<in> set (suite_pairs benches counts)" by simp
  then have "is_scenario (snd (snd (suite_pairs benches counts ! i)))"
    using assms(2) by (auto simp: suite_pairs_def)
  with round scenario_size show ?thesis by (simp add: suite_results_pairs split_beta bench_record_def)
qed

theorem suite_reports_executed_witness: "size (tally finished bench_second_labels) = 3"
proof -
  have rec: "snd (setup_recursive 1) = 3" by (simp add: setup_recursive_def)
  have cmds: "suite_commands [(''recursive'', setup_recursive 1)] [2] = run_bench (setup_recursive 1) 2"
    by (simp add: suite_commands_def)
  have run: "lts_run (client_step any_step bench_body)
      (any_init WorkStealing, client_start (suite_commands [(''recursive'', setup_recursive 1)] [2]))
      (bench_first_labels @ SRunRet # bench_second_labels @ [SRunRet]) (snd bench_demo)"
    using bench_demo_run by (simp only: cmds)
  have none: "count_list bench_first_labels SRunRet = 2 * 0" "count_list bench_second_labels SRunRet = 0"
    by (simp_all add: bench_first_labels_def bench_second_labels_def count_list_0_iff) (blast dest: set_takeWhileD)+
  from suite_reports_executed [OF make_scheduler_of(3) _ run none, of "\<lambda>b nw. 1"] recursive_one rec show ?thesis
    by (simp add: suite_results_def bench_record_def)
qed

text \<open>The recursive scenario of depth \<open>d\<close> spawns a binary tree: \<^verbatim>\<open>g_task_count\<close> ends at the number
  its setup function predicts, \<open>2 ^ (d + 1) - 1\<close>, for depths up to 62.\<close>

theorem recursive_spawn_counts:
  assumes "make_scheduler nm = Some s0" and "unat d \<le> 62"
    and "lts_run (client_step any_step bench_body) (s0, client_start (run_bench (setup_recursive d) n))
      (ls1 @ SRunRet # ls2 @ [SRunRet]) x"
  shows "g_task_count ls2 = snd (setup_recursive d) \<and> unat (g_task_count ls2) = 2 ^ (unat d + 1) - 1"
proof -
  have tree: "tally started ls2 = spawn_tree (unat d)"
    using bench_runs [OF assms(1,3)] by (simp add: setup_recursive_def)
  have "filter_mset (\<lambda>t. \<exists>d. t = Spawn_task d) (spawn_tree (unat d)) = spawn_tree (unat d)"
    using spawn_tree_all [of "unat d"] by (simp add: filter_mset_eq_conv)
  then have count: "g_task_count ls2 = of_nat (size (spawn_tree (unat d)))"
    by (simp add: g_task_count_def spawn_starts_tally tree)
  have size: "size (spawn_tree (unat d)) = unat (snd (setup_recursive d))"
    using scenario_size [of "setup_recursive d"] assms(2) by (auto simp: is_scenario_def) (simp add: setup_recursive_def)
  then have "g_task_count ls2 = snd (setup_recursive d)" by (simp add: count)
  moreover have "size (spawn_tree (unat d)) = 2 ^ (unat d + 1) - 1" using spawn_tree_size [of "unat d"] by simp
  ultimately show ?thesis using size by simp
qed

theorem recursive_spawn_counts_witness: "g_task_count bench_second_labels = 3"
proof -
  have "snd (setup_recursive 1) = 3" by (simp add: setup_recursive_def)
  with recursive_spawn_counts [OF make_scheduler_of(3) _ bench_demo_run] show ?thesis by simp
qed

text \<open>C39. The thread counts. For fewer than \<open>2 ^ 31\<close> processors the loop ends, and the vector it leaves is
  1, 2, 3 and the powers of two from 4 on, as far as they are at most the number of processors, in
  increasing order. From \<open>2 ^ 31\<close> on its 32-bit counter wraps and it does not end.\<close>

theorem thread_counts_sweep:
  assumes "unat hw < 2 ^ 31" and "2 ^ 31 \<le> hw'"
  shows "(\<exists>ns. thread_counts hw = Some ns \<and> sorted_wrt (<) ns
      \<and> (\<forall>m. m \<in> set ns \<longleftrightarrow> m \<le> hw \<and> (unat m \<in> {1, 2, 3} \<or> (\<exists>k \<ge> 2. unat m = 2 ^ k))))
    \<and> thread_counts hw' = None"
proof -
  obtain ns where ns: "sweep 1 hw = Some ns" "sorted_wrt (<) ns"
    "\<forall>m. m \<in> set ns \<longleftrightarrow> 1 \<le> m \<and> m \<le> hw \<and> swept (unat m)"
    using sweep_terminates [OF assms(1), of 1] swept_below(1) by auto
  have one: "1 \<le> m" if "swept (unat m)" for m :: "32 word"
    using swept_below(2) [OF that] by (simp add: word_le_nat_alt)
  have "thread_counts hw = Some ns" using ns(1,2) by (simp add: thread_counts_def remdups_sorted)
  moreover have "m \<in> set ns \<longleftrightarrow> m \<le> hw \<and> (unat m \<in> {1, 2, 3} \<or> (\<exists>k \<ge> 2. unat m = 2 ^ k))" for m
    using ns(3) one [of m] unfolding swept_def by blast
  moreover have "sweep 1 hw' = None" by (rule sweep_diverges [OF assms(2)]) (simp add: orbit_def)
  ultimately show ?thesis using ns(2) by (auto simp: thread_counts_def)
qed

theorem thread_counts_sweep_witness:
  "(\<exists>ns. thread_counts 12 = Some ns \<and> 8 \<in> set ns) \<and> thread_counts (2 ^ 31) = None"
proof -
  have "unat (12 :: 32 word) < 2 ^ 31" by simp
  note sweep = thread_counts_sweep [OF this order_refl]
  have "(8 :: 32 word) \<le> 12 \<and> (\<exists>k \<ge> 2. unat (8 :: 32 word) = 2 ^ k)"
    by (intro conjI exI [of _ 3]) simp_all
  with sweep show ?thesis by blast
qed

text \<open>The speedup table reports the measurements at the largest thread count: for each benchmark its
  number of tasks by the time it took on the one scheduler and on the other, and the ratio of the
  times. Without thread counts, that is when \<^verbatim>\<open>hardware_concurrency()\<close> is 0, \<open>back()\<close> of the empty
  vector is undefined behaviour.\<close>

theorem speedup_table_reports:
  assumes "thread_counts hw = Some counts" and "hw \<noteq> 0" and "\<forall>s b nw. 0 < wall s b nw"
  shows "speedup_table (all_results wall counts) counts =
      Some (map (\<lambda>b. (b, real (suite_tasks b) / wall ''MutexQueue'' b (last counts),
          real (suite_tasks b) / wall ''WorkStealing'' b (last counts),
          wall ''MutexQueue'' b (last counts) / wall ''WorkStealing'' b (last counts)))
        [''cpu_bound_50k'', ''recursive_d12'', ''tiny_tasks_100k''])
    \<and> thread_counts 0 = Some [] \<and> speedup_table (all_results wall []) [] = None"
proof -
  have "counts \<noteq> []"
  proof
    assume "counts = []"
    then have "sweep 1 hw = Some []" using assms(1) by (auto simp: thread_counts_def)
    moreover have "1 \<le> hw" using assms(2) by (simp add: word_le_nat_alt Suc_le_eq unat_gt_0)
    ultimately show False by (subst (asm) sweep_unfold) (auto simp: bind_eq_Some_conv)
  qed
  then have last: "last counts \<in> set counts" by simp
  have benches: "\<exists>sc. (b, sc) \<in> set suite_benches"
    if "b \<in> set [''cpu_bound_50k'', ''recursive_d12'', ''tiny_tasks_100k'']" for b
    using that unfolding suite_benches_def by (simp only: list.set insert_iff empty_iff prod.inject) blast
  have tp: "find_tp (all_results wall counts) s b (last counts) = real (suite_tasks b) / wall s b (last counts)"
    if "s \<in> set sched_names" "b \<in> set [''cpu_bound_50k'', ''recursive_d12'', ''tiny_tasks_100k'']" for s b
    using benches [OF that(2)] find_tp_measured [OF that(1) last] by blast
  have names: "''MutexQueue'' \<in> set sched_names" "''WorkStealing'' \<in> set sched_names" by (simp_all add: sched_names_def)
  have pos: "0 < suite_tasks b" for b by (simp add: suite_tasks_def)
  have "(real (suite_tasks b) / u) / (real (suite_tasks b) / v) = v / u" for b and u v :: real
    using pos [of b] by (simp add: field_simps)
  then have "speedup_table (all_results wall counts) counts =
      Some (map (\<lambda>b. (b, real (suite_tasks b) / wall ''MutexQueue'' b (last counts),
          real (suite_tasks b) / wall ''WorkStealing'' b (last counts),
          wall ''MutexQueue'' b (last counts) / wall ''WorkStealing'' b (last counts)))
        [''cpu_bound_50k'', ''recursive_d12'', ''tiny_tasks_100k''])"
    unfolding speedup_table_def Let_def using \<open>counts \<noteq> []\<close> tp [OF names(1)] tp [OF names(2)]
    by (auto simp only: if_False option.inject map_eq_conv prod.inject simp_thms)
  moreover have "thread_counts 0 = Some []" by (simp add: thread_counts_def sweep_unfold [of 1 0])
  ultimately show ?thesis by (simp add: speedup_table_def)
qed

theorem speedup_table_reports_witness:
  "\<exists>counts. thread_counts 2 = Some counts
    \<and> speedup_table (all_results (\<lambda>s b nw. if s = ''WorkStealing'' then 1 else 2) counts) counts
        = Some [(''cpu_bound_50k'', 25000, 50000, 2), (''recursive_d12'', 8191 / 2, 8191, 2), (''tiny_tasks_100k'', 50000, 100000, 2)]"
proof -
  have "unat (2 :: 32 word) < 2 ^ 31" by simp
  from sweep_terminates [OF this, of 1] swept_below(1) obtain ns where "thread_counts 2 = Some ns"
    by (auto simp: thread_counts_def)
  from speedup_table_reports [OF this, of "\<lambda>s b nw. if s = ''WorkStealing'' then 1 else 2"] this show ?thesis
    by (auto simp: suite_tasks_def)
qed

end
