(* ===== verification/Scaling.thy ===== *)
theory Scaling
  imports Benchmark Graph_Runs
begin

text \<open>
  The scaling benchmark \<^verbatim>\<open>bench/scaling.cpp\<close>: the flat workload, the pipeline graph of the DAG
  workload, the median of three timed runs, and the table of rows with its lookup. Times are
  parameters, as in \<open>Benchmark\<close>.
\<close>

section \<open>Workloads\<close>

definition kWorkIters :: "64 word" where "kWorkIters = 400"
definition kNumTasks :: "64 word" where "kNumTasks = 60000"
definition kDagWidth :: nat where "kDagWidth = 32"
definition kDagDepth :: nat where "kDagDepth = 60"

text \<open>\<open>time_flat_workload\<close>, with the number of tasks and their work as parameters.\<close>

definition flat_commands :: "64 word \<Rightarrow> 64 word \<Rightarrow> nat \<Rightarrow> bench_task command list" where
  "flat_commands num_tasks work_iters num_workers =
     map Submit_task (replicate (unat num_tasks) (Cpu_task work_iters)) @ [Call_run num_workers]"

text \<open>
  The loops of \<open>time_dag_workload\<close>: a node that depends on every node of the previous stage; a
  stage of \<open>w\<close> nodes; \<open>d\<close> stages.
\<close>

definition add_wired :: "nat list \<Rightarrow> graph \<Rightarrow> (nat \<times> graph) option" where
  "add_wired prev g = (case tg_node g of None \<Rightarrow> None | Some (n, g') \<Rightarrow> Some (n, fold (depends_on n) prev g'))"

fun add_stage :: "nat \<Rightarrow> nat list \<Rightarrow> nat list \<Rightarrow> graph \<Rightarrow> (nat list \<times> graph) option" where
  "add_stage 0 prev cur g = Some (cur, g)"
| "add_stage (Suc w) prev cur g =
     (case add_wired prev g of None \<Rightarrow> None | Some (n, g') \<Rightarrow> add_stage w prev (cur @ [n]) g')"

fun add_stages :: "nat \<Rightarrow> nat \<Rightarrow> nat list \<Rightarrow> graph \<Rightarrow> graph option" where
  "add_stages width 0 prev g = Some g"
| "add_stages width (Suc d) prev g =
     (case add_stage width prev [] g of None \<Rightarrow> None | Some (cur, g') \<Rightarrow> add_stages width d cur g')"

definition dag_workload :: "nat \<Rightarrow> nat \<Rightarrow> graph option" where
  "dag_workload width depth = add_stages width depth [] tg_new"

section \<open>Samples and rows\<close>

text \<open>\<open>None\<close> is the out-of-range index into an empty vector.\<close>

definition median_of :: "real list \<Rightarrow> real option" where
  "median_of xs = (if xs = [] then None else Some (sort xs ! (length xs div 2)))"

text \<open>The first call is the warm-up, whose time is discarded.\<close>

definition run_median :: "(nat \<Rightarrow> real) \<Rightarrow> real option" where
  "run_median fn = median_of (map (\<lambda>i. fn (Suc i)) [0..<3])"

text \<open>What the four calls do with the scheduler, if each does \<open>cs\<close>.\<close>

definition median_commands :: "'t command list \<Rightarrow> 't command list" where
  "median_commands cs = cs @ concat (replicate 3 cs)"

record scaling_row =
  sr_scheduler :: string
  sr_workload :: string
  sr_threads :: "32 word"
  sr_tasks :: "64 word"
  sr_wall :: real
  sr_throughput :: real
  sr_speedup :: real
  sr_efficiency :: real

definition row_counts :: "32 word list" where
  "row_counts = [1, 2, 4, 8]"

text \<open>One round of the inner loop, with the baseline it keeps.\<close>

definition scaling_row_of :: "string \<Rightarrow> string \<Rightarrow> 64 word \<Rightarrow> real \<Rightarrow> 32 word \<Rightarrow> real \<Rightarrow> scaling_row \<times> real" where
  "scaling_row_of sn wl tasks wall n baseline =
     (let tps = real (unat tasks) / wall; base = (if n = 1 then tps else baseline)
      in (\<lparr>sr_scheduler = sn, sr_workload = wl, sr_threads = n, sr_tasks = tasks, sr_wall = wall, sr_throughput = tps,
           sr_speedup = (if base > 0 then tps / base else 1),
           sr_efficiency = (if base > 0 then (tps / base) / real (unat n) else 1)\<rparr>, base))"

fun scaling_loop :: "string \<Rightarrow> string \<Rightarrow> 64 word \<Rightarrow> (32 word \<Rightarrow> real) \<Rightarrow> 32 word list \<Rightarrow> real \<Rightarrow> scaling_row list" where
  "scaling_loop sn wl tasks wall [] baseline = []"
| "scaling_loop sn wl tasks wall (n # ns) baseline =
     (let (r, base) = scaling_row_of sn wl tasks (wall n) n baseline in r # scaling_loop sn wl tasks wall ns base)"

definition dag_nodes :: "64 word" where
  "dag_nodes = of_nat (kDagWidth * kDagDepth)"

definition all_rows :: "(string \<Rightarrow> string \<Rightarrow> 32 word \<Rightarrow> real) \<Rightarrow> scaling_row list" where
  "all_rows wall =
     concat (map (\<lambda>sn. scaling_loop sn ''flat'' kNumTasks (wall sn ''flat'') row_counts (- 1)) sched_names)
     @ concat (map (\<lambda>sn. scaling_loop sn ''dag'' dag_nodes (wall sn ''dag'') row_counts (- 1)) sched_names)"

text \<open>A cell of the summary table: the first row for it, if there is one.\<close>

definition summary_cell :: "scaling_row list \<Rightarrow> string \<Rightarrow> string \<Rightarrow> 32 word \<Rightarrow> real option" where
  "summary_cell rows sn wl n =
     map_option sr_throughput (List.find (\<lambda>r. sr_scheduler r = sn \<and> sr_workload r = wl \<and> sr_threads r = n) rows)"

section \<open>The pipeline\<close>

text \<open>The successors of node \<open>p\<close> when \<open>N\<close> nodes have been made: the nodes of the next stage so far.\<close>

definition pipe :: "nat \<Rightarrow> nat \<Rightarrow> nat \<Rightarrow> nat list" where
  "pipe W N p = [(p div W + 1) * W ..< min ((p div W + 2) * W) N]"

definition pipe_ok :: "nat \<Rightarrow> graph \<Rightarrow> bool" where
  "pipe_ok W g \<longleftrightarrow> graph_ok g \<and> (\<forall>p. succs g p = pipe W (tg_size g) p)"

lemma div_stage: "0 < W \<Longrightarrow> a * W \<le> N \<and> N < (a + 1) * W \<longleftrightarrow> N div W = a" for a N W :: nat
  by (metis Suc_eq_plus1 div_less_iff_less_mult div_nat_eqI dividend_less_times_div less_eq_div_iff_mult_less_eq
      mult.commute mult_Suc_right order_refl times_div_less_eq_dividend)

lemma upt_min_Suc: "[a..<min b (Suc N)] = [a..<min b N] @ (if a \<le> N \<and> N < b then [N] else [])"
proof (cases "a \<le> N \<and> N < b")
  case True
  then have "min b (Suc N) = Suc N" "min b N = N" by simp_all
  with True show ?thesis by simp
next
  case False
  then have "min b (Suc N) = min b N \<or> N < a" by auto
  with False show ?thesis by auto
qed

lemma pipe_Suc:
  assumes "0 < W"
  shows "pipe W (Suc N) p = pipe W N p @ (if p div W + 1 = N div W then [N] else [])"
proof -
  let ?a = "(p div W + 1) * W" and ?b = "(p div W + 2) * W"
  have "p div W + 1 = N div W \<longleftrightarrow> ?a \<le> N \<and> N < ?b"
    using div_stage [OF assms, of "p div W + 1" N] by (simp add: add.assoc eq_commute)
  then show ?thesis unfolding pipe_def upt_min_Suc by simp
qed

lemma fold_depends_on:
  "graph_ok g \<Longrightarrow> n < tg_size g \<Longrightarrow> list_all (\<lambda>p. p < tg_size g) ps \<Longrightarrow>
    succs (fold (depends_on n) ps g) p = succs g p @ replicate (count_list ps p) n"
proof (induction ps arbitrary: g)
  case (Cons q ps)
  have "graph_ok (depends_on n q g)" using Cons.prems by (simp add: graph_ok_depends_on)
  with Cons show ?case by (simp add: depends_on_succs replicate_app_Cons_same)
qed simp

lemma add_wired_pipe:
  assumes ok: "pipe_ok W g" and W: "0 < W" and prev: "distinct prev" "set prev = {p. p div W + 1 = tg_size g div W}"
  shows "\<exists>g'. add_wired prev g = Some (tg_size g, g') \<and> pipe_ok W g' \<and> tg_size g' = Suc (tg_size g)"
proof -
  have g: "graph_ok g" "\<not> gr_executing g" using ok by (auto simp: pipe_ok_def graph_ok_def)
  then obtain g1 where g1: "tg_node g = Some (tg_size g, g1)" by (simp add: tg_node_def tg_size_def)
  note new = graph_ok_node [OF g(1) g1]
  have below: "p < tg_size g" if "p \<in> set prev" for p
    using that prev(2) W by (metis (mono_tags, lifting) div_le_mono less_add_one mem_Collect_eq not_less)
  then have all: "list_all (\<lambda>p. p < tg_size g1) prev" using new by (auto simp: list_all_iff less_Suc_eq)
  let ?g = "fold (depends_on (tg_size g)) prev g1"
  have res: "add_wired prev g = Some (tg_size g, ?g)" by (simp add: add_wired_def g1)
  have "graph_ok ?g" "tg_size ?g = Suc (tg_size g)"
    using depends_on_all_ok [of g1 "tg_size g" prev] new all by (auto simp: depends_on_all_fold)
  moreover have "succs ?g p = pipe W (Suc (tg_size g)) p" for p
  proof -
    have "count_list prev p = (if p div W + 1 = tg_size g div W then 1 else 0)"
      using prev by (simp add: distinct_count_atmost_1 count_mset)
    then show ?thesis
      using fold_depends_on [of g1 "tg_size g" prev p] new all ok pipe_Suc [OF W, of "tg_size g" p]
      by (simp add: pipe_ok_def)
  qed
  ultimately show ?thesis using res by (auto simp: pipe_ok_def)
qed

lemma add_stage_pipe:
  "pipe_ok W g \<Longrightarrow> 0 < W \<Longrightarrow> distinct prev \<Longrightarrow> set prev = {p. p div W + 1 = k} \<Longrightarrow>
    tg_size g = k * W + i \<Longrightarrow> i + w \<le> W \<Longrightarrow>
    \<exists>g'. add_stage w prev cur g = Some (cur @ [k * W + i ..< k * W + i + w], g') \<and> pipe_ok W g'
      \<and> tg_size g' = k * W + i + w"
proof (induction w arbitrary: cur g i)
  case (Suc w)
  have "tg_size g div W = k" using Suc.prems(2,5,6) by simp
  with add_wired_pipe [OF Suc.prems(1,2,3)] Suc.prems(4)
  obtain g1 where g1: "add_wired prev g = Some (tg_size g, g1)" "pipe_ok W g1" "tg_size g1 = k * W + Suc i"
    using Suc.prems(5) by auto
  from Suc.IH [OF g1(2) Suc.prems(2-4) g1(3), of "cur @ [tg_size g]"] Suc.prems(5,6) g1(1)
  show ?case by (auto simp: upt_rec [of "k * W + i"])
qed simp

lemma stage_set:
  fixes W k :: nat
  assumes "0 < W"
  shows "{p. p div W = k} = {k * W ..< k * W + W}"
proof -
  have "p div W = k \<longleftrightarrow> k * W \<le> p \<and> p < k * W + W" for p
    unfolding div_stage [OF assms, of k p, symmetric] by (simp add: add.commute)
  then show ?thesis by (simp only: set_eq_iff mem_Collect_eq atLeastLessThan_iff) blast
qed

lemma add_stages_pipe:
  "pipe_ok W g \<Longrightarrow> 0 < W \<Longrightarrow> tg_size g = k * W \<Longrightarrow> distinct prev \<Longrightarrow> set prev = {p. p div W + 1 = k} \<Longrightarrow>
    \<exists>g'. add_stages W d prev g = Some g' \<and> pipe_ok W g' \<and> tg_size g' = (k + d) * W"
proof (induction d arbitrary: k prev g)
  case (Suc d)
  from add_stage_pipe [OF Suc.prems(1,2,4,5), of 0 W "[]"] Suc.prems(3)
  obtain g1 where g1: "add_stage W prev [] g = Some ([k * W ..< k * W + W], g1)" "pipe_ok W g1"
      "tg_size g1 = (k + 1) * W" by auto
  have "set [k * W ..< k * W + W] = {p. p div W + 1 = k + 1}" by (simp add: stage_set [OF Suc.prems(2)])
  from Suc.IH [OF g1(2) Suc.prems(2) g1(3) _ this] g1(1) show ?case by auto
qed simp

lemma pipe_ok_new: "pipe_ok W tg_new"
  using graph_ok_new by (simp add: pipe_ok_def pipe_def tg_size_def tg_new_def succs_def)

lemma dag_workload_pipe: "0 < W \<Longrightarrow> \<exists>g. dag_workload W D = Some g \<and> pipe_ok W g \<and> tg_size g = W * D"
proof -
  assume W: "0 < W"
  have "tg_size tg_new = 0 * W" by (simp add: tg_new_def tg_size_def)
  from add_stages_pipe [OF pipe_ok_new W this, of "[]" D] show ?thesis
    by (auto simp: dag_workload_def mult.commute)
qed

lemma pipe_member: "0 < W \<Longrightarrow> n \<in> set (pipe W N p) \<longleftrightarrow> n < N \<and> n div W = p div W + 1"
  using div_stage [of W "p div W + 1" n] by (auto simp: pipe_def add.assoc)

lemma pipe_edge: "pipe_ok W g \<Longrightarrow> 0 < W \<Longrightarrow> (p, n) \<in> edge g \<longleftrightarrow> n < tg_size g \<and> n div W = p div W + 1"
  by (simp add: edge_def pipe_ok_def pipe_member)

lemma pipe_acyclic:
  assumes "pipe_ok W g" and "0 < W"
  shows "acyclic (edge g)"
  by (rule acyclicI_order [where f = "\<lambda>n. - int (n div W)"]) (simp add: pipe_edge [OF assms])

lemma pipe_indeg:
  assumes ok: "pipe_ok W g" and W: "0 < W"
  shows "indeg g m \<le> W"
proof -
  have "count_list (pipe W N p) m \<le> (if p div W + 1 = m div W then 1 else 0)" for N p
  proof -
    have "distinct (pipe W N p)" by (simp add: pipe_def)
    then have "count_list (pipe W N p) m = (if m \<in> set (pipe W N p) then 1 else 0)"
      by (simp add: distinct_count_atmost_1 count_mset)
    then show ?thesis using pipe_member [OF W] by auto
  qed
  then have "indeg g m \<le> sum_list (map (\<lambda>p. if p div W + 1 = m div W then 1 else 0) [0..<tg_size g])"
    using ok by (auto simp: indeg_eval pipe_ok_def intro: sum_list_mono)
  also have "\<dots> = card {p \<in> {0..<tg_size g}. p div W + 1 = m div W}"
    by (simp add: sum_list_distinct_conv_sum_set sum.If_cases Int_def)
  also have "\<dots> \<le> card {p. p div W = m div W - 1}"
    by (intro card_mono) (simp add: stage_set [OF W], auto)
  also have "\<dots> = W" by (simp add: stage_set [OF W])
  finally show ?thesis .
qed

section \<open>Medians\<close>

lemma length_filter_sort: "length (filter P (sort xs)) = length (filter P xs)" for xs :: "real list"
  by (metis mset_filter mset_sort size_mset)

lemma filter_take_drop: "filter P ys = filter P (take n ys) @ filter P (drop n ys)"
  by (simp flip: filter_append)

lemma sorted_split:
  fixes ys :: "real list"
  assumes "sorted ys" and "i < length ys"
  shows "Suc i \<le> length (filter (\<lambda>y. y \<le> ys ! i) ys)" and "length ys - i \<le> length (filter (\<lambda>y. ys ! i \<le> y) ys)"
proof -
  have "filter (\<lambda>y. y \<le> ys ! i) (take (Suc i) ys) = take (Suc i) ys"
    using assms by (auto simp: filter_id_conv in_set_conv_nth intro!: sorted_nth_mono)
  then show "Suc i \<le> length (filter (\<lambda>y. y \<le> ys ! i) ys)"
    using assms(2) unfolding filter_take_drop [of _ ys "Suc i"] by simp
  have "filter (\<lambda>y. ys ! i \<le> y) (drop i ys) = drop i ys"
    using assms by (auto simp: filter_id_conv in_set_conv_nth intro!: sorted_nth_mono)
  then show "length ys - i \<le> length (filter (\<lambda>y. ys ! i \<le> y) ys)"
    unfolding filter_take_drop [of _ ys i] by simp
qed

lemma median_middle:
  assumes "median_of xs = Some m"
  shows "m \<in> set xs" and "length xs < 2 * length (filter (\<lambda>x. x \<le> m) xs)"
    and "length xs \<le> 2 * length (filter (\<lambda>x. m \<le> x) xs)"
proof -
  let ?i = "length xs div 2"
  have ne: "xs \<noteq> []" and m: "m = sort xs ! ?i" using assms by (auto simp: median_of_def split: if_splits)
  then have i: "?i < length (sort xs)" by simp
  show "m \<in> set xs" using nth_mem [OF i] m by simp
  from sorted_split [OF sorted_sort i] show "length xs < 2 * length (filter (\<lambda>x. x \<le> m) xs)"
    "length xs \<le> 2 * length (filter (\<lambda>x. m \<le> x) xs)"
    by (simp_all add: m length_filter_sort)
qed

section \<open>Rows\<close>

definition row_tasks :: "string \<Rightarrow> nat" where
  "row_tasks wl = (if wl = ''flat'' then 60000 else 1920)"

text \<open>The row for a measurement, given the time of one thread.\<close>

definition row_spec :: "(string \<Rightarrow> string \<Rightarrow> 32 word \<Rightarrow> real) \<Rightarrow> string \<Rightarrow> string \<Rightarrow> 32 word \<Rightarrow> scaling_row \<Rightarrow> bool" where
  "row_spec wall sn wl n r \<longleftrightarrow> sr_scheduler r = sn \<and> sr_workload r = wl \<and> sr_threads r = n
     \<and> sr_throughput r = real (row_tasks wl) / wall sn wl n
     \<and> sr_speedup r = wall sn wl 1 / wall sn wl n
     \<and> sr_efficiency r = wall sn wl 1 / wall sn wl n / real (unat n)"

lemma scaling_loop_rows:
  assumes pos: "\<forall>n. 0 < wall sn wl n" and tasks: "unat tasks = row_tasks wl"
  shows "list_all2 (row_spec wall sn wl) row_counts (scaling_loop sn wl tasks (wall sn wl) row_counts (- 1))"
proof -
  have "0 < row_tasks wl" by (simp add: row_tasks_def)
  moreover have "0 < wall sn wl n" for n using pos by blast
  moreover from this have "wall sn wl n \<noteq> 0" for n by (metis less_irrefl)
  ultimately show ?thesis
    by (simp add: row_counts_def scaling_row_of_def Let_def row_spec_def tasks)
qed

lemma workload_tasks: "unat kNumTasks = row_tasks ''flat''" "unat dag_nodes = row_tasks ''dag''"
  by (simp_all add: kNumTasks_def dag_nodes_def kDagWidth_def kDagDepth_def row_tasks_def)

lemma list_all2_members:
  "list_all2 P xs ys \<Longrightarrow> y \<in> set ys \<Longrightarrow> \<exists>x \<in> set xs. P x y"
  "list_all2 P xs ys \<Longrightarrow> x \<in> set xs \<Longrightarrow> \<exists>y \<in> set ys. P x y"
  by (induction rule: list_all2_induct) auto

lemma rows_iff:
  assumes pos: "\<forall>sn wl n. 0 < wall sn wl n"
  shows "r \<in> set (all_rows wall) \<Longrightarrow>
      \<exists>sn wl n. sn \<in> set sched_names \<and> wl \<in> {''flat'', ''dag''} \<and> n \<in> set row_counts \<and> row_spec wall sn wl n r"
    and "sn \<in> set sched_names \<Longrightarrow> wl \<in> {''flat'', ''dag''} \<Longrightarrow> n \<in> set row_counts \<Longrightarrow>
      \<exists>r \<in> set (all_rows wall). row_spec wall sn wl n r"
proof -
  have rows: "list_all2 (row_spec wall sn ''flat'') row_counts (scaling_loop sn ''flat'' kNumTasks (wall sn ''flat'') row_counts (- 1))"
    "list_all2 (row_spec wall sn ''dag'') row_counts (scaling_loop sn ''dag'' dag_nodes (wall sn ''dag'') row_counts (- 1))" for sn
    using scaling_loop_rows workload_tasks pos by auto
  show "\<exists>sn wl n. sn \<in> set sched_names \<and> wl \<in> {''flat'', ''dag''} \<and> n \<in> set row_counts \<and> row_spec wall sn wl n r"
    if r: "r \<in> set (all_rows wall)"
  proof -
    from r obtain sn where sn: "sn \<in> set sched_names" and
      either: "r \<in> set (scaling_loop sn ''flat'' kNumTasks (wall sn ''flat'') row_counts (- 1))
       \<or> r \<in> set (scaling_loop sn ''dag'' dag_nodes (wall sn ''dag'') row_counts (- 1))"
      by (auto simp: all_rows_def)
    from either show ?thesis
    proof
      assume "r \<in> set (scaling_loop sn ''flat'' kNumTasks (wall sn ''flat'') row_counts (- 1))"
      from list_all2_members(1) [OF rows(1) this] sn show ?thesis by blast
    next
      assume "r \<in> set (scaling_loop sn ''dag'' dag_nodes (wall sn ''dag'') row_counts (- 1))"
      from list_all2_members(1) [OF rows(2) this] sn show ?thesis by blast
    qed
  qed
  show "\<exists>r \<in> set (all_rows wall). row_spec wall sn wl n r"
    if "sn \<in> set sched_names" "wl \<in> {''flat'', ''dag''}" "n \<in> set row_counts"
  proof -
    have "set (scaling_loop sn ''flat'' kNumTasks (wall sn ''flat'') row_counts (- 1)) \<subseteq> set (all_rows wall)"
      "set (scaling_loop sn ''dag'' dag_nodes (wall sn ''dag'') row_counts (- 1)) \<subseteq> set (all_rows wall)"
      using that(1) by (auto simp: all_rows_def)
    with list_all2_members(2) [OF rows(1) [of sn] that(3)] list_all2_members(2) [OF rows(2) [of sn] that(3)] that(2)
    show ?thesis by blast
  qed
qed

lemma summary_finds:
  assumes pos: "\<forall>sn wl n. 0 < wall sn wl n"
    and "sn \<in> set sched_names" "wl \<in> {''flat'', ''dag''}" "n \<in> set row_counts"
  shows "summary_cell (all_rows wall) sn wl n = Some (real (row_tasks wl) / wall sn wl n)"
proof -
  let ?P = "\<lambda>r. sr_scheduler r = sn \<and> sr_workload r = wl \<and> sr_threads r = n"
  obtain r0 where "r0 \<in> set (all_rows wall)" "?P r0" using rows_iff(2) [OF assms] by (auto simp: row_spec_def)
  then have "List.find ?P (all_rows wall) \<noteq> None" by (auto simp: find_None_iff)
  then obtain r where r: "List.find ?P (all_rows wall) = Some r" by blast
  then have "?P r" "r \<in> set (all_rows wall)" by (auto simp: find_Some_iff)
  with rows_iff(1) [OF pos this(2)] r show ?thesis by (auto simp: summary_cell_def row_spec_def)
qed

section \<open>Properties\<close>

text \<open>C40. The flat workload. Each of the three timed calls of \<open>run\<close> that the median is taken over executes
  every task of one submission loop and no other, on any scheduler, and there is no fourth: with
  the benchmark's constants 60000 tasks, as many as its throughput is computed from.\<close>

theorem flat_workload_executes:
  assumes "make_scheduler nm = Some s0"
    and "lts_run (client_step any_step bench_body)
      (s0, client_start (median_commands (flat_commands num_tasks work_iters n))) (ls1 @ SRunRet # ls2 @ [SRunRet]) x"
    and "count_list ls2 SRunRet = 0"
  shows "count_list ls1 SRunRet < 3 \<and> tally finished ls2 = replicate_mset (unat num_tasks) (Cpu_task work_iters)
    \<and> (num_tasks = kNumTasks \<longrightarrow> size (tally finished ls2) = 60000)"
proof -
  let ?round = "(replicate (unat num_tasks) (Cpu_task work_iters), n)"
  obtain c where s0: "s0 = any_init c" using make_init [OF assms(1)] by blast
  have "median_commands (flat_commands num_tasks work_iters n) = program_of (replicate 4 ?round)"
    by (simp add: median_commands_def flat_commands_def numeral_eq_Suc)
  with assms(2) have "lts_run (client_step any_step bench_body) (any_init c, client_start (program_of (replicate 4 ?round)))
      (ls1 @ SRunRet # ls2 @ [SRunRet]) x"
    by (simp only: s0)
  from any.program_round [OF this assms(3) is_tree_bench]
  have less: "count_list ls1 SRunRet < 3" and all: "tally finished ls2 =
      trees bench_tree (mset (fst (replicate 4 ?round ! Suc (count_list ls1 SRunRet))))" by simp_all
  have tree: "trees bench_tree (replicate_mset k (Cpu_task i)) = replicate_mset k (Cpu_task i)" for k i
    by (induction k) simp_all
  from less have "replicate 4 ?round ! Suc (count_list ls1 SRunRet) = ?round" by (intro nth_replicate) simp
  with all tree have "tally finished ls2 = replicate_mset (unat num_tasks) (Cpu_task work_iters)" by simp
  with less show ?thesis by (simp add: kNumTasks_def)
qed

definition flat_demo :: "bench_task slabel list \<times> bench_task any_sched \<times> bench_task client" where
  "flat_demo = play (client_do any_do bench_body) (two_workers 90)
     (any_init MutexQueue, client_start (median_commands (flat_commands 2 400 2)))"

definition flat_first_labels :: "bench_task slabel list" where
  "flat_first_labels = takeWhile (\<lambda>l. l \<noteq> SRunRet) (fst flat_demo)"

definition flat_second_labels :: "bench_task slabel list" where
  "flat_second_labels = takeWhile (\<lambda>l. l \<noteq> SRunRet) (tl (dropWhile (\<lambda>l. l \<noteq> SRunRet) (fst flat_demo)))"

definition flat_rest_labels :: "bench_task slabel list" where
  "flat_rest_labels = tl (dropWhile (\<lambda>l. l \<noteq> SRunRet) (tl (dropWhile (\<lambda>l. l \<noteq> SRunRet) (fst flat_demo))))"

lemma flat_demo_labels:
  "fst flat_demo = (flat_first_labels @ SRunRet # flat_second_labels @ [SRunRet]) @ flat_rest_labels"
  by code_simp

theorem flat_workload_executes_witness: "tally finished flat_second_labels = {#Cpu_task 400, Cpu_task 400#}"
proof -
  have "lts_run (client_step any_step bench_body) (any_init MutexQueue, client_start (median_commands (flat_commands 2 400 2)))
      (fst flat_demo) (snd flat_demo)"
    unfolding flat_demo_def by (rule client_play [OF any_do_step])
  from lts_run_prefix [OF this [unfolded flat_demo_labels]] obtain x where run: "lts_run (client_step any_step bench_body)
      (any_init MutexQueue, client_start (median_commands (flat_commands 2 400 2)))
      (flat_first_labels @ SRunRet # flat_second_labels @ [SRunRet]) x" by (elim exE)
  have none: "count_list flat_second_labels SRunRet = 0"
    by (simp add: flat_second_labels_def count_list_0_iff) (blast dest: set_takeWhileD)
  have "replicate_mset 2 t = {#t, t#}" for t :: bench_task by (simp add: numeral_2_eq_2)
  with flat_workload_executes [OF make_scheduler_of(1) run none] show ?thesis by simp
qed

text \<open>C26. The DAG workload. The loops build \<open>W * D\<close> nodes in \<open>D\<close> stages, with an edge from every node to
  every node of the next stage and no other; and \<open>execute\<close> on any of the schedulers, whatever
  the number of workers, returns only when every node has run exactly once.\<close>

theorem dag_workload_executes:
  assumes "0 < W" and "W < 2 ^ 32" and "dag_workload W D = Some g" and "make_scheduler nm = Some s0"
    and "lts_run (tg_step any_step) (tg_start g k s0) (ls @ [GReturn]) s"
  shows "tg_size g = W * D \<and> (\<forall>p n. (p, n) \<in> edge g \<longleftrightarrow> n < W * D \<and> n div W = p div W + 1)
    \<and> tally ended_nodes ls = mset [0..<W * D] \<and> gr_remaining (gs_graph s) = 0"
proof -
  have ok: "pipe_ok W g" "tg_size g = W * D" using dag_workload_pipe [OF assms(1), of D] assms(3) by auto
  then have g: "graph_ok g" by (simp add: pipe_ok_def)
  have small: "\<forall>m < tg_size g. indeg g m < 2 ^ 32"
    using pipe_indeg [OF ok(1) assms(1)] assms(2) by (meson le_less_trans)
  obtain c where "s0 = any_init c" using make_init [OF assms(4)] by blast
  with anyg.graph_end [OF g small, of k _ ls GReturn s] assms(5)
  have "tally ended_nodes ls = mset [0..<W * D] \<and> gr_remaining (gs_graph s) = 0"
    by (simp add: acyclic_all_released [OF pipe_acyclic [OF ok(1) assms(1)]] ok(2) lessThan_def [symmetric] lessThan_atLeast0)
  with ok(2) pipe_edge [OF ok(1) assms(1)] show ?thesis by simp
qed

definition small_dag :: "glabel list \<times> nat any_sched gsys" where
  "small_dag = play (tg_do any_do) (round_robin 60) (tg_start (the (dag_workload 2 2)) 2 (any_init MutexQueue))"

theorem dag_workload_executes_witness: "tally ended_nodes (butlast (fst small_dag)) = {#0, 1, 2, 3#}"
proof -
  have g: "dag_workload 2 2 = Some (the (dag_workload 2 2))" by code_simp
  have labels: "fst small_dag = butlast (fst small_dag) @ [GReturn]" by code_simp
  have "lts_run (tg_step any_step) (tg_start (the (dag_workload 2 2)) 2 (any_init MutexQueue))
      (butlast (fst small_dag) @ [GReturn]) (snd small_dag)"
    by (rule subst [OF labels, where P = "\<lambda>ls. lts_run _ _ ls _"]) (unfold small_dag_def, rule tg_play [OF any_do_step])
  note done_all = dag_workload_executes [OF _ _ g make_scheduler_of(1) this, THEN conjunct2, THEN conjunct2, THEN conjunct1]
  have "mset [0..<2 * 2] = mset [0, 1, 2, 3 :: nat]" by (rule arg_cong [where f = mset]) code_simp
  with done_all show ?thesis by (simp del: mset_upt)
qed

text \<open>A sample's time is the median of the three runs after the warm-up: it is one of them, and at
  least two are not above and two not below it. In general \<open>median_of\<close> gives a value of the
  list with half of the list on either side, and indexes out of range only for an empty list.\<close>

theorem median_is_middle:
  assumes "median_of xs = Some m" and "run_median fn = Some t"
  shows "m \<in> set xs \<and> length xs < 2 * length (filter (\<lambda>x. x \<le> m) xs) \<and> length xs \<le> 2 * length (filter (\<lambda>x. m \<le> x) xs)
    \<and> t \<in> {fn 1, fn 2, fn 3} \<and> 2 \<le> length (filter (\<lambda>x. x \<le> t) [fn 1, fn 2, fn 3])
    \<and> 2 \<le> length (filter (\<lambda>x. t \<le> x) [fn 1, fn 2, fn 3]) \<and> median_of [] = None"
proof -
  have "map (\<lambda>i. fn (Suc i)) [0..<3] = [fn 1, fn 2, fn 3]" by (simp add: upt_rec numeral_eq_Suc)
  then have t: "median_of [fn 1, fn 2, fn 3] = Some t" using assms(2) by (simp add: run_median_def)
  from median_middle [OF t] have "t \<in> {fn 1, fn 2, fn 3}" "2 \<le> length (filter (\<lambda>x. x \<le> t) [fn 1, fn 2, fn 3])"
    "2 \<le> length (filter (\<lambda>x. t \<le> x) [fn 1, fn 2, fn 3])"
    by simp_all
  with median_middle [OF assms(1)] show ?thesis by (simp add: median_of_def)
qed

theorem median_is_middle_witness: "median_of [3, 1, 2] = Some 2 \<and> 2 \<le> length (filter (\<lambda>x. x \<le> 2) [3, 1, 2 :: real])"
proof -
  have m: "median_of [3, 1, 2] = Some 2" by (simp add: median_of_def insort_key.simps)
  have t: "run_median (\<lambda>i. if i = 1 then 3 else if i = 2 then 1 else 2) = Some 2"
    by (simp add: run_median_def median_of_def upt_rec)
  from median_is_middle [OF m t] m show ?thesis by simp
qed

text \<open>The rows of the scaling benchmark: for each scheduler, workload and thread count there is a row
  whose speedup is the time of one thread over the time measured and whose efficiency is the
  speedup per thread, and the summary table shows in the cell for it the throughput of that
  measurement.\<close>

theorem scaling_rows_found:
  assumes "\<forall>sn wl n. 0 < wall sn wl n"
    and "sn \<in> {''MutexQueue'', ''LockFreeQueue'', ''WorkStealing''}" and "wl \<in> {''flat'', ''dag''}" and "n \<in> {1, 2, 4, 8}"
  shows "(\<exists>r \<in> set (all_rows wall). sr_scheduler r = sn \<and> sr_workload r = wl \<and> sr_threads r = n
      \<and> sr_speedup r = wall sn wl 1 / wall sn wl n \<and> sr_efficiency r = wall sn wl 1 / wall sn wl n / real (unat n))
    \<and> summary_cell (all_rows wall) sn wl n = Some (real (row_tasks wl) / wall sn wl n)"
proof -
  have "sn \<in> set sched_names" "n \<in> set row_counts" using assms(2,4) by (simp_all add: sched_names_def row_counts_def)
  with rows_iff(2) [OF assms(1) _ assms(3)] summary_finds [OF assms(1) _ assms(3)] show ?thesis
    by (auto simp: row_spec_def)
qed

theorem scaling_rows_found_witness:
  "summary_cell (all_rows (\<lambda>sn wl n. if n = 1 then 8 else 2)) ''WorkStealing'' ''dag'' 4 = Some 960"
  using scaling_rows_found [of "\<lambda>sn wl n. if n = 1 then 8 else 2" "''WorkStealing''" "''dag''" 4]
  by (simp add: row_tasks_def)

end
