(* ===== verification/Progress.thy ===== *)
theory Progress
  imports Scheduler
begin

text \<open>
  The contract \<open>scheduler\<close> says what is true when \<open>run\<close> returns; here is what it takes that it
  can return. A step is quiet when no user decides it: a step inside the scheduler or the return
  of \<open>submit\<close>. A state leads to a condition when quiet steps reach a state that satisfies it. The
  locale \<open>live_scheduler\<close> asks that from every state inside \<open>run\<close> quiet steps lead to one that
  offers the users something: a task to begin, a callable under way that may go on as it likes,
  or the return of \<open>run\<close>; and outside \<open>run\<close> to one where the owner may call what it likes. An
  implementation may name states that are lost: from these nothing happens any more but steps
  inside the scheduler, and they are entered by such steps only. From every other state it can go
  on: no deadlock, and no loop it cannot leave.
\<close>

section \<open>Quiet steps\<close>

fun quiet :: "'t slabel \<Rightarrow> bool" where
  "quiet STau = True"
| "quiet (SRet th) = True"
| "quiet l = False"

inductive leads :: "('s \<Rightarrow> 't slabel \<Rightarrow> 's \<Rightarrow> bool) \<Rightarrow> ('s \<Rightarrow> bool) \<Rightarrow> 's \<Rightarrow> bool"
  for step :: "'s \<Rightarrow> 't slabel \<Rightarrow> 's \<Rightarrow> bool" and Q :: "'s \<Rightarrow> bool"
where
  leads_here: "Q s \<Longrightarrow> leads step Q s"
| leads_on: "step s l s' \<Longrightarrow> quiet l \<Longrightarrow> leads step Q s' \<Longrightarrow> leads step Q s"

lemma leads_tau: "step s STau s' \<Longrightarrow> leads step Q s' \<Longrightarrow> leads step Q s"
  by (rule leads_on [where l = STau]) simp_all

lemma leads_ret: "step s (SRet th) s' \<Longrightarrow> leads step Q s' \<Longrightarrow> leads step Q s"
  by (rule leads_on [where l = "SRet th"]) simp_all

lemma leads_trans:
  assumes "leads step P s" and "\<And>s. P s \<Longrightarrow> leads step Q s"
  shows "leads step Q s"
  using assms(1) by induction (auto intro: assms(2) leads_on)

lemma leads_mono: "leads step P s \<Longrightarrow> (\<And>s. P s \<Longrightarrow> Q s) \<Longrightarrow> leads step Q s"
  using leads_trans [of step P s Q] leads_here [of Q _ step] by blast

lemma leads_run:
  assumes "leads step Q s"
  shows "\<exists>ls s'. lts_run step s ls s' \<and> list_all quiet ls \<and> Q s'"
  using assms
proof induction
  case (leads_here s)
  then show ?case by (intro exI [of _ "[]"] exI [of _ s]) (simp add: run_nil)
next
  case (leads_on s l s')
  then obtain ls t where "lts_run step s' ls t" "list_all quiet ls" "Q t" by blast
  with leads_on show ?case by (intro exI [of _ "l # ls"] exI [of _ t]) (auto intro: lts_run_Cons)
qed

text \<open>A measure that some quiet step brings down until the goal is in reach.\<close>

lemma leads_measure:
  fixes m :: "'s \<Rightarrow> nat"
  assumes go: "\<And>s. I s \<Longrightarrow> leads step Q s \<or> (\<exists>l s'. step s l s' \<and> quiet l \<and> I s' \<and> m s' < m s)"
    and "I s"
  shows "leads step Q s"
  using assms(2)
proof (induction "m s" arbitrary: s rule: less_induct)
  case less
  from go [OF less.prems] show ?case
  proof (elim disjE exE conjE)
    fix l s'
    assume "step s l s'" "quiet l" "I s'" "m s' < m s"
    with less.hyps show ?thesis by (blast intro: leads_on)
  qed
qed

lemma leads_map:
  assumes "leads step Q s" and "\<And>s l s'. step s l s' \<Longrightarrow> step' (f s) l (f s')" and "\<And>s. Q s \<Longrightarrow> Q' (f s)"
  shows "leads step' Q' (f s)"
  using assms(1) by induction (auto intro: leads.intros assms(2,3))

lemma leads_sub:
  "leads step Q s \<Longrightarrow> (\<And>s l s'. step s l s' \<Longrightarrow> step' s l s') \<Longrightarrow> (\<And>s. Q s \<Longrightarrow> Q' s) \<Longrightarrow> leads step' Q' s"
  by (rule leads_map [where f = "\<lambda>s. s"])

section \<open>What a scheduler offers\<close>

definition in_user_code :: "('s \<Rightarrow> 't slabel \<Rightarrow> 's \<Rightarrow> bool) \<Rightarrow> 's \<Rightarrow> nat \<Rightarrow> 't \<Rightarrow> bool" where
  "in_user_code step s w t \<longleftrightarrow> (\<exists>s'. step s (SFinish w t) s') \<and> (\<forall>u. \<exists>s'. step s (SCall (Worker w) u) s')"

definition offers :: "('s \<Rightarrow> 't slabel \<Rightarrow> 's \<Rightarrow> bool) \<Rightarrow> 's \<Rightarrow> bool" where
  "offers step s \<longleftrightarrow> (\<exists>s'. step s SRunRet s') \<or> (\<exists>w t s'. step s (SStart w t) s') \<or> (\<exists>w t. in_user_code step s w t)"

definition ready :: "('s \<Rightarrow> 't slabel \<Rightarrow> 's \<Rightarrow> bool) \<Rightarrow> 's \<Rightarrow> bool" where
  "ready step s \<longleftrightarrow> (\<forall>t. \<exists>s'. step s (SCall Main t) s') \<and> (\<forall>n. \<exists>s'. step s (SRunCall n) s')"

lemma offers_intros:
  "step s SRunRet s' \<Longrightarrow> offers step s"
  "step s (SStart w t) s' \<Longrightarrow> offers step s"
  "in_user_code step s w t \<Longrightarrow> offers step s"
  by (auto simp: offers_def)

lemma offers_map: "offers step s \<Longrightarrow> (\<And>s l s'. step s l s' \<Longrightarrow> step' (f s) l (f s')) \<Longrightarrow> offers step' (f s)"
  unfolding offers_def in_user_code_def by metis

lemma ready_map: "ready step s \<Longrightarrow> (\<And>s l s'. step s l s' \<Longrightarrow> step' (f s) l (f s')) \<Longrightarrow> ready step' (f s)"
  unfolding ready_def by metis

lemmas offers_sub = offers_map [where f = "\<lambda>s. s"]
lemmas ready_sub = ready_map [where f = "\<lambda>s. s"]

text \<open>\<open>fits n\<close> when \<open>n\<close> tasks may wait at a time: a bounded queue promises nothing beyond.\<close>

locale live_scheduler = scheduler +
  fixes fits :: "nat \<Rightarrow> bool"
    and lost :: "'a \<Rightarrow> bool"
  assumes fits_less: "fits n \<Longrightarrow> m \<le> n \<Longrightarrow> fits m"
    and lost_stays: "inv s \<Longrightarrow> lost s \<Longrightarrow> step s l s' \<Longrightarrow> l = STau \<and> lost s'"
    and lost_inside: "inv s \<Longrightarrow> step s l s' \<Longrightarrow> l \<noteq> STau \<Longrightarrow> \<not> lost s'"
    and run_leads: "inv s \<Longrightarrow> \<not> lost s \<Longrightarrow> sp_phase (view s) = Some n \<Longrightarrow> 0 < n \<Longrightarrow> fits (size (sp_queued (view s))) \<Longrightarrow>
      leads step (offers step) s"
    and idle_leads: "inv s \<Longrightarrow> sp_phase (view s) = None \<Longrightarrow> fits (size (sp_queued (view s))) \<Longrightarrow>
      leads step (ready step) s"

context live_scheduler begin

text \<open>Nothing is ever offered again in a lost state.\<close>

lemma lost_for_ever:
  assumes "inv s" and "lost s" and "lts_run step s ls s'"
  shows "list_all (\<lambda>l. l = STau) ls \<and> inv s' \<and> lost s'"
  using assms(3)
proof (induction rule: lts_run.induct)
  case run_nil
  with assms(1,2) show ?case by simp
next
  case (run_snoc ls s1 l s2)
  then have "inv s1" "lost s1" by auto
  with lost_stays [OF _ _ run_snoc.hyps(2)] step_inv [OF _ run_snoc.hyps(2)] run_snoc.IH show ?case by simp
qed

lemma lost_offers_nothing: "inv s \<Longrightarrow> lost s \<Longrightarrow> \<not> offers step s"
  using lost_stays unfolding offers_def in_user_code_def by blast

lemma run_leads_iff:
  assumes "inv s" and "sp_phase (view s) = Some n" and "0 < n" and "fits (size (sp_queued (view s)))"
  shows "(\<exists>ls s'. lts_run step s ls s' \<and> list_all quiet ls \<and> offers step s') \<longleftrightarrow> \<not> lost s"
proof
  show "\<not> lost s" if "\<exists>ls s'. lts_run step s ls s' \<and> list_all quiet ls \<and> offers step s'"
    using that lost_for_ever [OF assms(1)] lost_offers_nothing by blast
  show "\<exists>ls s'. lts_run step s ls s' \<and> list_all quiet ls \<and> offers step s'" if "\<not> lost s"
    by (rule leads_run [OF run_leads [OF assms(1) that assms(2-4)]])
qed

end

section \<open>Who is inside submit\<close>

text \<open>
  A client that takes part in the calls, as a task graph does, also needs that \<open>submit\<close> returns
  only to a thread that has called it, and that such a thread does nothing else meanwhile.
\<close>

definition calls_step :: "(thread \<Rightarrow> bool) \<Rightarrow> 't slabel \<Rightarrow> (thread \<Rightarrow> bool) \<Rightarrow> bool" where
  "calls_step f l f' \<longleftrightarrow> (case l of
       SCall th t \<Rightarrow> \<not> f th \<and> f' = f(th := True)
     | SRet th \<Rightarrow> f th \<and> f' = f(th := False)
     | SFinish w t \<Rightarrow> \<not> f (Worker w) \<and> f' = f
     | _ \<Rightarrow> f' = f)"

text \<open>The threads inside \<open>submit\<close>, from the stage of the owner and the stages of the workers.\<close>

definition calls_of :: "bool \<Rightarrow> ('w \<Rightarrow> bool) \<Rightarrow> 'w list \<Rightarrow> thread \<Rightarrow> bool" where
  "calls_of m f ws th = (case th of Main \<Rightarrow> m | Worker w \<Rightarrow> w < length ws \<and> f (ws ! w))"

lemma calls_of_update: "w < length ws \<Longrightarrow> calls_of m f (ws[w := x]) = (calls_of m f ws)(Worker w := f x)"
  by (auto simp: calls_of_def fun_eq_iff nth_list_update split: thread.splits)

lemma calls_of_same: "w < length ws \<Longrightarrow> f x = f (ws ! w) \<Longrightarrow> calls_of m f (ws[w := x]) = calls_of m f ws"
  by (auto simp: calls_of_def fun_eq_iff nth_list_update split: thread.splits)

lemma calls_of_main: "calls_of m' f ws = (calls_of m f ws)(Main := m')"
  by (auto simp: calls_of_def fun_eq_iff split: thread.splits)

lemma calls_of_snoc: "\<not> f x \<Longrightarrow> calls_of m f (ws @ [x]) = calls_of m f ws"
  by (auto simp: calls_of_def fun_eq_iff nth_append split: thread.splits)

lemma calls_of_cong: "map f ws = map f ws' \<Longrightarrow> calls_of m f ws = calls_of m f ws'"
  by (auto simp: calls_of_def fun_eq_iff dest: map_eq_imp_length_eq split: thread.splits) (metis length_map nth_map)+

lemma calls_of_none: "(\<And>x. x \<in> set ws \<Longrightarrow> \<not> f x) \<Longrightarrow> calls_of m f ws = (\<lambda>th. th = Main \<and> m)"
  by (auto simp: calls_of_def fun_eq_iff split: thread.splits)

lemma calls_of_Nil: "calls_of m f [] = (\<lambda>th. th = Main \<and> m)"
  by (rule calls_of_none) simp

lemma calls_of_apply [simp]:
  "calls_of m f ws Main = m" "calls_of m f ws (Worker w) \<longleftrightarrow> w < length ws \<and> f (ws ! w)"
  by (simp_all add: calls_of_def)

lemma calls_of_idle [simp]: "\<not> f (ws ! w) \<Longrightarrow> (calls_of m f ws)(Worker w := False) = calls_of m f ws"
  by (auto simp: calls_of_def fun_eq_iff split: thread.splits)

locale calling_scheduler = live_scheduler +
  fixes calls :: "'a \<Rightarrow> thread \<Rightarrow> bool"
  assumes calls_init: "\<not> calls init th"
    and calls_ok: "inv s \<Longrightarrow> step s l s' \<Longrightarrow> calls_step (calls s) l (calls s')"

end
