(* ===== verification/Ring_Books.thy ===== *)
theory Ring_Books
  imports Ring_Queue
begin

text \<open>
  Who the ring waits for. The protocol of \<open>Ring_Queue\<close> keeps threads apart; here is what makes
  them come to an end: every position between the cursors is with its producer or published, a
  claimed position is with its consumer until the slot is released, and the distance of the
  cursors is the number of tasks in the ring and with the threads on their way in.
\<close>

section \<open>Positions\<close>

definition ring_books :: "'t ring \<Rightarrow> stage multiset \<Rightarrow> bool" where
  "ring_books r fl \<longleftrightarrow>
     (\<forall>p \<in># producers fl. rg_tail r \<le> p \<and> seq_at r p \<noteq> Suc p)
     \<and> (\<forall>p. rg_tail r \<le> p \<and> p < rg_head r \<longrightarrow> p \<in># producers fl \<or> seq_at r p = Suc p)
     \<and> (\<forall>p < rg_tail r. seq_at r p = Suc p \<longrightarrow> p \<in># consumers fl)"

lemma ring_booksI:
  assumes "\<And>p. p \<in># producers fl \<Longrightarrow> rg_tail r \<le> p \<and> seq_at r p \<noteq> Suc p"
    and "\<And>p. rg_tail r \<le> p \<Longrightarrow> p < rg_head r \<Longrightarrow> p \<notin># producers fl \<Longrightarrow> seq_at r p = Suc p"
    and "\<And>p. p < rg_tail r \<Longrightarrow> seq_at r p = Suc p \<Longrightarrow> p \<in># consumers fl"
  shows "ring_books r fl"
  using assms unfolding ring_books_def by blast

lemma ring_booksD:
  assumes "ring_books r fl"
  shows "p \<in># producers fl \<Longrightarrow> rg_tail r \<le> p" and "p \<in># producers fl \<Longrightarrow> seq_at r p \<noteq> Suc p"
    and "rg_tail r \<le> p \<Longrightarrow> p < rg_head r \<Longrightarrow> p \<notin># producers fl \<Longrightarrow> seq_at r p = Suc p"
    and "p < rg_tail r \<Longrightarrow> seq_at r p = Suc p \<Longrightarrow> p \<in># consumers fl"
  using assms unfolding ring_books_def by auto

lemma ring_books_same:
  "ring_books r fl \<Longrightarrow> producers fl' = producers fl \<Longrightarrow> consumers fl' = consumers fl \<Longrightarrow> ring_books r fl'"
  by (simp add: ring_books_def)

lemma published_reserved:
  assumes inv: "ring_inv r fl" and "seq_at r p = Suc p"
  shows "p < rg_head r"
proof -
  have wf: "ring_wf r" using inv by (simp add: ring_inv_def)
  obtain q where q: "ring_ix r q = ring_ix r p" "slot_ok r fl q" using inv by (rule ring_inv_slot)
  with assms(2) slot_ok_same [OF q(1)] same_slot_neighbours [OF wf, of p q] show ?thesis
    by (auto simp: slot_ok_def)
qed

lemma books_reserve:
  assumes inv: "ring_inv r fl" and books: "ring_books r fl"
  shows "ring_books (r\<lparr>rg_head := rg_head r + 1\<rparr>) (add_mset (At_wait (rg_head r)) fl)"
proof (rule ring_booksI)
  show "rg_tail (r\<lparr>rg_head := rg_head r + 1\<rparr>) \<le> p \<and> seq_at (r\<lparr>rg_head := rg_head r + 1\<rparr>) p \<noteq> Suc p"
    if "p \<in># producers (add_mset (At_wait (rg_head r)) fl)" for p
    using that ring_booksD(1,2) [OF books] published_reserved [OF inv, of p] ring_seq_bound(2) [OF inv] by auto
qed (use ring_booksD(3,4) [OF books] in \<open>auto simp: less_Suc_eq\<close>)

lemma books_publish:
  assumes inv: "ring_inv r (add_mset (At_publish p) fl)" and books: "ring_books r (add_mset (At_publish p) fl)"
  shows "ring_books (store_seq r p (Suc p)) fl"
proof -
  have wf: "ring_wf r" and free: "seq_at r p = p" using inv by (auto simp: ring_inv_def)
  note at = seq_at_store [OF wf]
  have tail: "rg_tail r \<le> p" using ring_booksD(1) [OF books, of p] by simp
  have other: "seq_at r q \<noteq> Suc q" if "ring_ix r q = ring_ix r p" for q
    using slot_ok_same [OF that] free same_slot_neighbours [OF wf that] by auto
  show ?thesis
  proof (rule ring_booksI)
    fix q
    assume q: "q \<in># producers fl"
    have "count (producers (add_mset (At_publish p) fl)) q \<le> 1" using inv unfolding ring_inv_def by blast
    with q have "q \<noteq> p" by (auto simp: count_greater_zero_iff [symmetric] simp del: count_greater_zero_iff)
    with q ring_booksD(1,2) [OF books, of q] show "rg_tail (store_seq r p (Suc p)) \<le> q \<and> seq_at (store_seq r p (Suc p)) q \<noteq> Suc q"
      by (simp add: at)
  next
    fix q
    assume "rg_tail (store_seq r p (Suc p)) \<le> q" "q < rg_head (store_seq r p (Suc p))" "q \<notin># producers fl"
    with ring_booksD(3) [OF books, of q] other [of q] show "seq_at (store_seq r p (Suc p)) q = Suc q"
      by (cases "q = p") (auto simp: at)
  next
    fix q
    assume "q < rg_tail (store_seq r p (Suc p))" "seq_at (store_seq r p (Suc p)) q = Suc q"
    with ring_booksD(4) [OF books, of q] tail show "q \<in># consumers fl"
      by (auto simp: at split: if_splits)
  qed
qed

lemma books_claim:
  assumes inv: "ring_inv r (add_mset (At_cas p) fl)" and tail: "rg_tail r = p" and books: "ring_books r fl"
  shows "ring_books (r\<lparr>rg_tail := Suc p\<rparr>) (add_mset (At_take p) fl)"
proof -
  have seq: "seq_at r p = Suc p" using inv tail by (simp add: ring_inv_def)
  show ?thesis
  proof (rule ring_booksI)
    fix q
    assume "q \<in># producers (add_mset (At_take p) fl)"
    with ring_booksD(1,2) [OF books, of q] tail seq
    show "rg_tail (r\<lparr>rg_tail := Suc p\<rparr>) \<le> q \<and> seq_at (r\<lparr>rg_tail := Suc p\<rparr>) q \<noteq> Suc q"
      by (cases "q = p") auto
  qed (use ring_booksD(3,4) [OF books] tail in \<open>auto simp: less_Suc_eq\<close>)
qed

lemma books_release:
  assumes inv: "ring_inv r (add_mset (At_release p) fl)" and books: "ring_books r (add_mset (At_release p) fl)"
  shows "ring_books (store_seq r p (p + ring_size r)) fl"
proof -
  have wf: "ring_wf r" and seq: "seq_at r p = Suc p" and claimed: "p < rg_tail r" using inv by (auto simp: ring_inv_def)
  note at = seq_at_store [OF wf]
  have new: "p + ring_size r \<noteq> Suc q" if "ring_ix r q = ring_ix r p" for q
    using same_slot_neighbours [OF wf, of q "p + ring_size r"] same_slot_next [of r p] that by simp
  have own: "q = p" if "ring_ix r q = ring_ix r p" "seq_at r q = Suc q" for q
    using slot_ok_same [OF that(1)] that(2) seq by simp
  show ?thesis
  proof (rule ring_booksI)
    fix q
    assume "q \<in># producers fl"
    with ring_booksD(1,2) [OF books, of q] new [of q]
    show "rg_tail (store_seq r p (p + ring_size r)) \<le> q \<and> seq_at (store_seq r p (p + ring_size r)) q \<noteq> Suc q"
      by (auto simp: at)
  next
    fix q
    assume q: "rg_tail (store_seq r p (p + ring_size r)) \<le> q" "q < rg_head (store_seq r p (p + ring_size r))" "q \<notin># producers fl"
    then have "seq_at r q = Suc q" using ring_booksD(3) [OF books, of q] by simp
    with q own [of q] claimed show "seq_at (store_seq r p (p + ring_size r)) q = Suc q" by (auto simp: at)
  next
    fix q
    assume "q < rg_tail (store_seq r p (p + ring_size r))" "seq_at (store_seq r p (p + ring_size r)) q = Suc q"
    with ring_booksD(4) [OF books, of q] new [of q] show "q \<in># consumers fl"
      by (auto simp: at split: if_splits)
  qed
qed

lemma books_payload: "ring_wf r \<Longrightarrow> ring_books (store_payload r p v) fl \<longleftrightarrow> ring_books r fl"
  by (simp add: ring_books_def seq_at_store)

lemma enq_step_books:
  assumes inv: "ring_inv r (enq_stage e + fl)" and books: "ring_books r (enq_stage e + fl)" and step: "enq_step r e = (r', e')"
  shows "ring_books r' (enq_stage e' + fl)"
proof -
  have wf: "ring_wf r" using inv by (simp add: ring_inv_def)
  show ?thesis
  proof (cases e)
    case (E_reserve t)
    with assms books_reserve [of r fl] show ?thesis by auto
  next
    case (E_wait t p)
    with step books show ?thesis by (auto split: if_splits intro: ring_books_same)
  next
    case (E_store t p)
    with step books wf show ?thesis by (auto simp: books_payload intro: ring_books_same)
  next
    case (E_publish p)
    with assms books_publish [of r p fl] show ?thesis by auto
  qed (use step books in auto)
qed

lemma deq_step_books:
  assumes inv: "ring_inv r (deq_stage c + fl)" and books: "ring_books r (deq_stage c + fl)" and step: "deq_step b r c = (r', c')"
  shows "ring_books r' (deq_stage c' + fl)"
proof -
  have wf: "ring_wf r" using inv by (simp add: ring_inv_def)
  show ?thesis
  proof (cases c)
    case (C_seq p)
    with step books show ?thesis by (auto simp: Let_def split: if_splits intro: ring_books_same)
  next
    case (C_cas p)
    then have "ring_books r fl" using books by (intro ring_books_same [OF books]) simp_all
    with C_cas step inv books_claim [of r p fl] show ?thesis by (auto split: if_splits)
  next
    case (C_take p)
    with step books wf show ?thesis by (auto simp: books_payload intro: ring_books_same)
  next
    case (C_release p raw)
    with assms books_release [of r p fl] show ?thesis by auto
  qed (use step books in auto)
qed

lemma ring_books_new: "ring_books (ring_new k) {#}"
  by (simp add: ring_books_def ring_new_def)

section \<open>The distance of the cursors\<close>

fun stage_weight :: "stage \<Rightarrow> int" where
  "stage_weight (At_wait p) = 1"
| "stage_weight (At_store p) = 1"
| "stage_weight (At_take p) = - 1"
| "stage_weight st = 0"

definition ring_drift :: "'t ring \<Rightarrow> int" where
  "ring_drift r = int (rg_head r) - int (rg_tail r) - int (size (ring_tasks r))"

definition fl_weight :: "stage multiset \<Rightarrow> int" where
  "fl_weight fl = (\<Sum>st \<in># fl. stage_weight st)"

lemma fl_weight_simps [simp]:
  "fl_weight {#} = 0" "fl_weight (add_mset st fl) = stage_weight st + fl_weight fl"
  "fl_weight (fl + fl') = fl_weight fl + fl_weight fl'"
  by (simp_all add: fl_weight_def)

lemma fl_weight_sum_over: "fl_weight (sum_over f ws) = sum_over (\<lambda>w. fl_weight (f w)) ws"
  by (induction ws) simp_all

lemma enq_step_drift:
  assumes inv: "ring_inv r (enq_stage e + fl)" and step: "enq_step r e = (r', e')"
  shows "ring_drift r' - fl_weight (enq_stage e') = ring_drift r - fl_weight (enq_stage e)"
proof -
  have "size (ring_tasks r') + size (enq_held e') = size (ring_tasks r) + size (enq_held e)"
    using enq_step_ok(2) [OF inv step] by (metis size_union)
  with step show ?thesis by (cases e) (auto simp: ring_drift_def split: if_splits)
qed

lemma deq_step_drift:
  assumes inv: "ring_inv r (deq_stage c + fl)" and step: "deq_step b r c = (r', c')"
  shows "ring_drift r' - fl_weight (deq_stage c') = ring_drift r - fl_weight (deq_stage c)"
proof -
  have "size (ring_tasks r') + size (deq_held c') = size (ring_tasks r) + size (deq_held c)"
    using deq_step_ok(2) [OF inv step] by (metis size_union)
  moreover have "size (deq_held (C_release p raw)) = 1" if "c' = C_release p raw" for p and raw :: "'a option"
    using deq_step_ok(5) [OF inv step] that by (cases raw) auto
  ultimately show ?thesis using step by (cases c) (auto simp: ring_drift_def Let_def split: if_splits)
qed

lemma enq_weight_held: "fl_weight (enq_stage e) \<le> int (size (enq_held e))"
  by (cases e) simp_all

lemma deq_weight: "fl_weight (deq_stage c) \<le> 0"
  by (cases c) simp_all

section \<open>Who a producer waits for\<close>

lemma same_window:
  assumes "ring_ix r p = ring_ix r q" and "t \<le> p" "p < t + ring_size r" "t \<le> q" "q < t + ring_size r"
  shows "p = q"
  using assms same_slot_far [of r p q] same_slot_far [of r q p] by (metis add_le_mono1 not_le order.trans linorder_neqE_nat)

text \<open>A producer within a ring of the claimed positions waits only for a consumer.\<close>

lemma wait_for_consumer:
  assumes inv: "ring_inv r fl" and books: "ring_books r fl" and p: "p \<in># producers fl"
    and busy: "seq_at r p \<noteq> p" and room: "rg_head r \<le> rg_tail r + ring_size r"
  shows "\<exists>q. q \<in># consumers fl"
proof -
  have "p < rg_head r"
  proof -
    obtain st where "st \<in># fl" "p \<in># producing st" using p by (auto simp: producers_def)
    moreover from this inv have "stage_ok r st" by (simp add: ring_inv_def)
    ultimately show ?thesis by (cases st) auto
  qed
  with ring_booksD(1,2) [OF books p] room have p': "rg_tail r \<le> p" "p < rg_tail r + ring_size r" "seq_at r p \<noteq> Suc p" by auto
  obtain q where q: "ring_ix r q = ring_ix r p" "slot_ok r fl q" using inv by (rule ring_inv_slot)
  note same = slot_ok_same [OF q(1)]
  from q(2) consider (free) "seq_at r q = q" "rg_tail r \<le> q" "q < rg_tail r + ring_size r"
    | (filled) "seq_at r q = Suc q" "q < rg_tail r + ring_size r" by (auto simp: slot_ok_def)
  then show ?thesis
  proof cases
    case free
    with same_window [OF q(1), of "rg_tail r"] p' same busy show ?thesis by auto
  next
    case filled
    have "q < rg_tail r"
    proof (rule ccontr)
      assume "\<not> q < rg_tail r"
      with same_window [OF q(1), of "rg_tail r"] filled p' same show False by auto
    qed
    with ring_booksD(4) [OF books _ filled(1)] show ?thesis by blast
  qed
qed

end
