(* ===== verification/Mutex_Progress.thy ===== *)
theory Mutex_Progress
  imports Mutex_Queue Progress
begin

text \<open>
  The mutex scheduler can always go on (\<open>live_scheduler\<close>): whoever holds the mutex releases it,
  a queued task has a worker awake that comes to take it, and when nothing is pending \<open>run\<close>
  shuts the workers down and they leave. All this is done by the code (\<open>mq_move\<close>): it rests on the
  notifications, never on a spurious wake-up. The exception is where \<open>run\<close> has missed the notification
  of \<^verbatim>\<open>done_cv_\<close> (\<open>missed\<close>): these states are lost, and only a spurious wake-up leads out of them.
\<close>

section \<open>Steps\<close>

definition mq_linv :: "'t mq \<Rightarrow> bool" where
  "mq_linv s \<longleftrightarrow> mq_inv s \<and> mq_lock_inv s \<and> mq_wake_inv s"

lemma mq_linv_step: "mq_linv s \<Longrightarrow> mq_step s l s' \<Longrightarrow> mq_linv s'"
  using mq_step_good mq_step_lock mq_step_wake unfolding mq_linv_def mq_good_def by blast

lemma mq_linv_move: "mq_linv s \<Longrightarrow> mq_move s l s' \<Longrightarrow> mq_linv s'"
  by (rule mq_linv_step [OF _ mq_step.move])

lemma mq_linv_init: "mq_linv mq_init"
  by (simp add: mq_linv_def mq_init_def mq_inv_def lock_inv_alt at_worker_def mq_wake_inv_def)

lemma mq_linv_parts:
  assumes "mq_linv s"
  shows "mq_inv s" "mq_lock_inv s" "mq_wake_inv s"
  using assms by (auto simp: mq_linv_def)

lemma mq_worker_frame:
  assumes "mq_worker_step w s pc = Some (s', pc')"
  shows "mq_workers s' = mq_workers s \<and> mq_n s' = mq_n s \<and> (pc \<noteq> W_notify \<longrightarrow> mq_main s' = mq_main s)
    \<and> main_launched (mq_main s') = main_launched (mq_main s)"
proof (cases pc)
  case (W_submit t p)
  with assms obtain p' where p: "mq_submit_step (Worker w) s p = Some (s', p')" by (auto split: option.splits)
  then show ?thesis using W_submit by (cases p) (auto split: if_splits)
next
  case W_notify
  with assms show ?thesis by (cases "mq_main s") (auto simp: notify_done_def)
qed (use assms in \<open>auto simp: Let_def split: if_splits\<close>)

lemma mq_worker_go:
  assumes at: "at_worker s w pc" and step: "mq_worker_step w s pc = Some (s', pc')"
  shows "mq_move s STau (set_worker s' w pc')" "at_worker (set_worker s' w pc') w pc'"
    "mq_workers (set_worker s' w pc') = (mq_workers s)[w := pc']" "mq_main (set_worker s' w pc') = mq_main s'"
    "mq_n (set_worker s' w pc') = mq_n s"
  using mq_move.worker [OF at step] at mq_worker_frame [OF step]
  by (auto simp: at_worker_def set_worker_def)

lemma mq_main_go: "mq_main_step s (mq_main s) = Some (s', pc) \<Longrightarrow> mq_move s STau (s'\<lparr>mq_main := pc\<rparr>)"
  by (rule mq_move.main)

section \<open>Coming to an offer\<close>

definition mq_offers :: "'t mq \<Rightarrow> bool" where
  "mq_offers = offers mq_move"

lemma mq_offers_intros:
  "mq_move s SRunRet s' \<Longrightarrow> mq_offers s"
  "mq_move s (SStart w t) s' \<Longrightarrow> mq_offers s"
  by (auto simp: mq_offers_def offers_def)

lemma mq_running_leads:
  assumes "at_worker s w (W_run t)"
  shows "leads mq_move mq_offers s"
proof (rule leads_here)
  have "in_user_code mq_move s w t"
    using assms by (auto simp: in_user_code_def intro: mq_move.task_finish mq_move.task_call)
  then show "mq_offers s" unfolding mq_offers_def by (rule offers_intros(3))
qed

fun msub_left :: "'t msub \<Rightarrow> nat" where
  "msub_left (Sub_lock t) = 4"
| "msub_left (Sub_add t) = 3"
| "msub_left (Sub_push t) = 2"
| "msub_left Sub_unlock = 1"
| "msub_left Sub_notify = 0"

lemma msub_step:
  assumes "p \<noteq> Sub_notify" and "mq_mu s = None \<or> mq_mu s = Some th" and "mq_mu s = Some th \<longleftrightarrow> sub_critical p"
  shows "\<exists>s' p'. mq_submit_step th s p = Some (s', p') \<and> msub_left p' < msub_left p
    \<and> (mq_mu s' = None \<or> mq_mu s' = Some th) \<and> mq_workers s' = mq_workers s \<and> mq_main s' = mq_main s"
  using assms by (cases p) auto

lemma mq_submit_leads:
  assumes "mq_linv s" and "at_worker s w (W_submit t p)" and "mq_mu s = None \<or> mq_mu s = Some (Worker w)"
  shows "leads mq_move mq_offers s"
proof (rule leads_measure [where m = "\<lambda>s. case mq_workers s ! w of W_submit t p \<Rightarrow> msub_left p | _ \<Rightarrow> 0" and
      I = "\<lambda>s. mq_linv s \<and> (\<exists>p. at_worker s w (W_submit t p)) \<and> (mq_mu s = None \<or> mq_mu s = Some (Worker w))"])
  fix s :: "'a mq"
  assume "mq_linv s \<and> (\<exists>p. at_worker s w (W_submit t p)) \<and> (mq_mu s = None \<or> mq_mu s = Some (Worker w))"
  then obtain p where linv: "mq_linv s" and at: "at_worker s w (W_submit t p)"
    and mu: "mq_mu s = None \<or> mq_mu s = Some (Worker w)" by blast
  show "leads mq_move mq_offers s \<or> (\<exists>l s'. mq_move s l s' \<and> quiet l
      \<and> (mq_linv s' \<and> (\<exists>p. at_worker s' w (W_submit t p)) \<and> (mq_mu s' = None \<or> mq_mu s' = Some (Worker w)))
      \<and> (case mq_workers s' ! w of W_submit t p \<Rightarrow> msub_left p | _ \<Rightarrow> 0) < (case mq_workers s ! w of W_submit t p \<Rightarrow> msub_left p | _ \<Rightarrow> 0))"
  proof (cases "p = Sub_notify")
    case True
    obtain ws where ws: "notify_one (mq_workers s) ws" using notify_one_ex by blast
    let ?s = "set_worker (s\<lparr>mq_workers := ws\<rparr>) w (W_run t)"
    have ret: "mq_move s (SRet (Worker w)) ?s"
      using at True ws by (intro mq_move.task_return) simp_all
    have "at_worker ?s w (W_run t)" using at notify_one_views(4) [OF ws] by (simp add: at_worker_def set_worker_def)
    then have "leads mq_move mq_offers ?s" by (rule mq_running_leads)
    with ret have "leads mq_move mq_offers s" by (rule leads_ret)
    then show ?thesis ..
  next
    case False
    have "w < length (mq_workers s) \<and> worker_critical (mq_workers s ! w) \<longleftrightarrow> mq_mu s = Some (Worker w)"
      using mq_linv_parts(2) [OF linv] unfolding lock_inv_alt by blast
    then have "mq_mu s = Some (Worker w) \<longleftrightarrow> sub_critical p" using at by (simp add: at_worker_def)
    with msub_step [OF False mu] obtain s1 p' where p': "mq_submit_step (Worker w) s p = Some (s1, p')"
      "msub_left p' < msub_left p" "mq_mu s1 = None \<or> mq_mu s1 = Some (Worker w)" by blast
    then have step: "mq_worker_step w s (W_submit t p) = Some (s1, W_submit t p')" by simp
    note go = mq_worker_go [OF at step]
    have "mq_mu (set_worker s1 w (W_submit t p')) = mq_mu s1" by (simp add: set_worker_def)
    with go(1-3) mq_linv_move [OF linv go(1)] p'(2,3) at show ?thesis
      by (intro disjI2 exI [of _ STau] exI [of _ "set_worker s1 w (W_submit t p')"]) (auto simp: at_worker_def)
  qed
qed (use assms in blast)

text \<open>A worker outside its task, and the thread in \<open>run\<close>, on the way to sleep or to the end.\<close>

fun mworker_left :: "'t mworker \<Rightarrow> nat" where
  "mworker_left W_notify = 5"
| "mworker_left W_lock = 4"
| "mworker_left W_check = 3"
| "mworker_left W_block = 2"
| "mworker_left W_take = 1"
| "mworker_left pc = 0"

lemma mworker_left_le: "mworker_left pc \<le> 5"
  by (cases pc) simp_all

definition workers_left :: "'t mq \<Rightarrow> nat" where
  "workers_left s = sum_over mworker_left (mq_workers s)"

lemma workers_left_set:
  assumes at: "at_worker s w pc" and ws: "mq_workers s' = (mq_workers s)[w := pc']" and less: "mworker_left pc' < mworker_left pc"
  shows "workers_left s' < workers_left s"
  using sum_over_update [of w "mq_workers s" mworker_left pc'] at less
  by (simp add: workers_left_def ws at_worker_def)

text \<open>What a worker that is awake and not in a task does, if the mutex lets it.\<close>

lemma mq_worker_can:
  assumes at: "at_worker s w pc" and idle: "worker_counted pc = 0" "pc \<noteq> W_sleep" "pc \<noteq> W_exit"
    and mu: "mq_mu s = None \<or> worker_critical pc"
  shows "mq_offers s \<or> (\<exists>s' pc'. mq_worker_step w s pc = Some (s', pc') \<and> mworker_left pc' < mworker_left pc
    \<and> mq_pending s' = mq_pending s)"
proof (cases pc)
  case (W_submit t p)
  with idle(1) counted_nonneg(1) [of p] show ?thesis by (simp del: counted_nonneg)
next
  case W_take
  show ?thesis
  proof (cases "mq_queue s")
    case (Cons t q)
    have "at_worker s w W_take" using at W_take by simp
    from mq_offers_intros(2) [OF mq_move.take [OF this Cons]] show ?thesis ..
  qed (use W_take in simp)
qed (use idle mu in auto)

lemma leads_pick:
  assumes at: "at_worker s w pc" and linv: "mq_linv s" and "worker_counted pc = 0" "pc \<noteq> W_sleep" "pc \<noteq> W_exit"
    and "mq_mu s = None \<or> worker_critical pc"
  shows "leads mq_move mq_offers s \<or> (\<exists>s'. mq_move s STau s' \<and> mq_linv s' \<and> workers_left s' < workers_left s
    \<and> mq_n s' = mq_n s \<and> length (mq_workers s') = length (mq_workers s)
    \<and> (mq_main s' = mq_main s \<or> mq_main s' = notify_done (mq_main s)) \<and> mq_pending s' = mq_pending s)"
  using mq_worker_can [OF at assms(3-6)]
proof
  assume "mq_offers s"
  then show ?thesis by (blast intro: leads_here)
next
  assume "\<exists>s' pc'. mq_worker_step w s pc = Some (s', pc') \<and> mworker_left pc' < mworker_left pc \<and> mq_pending s' = mq_pending s"
  then obtain s1 pc' where step: "mq_worker_step w s pc = Some (s1, pc')" and less: "mworker_left pc' < mworker_left pc"
    and p: "mq_pending s1 = mq_pending s" by blast
  note go = mq_worker_go [OF at step]
  have "mq_main s1 = mq_main s \<or> mq_main s1 = notify_done (mq_main s)"
    using mq_worker_frame [OF step] step by (cases "pc = W_notify") auto
  moreover have "mq_pending (set_worker s1 w pc') = mq_pending s1" by (simp add: set_worker_def)
  ultimately show ?thesis
    using go mq_linv_move [OF linv go(1)] workers_left_set [OF at go(3) less] p
    by (intro disjI2 exI [of _ "set_worker s1 w pc'"]) simp
qed

section \<open>Inside run\<close>

text \<open>The holder of the mutex, or any worker that is awake.\<close>

lemma holder_at:
  assumes "mq_linv s" and "mq_mu s = Some (Worker w)"
  shows "at_worker s w (mq_workers s ! w) \<and> worker_critical (mq_workers s ! w)"
  using mq_linv_parts(2) [OF assms(1)] assms(2) unfolding lock_inv_alt at_worker_def by blast

lemma awake_pick:
  assumes linv: "mq_linv s" and pc: "pc \<in> set (mq_workers s)" "worker_counted pc = 0" "awake pc"
    and free: "\<And>th. mq_mu s = Some th \<Longrightarrow> \<exists>v. th = Worker v \<and> worker_counted (mq_workers s ! v) = 0"
  shows "\<exists>w pc. at_worker s w pc \<and> worker_counted pc = 0 \<and> pc \<noteq> W_sleep \<and> pc \<noteq> W_exit \<and> (mq_mu s = None \<or> worker_critical pc)"
proof (cases "mq_mu s")
  case None
  obtain w where "at_worker s w pc" using pc(1) by (auto simp: at_worker_def in_set_conv_nth)
  with None pc show ?thesis by (auto simp: awake_def)
next
  case (Some th)
  then obtain v where v: "th = Worker v" "worker_counted (mq_workers s ! v) = 0" using free by blast
  from holder_at [OF linv] Some v have "at_worker s v (mq_workers s ! v)" "worker_critical (mq_workers s ! v)" by auto
  with v(2) show ?thesis by (intro exI [of _ v] exI [of _ "mq_workers s ! v"]) auto
qed

fun mclose_left :: "'t mmain \<Rightarrow> nat" where
  "mclose_left R_block = 6"
| "mclose_left R_sleep = 5"
| "mclose_left R_lock2 = 4"
| "mclose_left R_check = 3"
| "mclose_left R_shut = 2"
| "mclose_left R_notify = 1"
| "mclose_left pc = 0"

definition close_left :: "'t mq \<Rightarrow> nat" where
  "close_left s = (5 * length (mq_workers s) + 1) * mclose_left (mq_main s) + workers_left s"

lemma workers_left_bound: "workers_left s \<le> 5 * length (mq_workers s)"
proof -
  have "sum_over mworker_left ws \<le> 5 * length ws" for ws :: "'a mworker list"
  proof (induction ws)
    case (Cons pc ws)
    with mworker_left_le [of pc] show ?case by simp
  qed simp
  then show ?thesis by (simp add: workers_left_def)
qed

lemma close_left_main:
  assumes "length (mq_workers s') = length (mq_workers s)" and "mclose_left (mq_main s') < mclose_left (mq_main s)"
  shows "close_left s' < close_left s"
proof -
  let ?k = "5 * length (mq_workers s) + 1"
  have "?k * mclose_left (mq_main s') + ?k \<le> ?k * mclose_left (mq_main s)"
    using assms(2) mult_le_mono2 [of "Suc (mclose_left (mq_main s'))" "mclose_left (mq_main s)" ?k] by simp
  moreover have "workers_left s' < ?k" using workers_left_bound [of s'] assms(1) by simp
  ultimately have "?k * mclose_left (mq_main s') + workers_left s' < ?k * mclose_left (mq_main s) + workers_left s"
    by (meson add_less_le_mono add_strict_left_mono le_add1 order_less_le_trans)
  then show ?thesis by (simp add: close_left_def assms(1))
qed

fun main_closes :: "'t mmain \<Rightarrow> bool" where
  "main_closes R_notify = True"
| "main_closes R_join = True"
| "main_closes pc = main_launched pc"

lemma main_closes_iff: "main_closes m \<longleftrightarrow> main_launched m \<or> m = R_notify \<or> m = R_join"
  by (cases m) simp_all

text \<open>\<open>run\<close> is asleep, or about to, though nothing is pending, and nobody is left to notify \<^verbatim>\<open>done_cv_\<close>.\<close>

definition missed :: "'t mq \<Rightarrow> bool" where
  "missed s \<longleftrightarrow> (mq_main s = R_block \<or> mq_main s = R_sleep) \<and> mq_pending s = 0 \<and> W_notify \<notin> set (mq_workers s)"

lemma mq_close_leads:
  assumes "mq_linv s" and "main_closes (mq_main s)" and "mq_pending s = 0" and "\<not> missed s"
  shows "leads mq_move mq_offers s"
proof (rule leads_measure [where m = close_left and I = "\<lambda>s. mq_linv s \<and> main_closes (mq_main s) \<and> mq_pending s = 0 \<and> \<not> missed s"])
  fix s :: "'a mq"
  assume I: "mq_linv s \<and> main_closes (mq_main s) \<and> mq_pending s = 0 \<and> \<not> missed s"
  then have linv: "mq_linv s" by simp
  note parts = mq_linv_parts [OF linv]
  have none: "worker_counted pc = 0" if "pc \<in> set (mq_workers s)" for pc
    using pending_zero(3) [OF parts(1)] that I by simp
  show "leads mq_move mq_offers s \<or> (\<exists>l s'. mq_move s l s' \<and> quiet l
      \<and> (mq_linv s' \<and> main_closes (mq_main s') \<and> mq_pending s' = 0 \<and> \<not> missed s') \<and> close_left s' < close_left s)"
  proof (cases "mq_main s = R_sleep")
    case True
    with I have "W_notify \<in> set (mq_workers s)" by (simp add: missed_def)
    then obtain w where at: "at_worker s w W_notify" by (auto simp: at_worker_def in_set_conv_nth)
    have step: "mq_worker_step w s W_notify = Some (s\<lparr>mq_main := R_lock2\<rparr>, W_lock)" using True by (simp add: notify_done_def)
    let ?s = "set_worker (s\<lparr>mq_main := R_lock2\<rparr>) w W_lock"
    note go = mq_worker_go [OF at step]
    have "close_left ?s < close_left s" by (rule close_left_main) (simp_all add: set_worker_def True)
    with go(1) mq_linv_move [OF linv go(1)] I show ?thesis
      by (intro disjI2 exI [of _ STau] exI [of _ ?s]) (simp add: set_worker_def missed_def)
  next
    case awake: False
    have crit: "main_critical (mq_main s) \<longleftrightarrow> mq_mu s = Some Main" using parts(2) by (simp add: lock_inv_alt)
    show ?thesis
  proof (cases "mq_main s \<noteq> R_join \<and> (mq_mu s = None \<or> mq_mu s = Some Main)")
    case True
    then have "\<exists>s1 m. mq_main_step s (mq_main s) = Some (s1, m) \<and> mclose_left m < mclose_left (mq_main s) \<and> main_closes m
        \<and> mq_pending s1 = 0 \<and> length (mq_workers s1) = length (mq_workers s) \<and> \<not> missed (s1\<lparr>mq_main := m\<rparr>)"
      using awake I crit by (cases "mq_main s") (auto simp: missed_def)
    then obtain s1 m where m: "mq_main_step s (mq_main s) = Some (s1, m)" "mclose_left m < mclose_left (mq_main s)" "main_closes m"
        "mq_pending s1 = 0" "length (mq_workers s1) = length (mq_workers s)" "\<not> missed (s1\<lparr>mq_main := m\<rparr>)" by blast
    have "close_left (s1\<lparr>mq_main := m\<rparr>) < close_left s" by (rule close_left_main) (use m in simp_all)
    with mq_main_go [OF m(1)] mq_linv_move [OF linv mq_main_go [OF m(1)]] m show ?thesis
      by (intro disjI2 exI [of _ STau] exI [of _ "s1\<lparr>mq_main := m\<rparr>"]) simp
  next
    case False
    show ?thesis
    proof (cases "mq_main s = R_join \<and> list_all (\<lambda>pc. pc = W_exit) (mq_workers s)")
      case True
      then have "mq_offers s" using mq_offers_intros(1) [OF mq_move.run_return] by blast
      then show ?thesis by (blast intro: leads_here)
    next
      case go: False
      have shut: "mq_main s \<noteq> R_block \<and> mq_main s \<noteq> R_sleep" using False awake crit by auto
      have holder: "\<exists>v. th = Worker v \<and> worker_counted (mq_workers s ! v) = 0" if "mq_mu s = Some th" for th
      proof (cases th)
        case Main
        with that parts(2) have "main_critical (mq_main s)" by (simp add: lock_inv_alt)
        then have "mq_main s \<noteq> R_join" by auto
        with False Main that show ?thesis by simp
      next
        case (Worker v)
        with holder_at [OF linv] that have "mq_workers s ! v \<in> set (mq_workers s)" by (auto simp: at_worker_def)
        with none Worker show ?thesis by blast
      qed
      have "\<exists>pc \<in> set (mq_workers s). awake pc"
      proof (cases "mq_main s = R_join")
        case True
        with go parts(3) show ?thesis by (auto simp: mq_wake_inv_def awake_def list_all_iff)
      next
        case other: False
        with False obtain v where "mq_mu s = Some (Worker v)" by (cases "mq_mu s"; cases "the (mq_mu s)") auto
        with holder_at [OF linv] have "mq_workers s ! v \<in> set (mq_workers s)" "worker_critical (mq_workers s ! v)"
          by (auto simp: at_worker_def)
        moreover from this(2) have "awake (mq_workers s ! v)" by (cases "mq_workers s ! v") (simp_all add: awake_def)
        ultimately show ?thesis by blast
      qed
      then obtain pc where pc: "pc \<in> set (mq_workers s)" "awake pc" by blast
      from awake_pick [OF linv pc(1) none [OF pc(1)] pc(2) holder] obtain w pc' where
        w: "at_worker s w pc'" "worker_counted pc' = 0" "pc' \<noteq> W_sleep" "pc' \<noteq> W_exit" "mq_mu s = None \<or> worker_critical pc'" by blast
      from leads_pick [OF w(1) linv w(2-5)] show ?thesis
      proof (elim disjE exE conjE)
        fix s'
        assume s': "mq_move s STau s'" "mq_linv s'" "workers_left s' < workers_left s" "length (mq_workers s') = length (mq_workers s)"
          "mq_pending s' = mq_pending s"
        assume "mq_main s' = mq_main s"
        then have "close_left s' < close_left s" using s' by (simp add: close_left_def)
        with s' I shut \<open>mq_main s' = mq_main s\<close> show ?thesis
          by (intro disjI2 exI [of _ STau] exI [of _ s']) (simp add: missed_def)
      next
        fix s'
        assume s': "mq_move s STau s'" "mq_linv s'" "workers_left s' < workers_left s" "length (mq_workers s') = length (mq_workers s)"
          "mq_pending s' = mq_pending s" and m: "mq_main s' = notify_done (mq_main s)"
        have same: "mq_main s' = mq_main s" using m awake by (cases "mq_main s") (simp_all add: notify_done_def)
        then have "close_left s' < close_left s" using s' by (simp add: close_left_def)
        with s' I shut same show ?thesis
          by (intro disjI2 exI [of _ STau] exI [of _ s']) (simp add: missed_def)
      qed simp
    qed
  qed
  qed
qed (use assms in blast)

text \<open>With a task pending: the holder of the mutex goes on, else a worker that is awake.\<close>

fun mblock_left :: "'t mmain \<Rightarrow> nat" where
  "mblock_left R_check = 2"
| "mblock_left R_block = 1"
| "mblock_left pc = 0"

lemma mblock_notify: "main_launched m \<Longrightarrow> mblock_left (notify_done m) = mblock_left m \<and> main_launched (notify_done m)"
  by (cases m) (simp_all add: notify_done_def)

definition pending_left :: "'t mq \<Rightarrow> nat" where
  "pending_left s = mblock_left (mq_main s) + workers_left s"

lemma idle_worker_goes:
  assumes linv: "mq_linv s" and launched: "main_launched (mq_main s)" and at: "at_worker s w pc" and "worker_counted pc = 0" "pc \<noteq> W_sleep" "pc \<noteq> W_exit"
    and "mq_mu s = None \<or> worker_critical pc"
  shows "leads mq_move mq_offers s \<or> (\<exists>s'. mq_move s STau s' \<and> mq_linv s' \<and> pending_left s' < pending_left s
    \<and> mq_n s' = mq_n s \<and> main_launched (mq_main s') \<and> mq_pending s' = mq_pending s)"
  using leads_pick [OF at linv assms(4-7)] mblock_notify [OF launched] launched
  by (auto simp: pending_left_def)

lemma worker_kinds:
  obtains (run) t where "pc = W_run t" | (submit) t p where "pc = W_submit t p" | (dec) "pc = W_dec"
  | (gone) "pc = W_sleep \<or> pc = W_exit" | (idle) "worker_counted pc = 0" "pc \<noteq> W_sleep" "pc \<noteq> W_exit"
  by (cases pc) auto

lemma mq_launched_leads:
  "mq_linv s \<Longrightarrow> main_closes (mq_main s) \<Longrightarrow> 0 < mq_n s \<Longrightarrow> \<not> missed s \<Longrightarrow> leads mq_move mq_offers s"
proof (induction "nat (mq_pending s)" arbitrary: s rule: less_induct)
  case less
  show ?case
  proof (cases "mq_pending s = 0")
    case True
    with less.prems show ?thesis by (intro mq_close_leads)
  next
    case some: False
    have launched: "main_launched (mq_main s)" if "mq_linv s" "main_closes (mq_main s)" "mq_pending s \<noteq> 0" for s :: "'a mq"
      using that mq_linv_parts(1) [OF that(1)] by (cases "mq_main s") (auto simp: mq_inv_def)
    show ?thesis
    proof (rule leads_measure [where m = pending_left and
          I = "\<lambda>s'. mq_linv s' \<and> main_launched (mq_main s') \<and> 0 < mq_n s' \<and> mq_pending s' = mq_pending s"])
      show "mq_linv s \<and> main_launched (mq_main s) \<and> 0 < mq_n s \<and> mq_pending s = mq_pending s"
        using less.prems launched some by blast
      fix s' :: "'a mq"
      assume I: "mq_linv s' \<and> main_launched (mq_main s') \<and> 0 < mq_n s' \<and> mq_pending s' = mq_pending s"
      then have linv: "mq_linv s'" and ml: "main_launched (mq_main s')" by auto
      note parts = mq_linv_parts [OF linv]
      let ?goal = "leads mq_move mq_offers s' \<or> (\<exists>l s2. mq_move s' l s2 \<and> quiet l
        \<and> (mq_linv s2 \<and> main_launched (mq_main s2) \<and> 0 < mq_n s2 \<and> mq_pending s2 = mq_pending s) \<and> pending_left s2 < pending_left s')"
      have goes: ?goal if "at_worker s' w pc" "worker_counted pc = 0" "pc \<noteq> W_sleep" "pc \<noteq> W_exit" "mq_mu s' = None \<or> worker_critical pc" for w pc
        using idle_worker_goes [OF linv ml that] I quiet.simps(1) by metis
      consider (main) "mq_mu s' = Some Main" | (worker) v where "mq_mu s' = Some (Worker v)" | (free) "mq_mu s' = None"
        by (cases "mq_mu s'") (use thread.exhaust in auto)
      then show ?goal
      proof cases
        case main
        then have "main_critical (mq_main s')" using parts(2) by (simp add: lock_inv_alt)
        then have "\<exists>s1 m. mq_main_step s' (mq_main s') = Some (s1, m) \<and> mblock_left m < mblock_left (mq_main s') \<and> main_launched m
            \<and> mq_pending s1 = mq_pending s' \<and> mq_workers s1 = mq_workers s' \<and> mq_n s1 = mq_n s'"
          using ml I some parts(1) by (cases "mq_main s'") (auto simp: mq_inv_def)
        then obtain s1 m where m: "mq_main_step s' (mq_main s') = Some (s1, m)" "mblock_left m < mblock_left (mq_main s')" "main_launched m"
            "mq_pending s1 = mq_pending s'" "mq_workers s1 = mq_workers s'" "mq_n s1 = mq_n s'" by blast
        have "pending_left (s1\<lparr>mq_main := m\<rparr>) < pending_left s'" using m by (simp add: pending_left_def workers_left_def)
        with mq_main_go [OF m(1)] mq_linv_move [OF linv mq_main_go [OF m(1)]] m I show ?thesis
          by (intro disjI2 exI [of _ STau] exI [of _ "s1\<lparr>mq_main := m\<rparr>"]) simp
      next
        case (worker v)
        note at = holder_at [OF linv worker]
        show ?thesis
        proof (cases "mq_workers s' ! v" rule: worker_kinds)
          case (submit t p)
          with mq_submit_leads [OF linv, of v t p] at worker show ?thesis by simp
        qed (use at goes [of v "mq_workers s' ! v"] in auto)
      next
        case free
        have at: "at_worker s' w (mq_workers s' ! w)" if "w < length (mq_workers s')" for w using that by (simp add: at_worker_def)
        have "\<exists>w < length (mq_workers s'). mq_workers s' ! w \<noteq> W_sleep"
        proof (rule ccontr)
          assume "\<not> ?thesis"
          then have sleep: "pc = W_sleep" if "pc \<in> set (mq_workers s')" for pc using that by (auto simp: in_set_conv_nth)
          have "sum_over worker_counted (mq_workers s') = 0" by (rule sum_over_zero) (use sleep in fastforce)
          moreover have "length (mq_workers s') = mq_n s'" using parts(3) ml unfolding mq_wake_inv_def by blast
          then have "mq_workers s' \<noteq> []" using I by auto
          then have "mq_queue s' = []" using parts(3) sleep unfolding mq_wake_inv_def awake_def by blast
          moreover have "main_counted (mq_main s') = 0" using ml by (cases "mq_main s'") simp_all
          ultimately show False using parts(1) I some by (simp add: mq_inv_def)
        qed
        then obtain w where w: "w < length (mq_workers s')" "mq_workers s' ! w \<noteq> W_sleep" by blast
        note here = at [OF w(1)]
        show ?thesis
        proof (cases "mq_workers s' ! w" rule: worker_kinds)
          case (run t)
          with mq_running_leads [of s' w t] here show ?thesis by simp
        next
          case (submit t p)
          with mq_submit_leads [OF linv, of w t p] here free show ?thesis by simp
        next
          case dec
          have "\<exists>s1 pc'. mq_worker_step w s' W_dec = Some (s1, pc') \<and> mq_pending s1 = mq_pending s' - 1 \<and> (mq_pending s1 = 0 \<longrightarrow> pc' = W_notify)"
            by (simp add: Let_def)
          then obtain s1 pc' where step: "mq_worker_step w s' (mq_workers s' ! w) = Some (s1, pc')" and p: "mq_pending s1 = mq_pending s' - 1"
            and last: "mq_pending s1 = 0 \<longrightarrow> pc' = W_notify"
            using dec by metis
          note go = mq_worker_go [OF here step]
          let ?s = "set_worker s1 w pc'"
          have linv': "mq_linv ?s" by (rule mq_linv_move [OF linv go(1)])
          have "0 \<le> mq_pending ?s"
            using mq_linv_parts(1) [OF linv'] sum_over_nonneg [of worker_counted "mq_workers ?s"] counted_nonneg(3) [of "mq_main ?s"]
            by (simp add: mq_inv_def)
          then have "nat (mq_pending ?s) < nat (mq_pending s)" using p I by (simp add: set_worker_def)
          moreover have "main_closes (mq_main ?s)" using go(4) mq_worker_frame [OF step] ml by (simp add: main_closes_iff)
          moreover have "\<not> missed ?s"
          proof
            assume missed: "missed ?s"
            then have "pc' = W_notify" using last by (simp add: missed_def set_worker_def)
            moreover have "pc' \<in> set (mq_workers ?s)" using go(2) nth_mem by (fastforce simp: at_worker_def)
            ultimately show False using missed by (simp add: missed_def)
          qed
          ultimately have "leads mq_move mq_offers ?s" using less.hyps linv' go(5) I by simp
          with go(1) have "leads mq_move mq_offers s'" by (rule leads_tau)
          then show ?thesis ..
        next
          case gone
          then have "W_exit \<in> set (mq_workers s')" using w nth_mem by metis
          with parts(3) ml show ?thesis by (auto simp: mq_wake_inv_def)
        next
          case idle
          with goes [OF here] free show ?thesis by blast
        qed
      qed
    qed
  qed
qed

fun mlaunch_left :: "nat \<Rightarrow> nat \<Rightarrow> 't mmain \<Rightarrow> nat" where
  "mlaunch_left n workers R_lock = 3 + n"
| "mlaunch_left n workers R_reset = 2 + n"
| "mlaunch_left n workers R_spawn = 1 + (n - workers)"
| "mlaunch_left n workers pc = 0"

lemma mq_run_main_leads:
  assumes "mq_linv s" and "\<not> main_outside (mq_main s)" and "0 < mq_n s" and "\<not> missed s"
  shows "leads mq_move mq_offers s"
proof (rule leads_measure [where m = "\<lambda>s. mlaunch_left (mq_n s) (length (mq_workers s)) (mq_main s)" and
      I = "\<lambda>s. mq_linv s \<and> \<not> main_outside (mq_main s) \<and> 0 < mq_n s \<and> \<not> missed s"])
  fix s :: "'a mq"
  assume I: "mq_linv s \<and> \<not> main_outside (mq_main s) \<and> 0 < mq_n s \<and> \<not> missed s"
  then have linv: "mq_linv s" by simp
  note parts = mq_linv_parts [OF linv]
  show "leads mq_move mq_offers s \<or> (\<exists>l s'. mq_move s l s' \<and> quiet l \<and> (mq_linv s' \<and> \<not> main_outside (mq_main s') \<and> 0 < mq_n s' \<and> \<not> missed s')
      \<and> mlaunch_left (mq_n s') (length (mq_workers s')) (mq_main s') < mlaunch_left (mq_n s) (length (mq_workers s)) (mq_main s))"
  proof (cases "main_closes (mq_main s)")
    case True
    with I mq_launched_leads show ?thesis by blast
  next
    case False
    have "mq_mu s = None" if "mq_main s = R_lock"
    proof (cases "mq_mu s")
      case (Some th)
      then have "critical s th" using parts(2) by (simp add: mq_lock_inv_def)
      moreover have "mq_workers s = []" using parts(1) that by (simp add: mq_inv_def)
      ultimately show ?thesis using that by (cases th) auto
    qed simp
    then have "\<exists>s1 m. mq_main_step s (mq_main s) = Some (s1, m) \<and> \<not> main_outside m \<and> mq_n s1 = mq_n s \<and> \<not> missed (s1\<lparr>mq_main := m\<rparr>)
        \<and> mlaunch_left (mq_n s1) (length (mq_workers s1)) m < mlaunch_left (mq_n s) (length (mq_workers s)) (mq_main s)"
      using I False by (cases "mq_main s") (auto simp: missed_def)
    then obtain s1 m where m: "mq_main_step s (mq_main s) = Some (s1, m)" "\<not> main_outside m" "mq_n s1 = mq_n s" "\<not> missed (s1\<lparr>mq_main := m\<rparr>)"
      "mlaunch_left (mq_n s1) (length (mq_workers s1)) m < mlaunch_left (mq_n s) (length (mq_workers s)) (mq_main s)" by blast
    with mq_main_go [OF m(1)] mq_linv_move [OF linv mq_main_go [OF m(1)]] I show ?thesis
      by (intro disjI2 exI [of _ STau] exI [of _ "s1\<lparr>mq_main := m\<rparr>"]) simp
  qed
qed (use assms in blast)

section \<open>Outside run\<close>

lemma mq_outside_leads:
  assumes "mq_linv s" and "main_outside (mq_main s)"
  shows "leads mq_move (ready mq_move) s"
proof (rule leads_measure [where m = "\<lambda>s. case mq_main s of M_submit p \<Rightarrow> msub_left p | _ \<Rightarrow> 0" and
      I = "\<lambda>s. mq_linv s \<and> main_outside (mq_main s)"])
  fix s :: "'a mq"
  assume I: "mq_linv s \<and> main_outside (mq_main s)"
  then have linv: "mq_linv s" by simp
  note parts = mq_linv_parts [OF linv]
  have idle: "leads mq_move (ready mq_move) s" if "mq_main s = M_idle" for s :: "'a mq"
    using that by (intro leads_here) (auto simp: ready_def intro: mq_move.main_call mq_move.run_call)
  show "leads mq_move (ready mq_move) s \<or> (\<exists>l s'. mq_move s l s' \<and> quiet l \<and> (mq_linv s' \<and> main_outside (mq_main s'))
      \<and> (case mq_main s' of M_submit p \<Rightarrow> msub_left p | _ \<Rightarrow> 0) < (case mq_main s of M_submit p \<Rightarrow> msub_left p | _ \<Rightarrow> 0))"
  proof (cases "mq_main s")
    case M_idle
    with idle show ?thesis by blast
  next
    case (M_submit p)
    show ?thesis
    proof (cases "p = Sub_notify")
      case True
      obtain ws where "notify_one (mq_workers s) ws" using notify_one_ex by blast
      with M_submit True have "mq_move s (SRet Main) (s\<lparr>mq_main := M_idle, mq_workers := ws\<rparr>)"
        by (intro mq_move.main_return) simp_all
      then have "leads mq_move (ready mq_move) s" by (rule leads_ret) (simp add: idle)
      then show ?thesis ..
    next
      case False
      have crit: "critical s th \<longleftrightarrow> mq_mu s = Some th" for th using parts(2) unfolding mq_lock_inv_def by blast
      have "mq_workers s = []" using parts(1) M_submit by (simp add: mq_inv_def)
      then have "mq_mu s \<noteq> Some (Worker v)" for v using crit [of "Worker v"] by simp
      then have mu: "mq_mu s = None \<or> mq_mu s = Some Main" by (cases "mq_mu s") (use thread.exhaust in auto)
      have "mq_mu s = Some Main \<longleftrightarrow> sub_critical p" using crit [of Main] M_submit by simp
      with msub_step [OF False mu] obtain s1 p' where p': "mq_submit_step Main s p = Some (s1, p')" "msub_left p' < msub_left p" by blast
      then have step: "mq_main_step s (mq_main s) = Some (s1, M_submit p')" by (simp add: M_submit)
      with mq_main_go [OF step] mq_linv_move [OF linv mq_main_go [OF step]] p'(2) M_submit show ?thesis
        by (intro disjI2 exI [of _ STau] exI [of _ "s1\<lparr>mq_main := M_submit p'\<rparr>"]) simp
    qed
  qed (use I in auto)
qed (use assms in blast)

section \<open>Lost states\<close>

lemma missed_stays:
  assumes linv: "mq_linv s" and missed: "missed s" and step: "mq_move s l s'"
  shows "l = STau \<and> missed s'"
proof -
  have pending: "mq_pending s = 0" and main: "mq_main s = R_block \<or> mq_main s = R_sleep"
    using missed by (auto simp: missed_def)
  note zero = pending_zero [OF mq_linv_parts(1) [OF linv] pending]
  have none: "worker_counted pc = 0 \<and> pc \<noteq> W_notify" if "at_worker s w pc" for w pc
  proof -
    have "pc \<in> set (mq_workers s)" using that by (auto simp: at_worker_def)
    with zero(3) missed show ?thesis by (auto simp: missed_def)
  qed
  show ?thesis
    using step
  proof cases
    case (main s1 pc)
    with missed show ?thesis by (auto simp: missed_def)
  next
    case (worker w pc s1 pc')
    have idle: "worker_counted pc = 0" "pc \<noteq> W_notify" using none [OF worker(3)] by auto
    have frame: "mq_workers s1 = mq_workers s" "mq_main s1 = mq_main s" using mq_worker_frame [OF worker(4)] idle(2) by auto
    have "mq_pending s1 = mq_pending s \<and> pc' \<noteq> W_notify"
    proof (cases pc)
      case (W_submit t p)
      with idle(1) counted_nonneg(1) [of p] show ?thesis by (simp del: counted_nonneg)
    qed (use worker(4) idle in \<open>auto split: if_splits\<close>)
    then have "mq_pending (set_worker s1 w pc') = 0" "W_notify \<notin> set (mq_workers (set_worker s1 w pc'))"
      using missed frame set_update_subset_insert [of "mq_workers s" w pc'] by (auto simp: missed_def set_worker_def)
    with worker(1,2) main frame show ?thesis by (auto simp: missed_def set_worker_def)
  qed (use main zero(1) none in \<open>force simp: at_worker_def\<close>)+
qed

lemma missed_inside:
  assumes linv: "mq_linv s" and step: "mq_move s l s'" and "l \<noteq> STau"
  shows "\<not> missed s'"
proof
  assume missed: "missed s'"
  have inv: "mq_inv s'" using mq_linv_move [OF linv step] by (rule mq_linv_parts)
  have none: "worker_counted pc = 0" if "pc \<in> set (mq_workers s')" for pc
    using pending_zero(3) [OF inv _ that] missed by (simp add: missed_def)
  have at: "worker_counted pc = 0" if "at_worker s w old" "s' = set_worker s1 w pc" "length (mq_workers s1) = length (mq_workers s)" for s1 w old pc
    using none [of pc] that by (auto simp: at_worker_def set_worker_def set_update_memI)
  show False
    using step assms(3) missed
  proof cases
    case (task_call w t u)
    from at [OF task_call(3,2)] counted_nonneg(1) [of "Sub_lock u"] show False by simp
  next
    case (task_return w t ws)
    from at [OF task_return(3,2)] notify_one_views(4) [OF task_return(4)] show False by simp
  next
    case (task_finish w t)
    from at [OF task_finish(3,2)] show False by simp
  next
    case (take w t q)
    from at [OF take(3,2)] show False by simp
  qed (auto simp: missed_def)
qed

interpretation mqk: live_scheduler mq_init mq_move mq_linv mq_view "\<lambda>_. True" missed
proof unfold_locales
  show "mq_linv mq_init" by (rule mq_linv_init)
  show "mq_view mq_init = spec_init" by (rule mq.init_ok)
  show "mq_linv s'" if "mq_linv s" "mq_move s l s'" for s :: "'a mq" and l s' using that by (rule mq_linv_move)
  show "sched_spec (mq_view s) l (mq_view s')" if "mq_linv s" "mq_move s l s'" for s :: "'a mq" and l s'
    using mq_step_good [OF mq_linv_parts(1) [OF that(1)] mq_step.move [OF that(2)]] by (simp add: mq_good_def)
  show "leads mq_move (offers mq_move) s" if "mq_linv s" "\<not> missed s" "sp_phase (mq_view s) = Some n" "0 < n" for s :: "'a mq" and n
    using mq_run_main_leads [of s] that by (auto simp: mq_offers_def mq_view_def split: if_splits)
  show "leads mq_move (ready mq_move) s" if "mq_linv s" "sp_phase (mq_view s) = None" for s :: "'a mq"
    using mq_outside_leads [of s] that by (auto simp: mq_view_def split: if_splits)
qed (simp, rule missed_stays, assumption+, rule missed_inside, assumption+)

section \<open>With spurious wake-ups\<close>

text \<open>A spurious wake-up of \<^verbatim>\<open>done_cv_\<close> lets \<open>run\<close> go on where it has missed the notification.\<close>

lemma mq_code_leads: "leads mq_move (offers mq_move) s \<Longrightarrow> leads mq_step (offers mq_step) s"
  by (erule leads_sub) (auto intro: mq_step.move elim!: offers_sub)

lemma mq_sleep_leads:
  assumes "mq_linv s" and "mq_main s = R_sleep" and "0 < mq_n s"
  shows "leads mq_step (offers mq_step) s"
proof -
  let ?s = "s\<lparr>mq_main := R_lock2\<rparr>"
  have step: "mq_step s STau ?s" using assms(2) by (intro mq_step.spurious spurious_wake.wake_main)
  have "leads mq_move mq_offers ?s"
    by (rule mq_run_main_leads [OF mq_linv_step [OF assms(1) step]]) (use assms(3) in \<open>simp_all add: missed_def\<close>)
  then have "leads mq_step (offers mq_step) ?s" unfolding mq_offers_def by (rule mq_code_leads)
  with step show ?thesis by (rule leads_tau)
qed

lemma mq_spurious_leads:
  assumes "mq_linv s" and "\<not> main_outside (mq_main s)" and "0 < mq_n s"
  shows "leads mq_step (offers mq_step) s"
proof (cases "missed s")
  case False
  with mq_run_main_leads [OF assms] show ?thesis unfolding mq_offers_def by (intro mq_code_leads)
next
  case True
  then consider (sleep) "mq_main s = R_sleep" | (block) "mq_main s = R_block" by (auto simp: missed_def)
  then show ?thesis
  proof cases
    case sleep
    with assms show ?thesis by (intro mq_sleep_leads)
  next
    case block
    let ?s = "s\<lparr>mq_mu := None, mq_main := R_sleep\<rparr>"
    have "mq_main_step s (mq_main s) = Some (s\<lparr>mq_mu := None\<rparr>, R_sleep)" using block by simp
    from mq_step.move [OF mq_main_go [OF this]] have step: "mq_step s STau ?s" by simp
    have "leads mq_step (offers mq_step) ?s" by (rule mq_sleep_leads [OF mq_linv_step [OF assms(1) step]]) (use assms(3) in simp_all)
    with step show ?thesis by (rule leads_tau [where step = mq_step])
  qed
qed

interpretation mql: live_scheduler mq_init mq_step mq_linv mq_view "\<lambda>_. True" "\<lambda>_. False"
proof unfold_locales
  show "mq_linv mq_init" by (rule mq_linv_init)
  show "mq_view mq_init = spec_init" by (rule mq.init_ok)
  show "mq_linv s'" if "mq_linv s" "mq_step s l s'" for s :: "'a mq" and l s' using that by (rule mq_linv_step)
  show "sched_spec (mq_view s) l (mq_view s')" if "mq_linv s" "mq_step s l s'" for s :: "'a mq" and l s'
    using mq_step_good [OF mq_linv_parts(1) [OF that(1)] that(2)] by (simp add: mq_good_def)
  show "leads mq_step (offers mq_step) s" if "mq_linv s" "sp_phase (mq_view s) = Some n" "0 < n" for s :: "'a mq" and n
    using mq_spurious_leads [of s] that by (auto simp: mq_view_def split: if_splits)
  show "leads mq_step (ready mq_step) s" if "mq_linv s" "sp_phase (mq_view s) = None" for s :: "'a mq"
    using mqk.idle_leads [OF that] by (rule leads_sub) (auto intro: mq_step.move elim!: ready_sub)
qed simp_all

section \<open>Who is inside submit\<close>

fun mworker_submits :: "'t mworker \<Rightarrow> bool" where
  "mworker_submits (W_submit t p) = True"
| "mworker_submits pc = False"

fun mmain_submits :: "'t mmain \<Rightarrow> bool" where
  "mmain_submits (M_submit p) = True"
| "mmain_submits pc = False"

definition mq_calls :: "'t mq \<Rightarrow> thread \<Rightarrow> bool" where
  "mq_calls s = calls_of (mmain_submits (mq_main s)) mworker_submits (mq_workers s)"

lemma mq_worker_submits:
  assumes "mq_worker_step w s pc = Some (s', pc')"
  shows "mworker_submits pc' = mworker_submits pc \<and> mmain_submits (mq_main s') = mmain_submits (mq_main s)
    \<and> mq_workers s' = mq_workers s"
proof (cases pc)
  case (W_submit t p)
  with assms obtain p' where p: "mq_submit_step (Worker w) s p = Some (s', p')" "pc' = W_submit t p'" by (auto split: option.splits)
  then show ?thesis using W_submit by (cases p) (auto split: if_splits)
next
  case W_notify
  with assms show ?thesis by (cases "mq_main s") (auto simp: notify_done_def)
qed (use assms in \<open>auto simp: Let_def split: if_splits\<close>)

lemma mq_calls_ok:
  assumes inv: "mq_linv s" and step: "mq_step s l s'"
  shows "calls_step (mq_calls s) l (mq_calls s')"
  using step
proof cases
  case move
  then show ?thesis
  proof cases
    case (main_return ws)
    have "map mworker_submits ws = map mworker_submits (mq_workers s)" by (rule notify_one_map [OF main_return(4)]) simp
    from calls_of_cong [OF this] have "calls_of False mworker_submits ws = (calls_of True mworker_submits (mq_workers s))(Main := False)"
      using calls_of_main by metis
    with main_return(1-3) show ?thesis by (simp add: calls_step_def mq_calls_def)
  next
    case (main s1 pc)
    show ?thesis
    proof (cases "mq_main s")
      case (M_submit p)
      with main obtain p' where p: "mq_submit_step Main s p = Some (s1, p')" "pc = M_submit p'" by (auto split: option.splits)
      then have "mq_workers s1 = mq_workers s" by (cases p) (auto split: if_splits)
      with main p M_submit show ?thesis by (simp add: calls_step_def mq_calls_def)
    next
      case R_notify
      have "map mworker_submits (notify_all (mq_workers s)) = map mworker_submits (mq_workers s)" by (rule notify_all_map) simp
      from calls_of_cong [OF this] main R_notify show ?thesis by (auto simp: calls_step_def mq_calls_def)
    qed (use main in \<open>auto simp: calls_step_def mq_calls_def calls_of_snoc split: if_splits\<close>)
  next
    case (worker w pc s1 pc')
    have "w < length (mq_workers s)" "mq_workers s ! w = pc" using worker(3) by (auto simp: at_worker_def)
    with worker(1,2) mq_worker_submits [OF worker(4)] show ?thesis
      by (simp add: calls_step_def mq_calls_def set_worker_def calls_of_same)
  next
    case (task_return w t ws)
    have same: "map mworker_submits ws = map mworker_submits (mq_workers s)" by (rule notify_one_map [OF task_return(4)]) simp
    have "length ws = length (mq_workers s)" using same by (rule map_eq_imp_length_eq)
    moreover have "calls_of b mworker_submits ws = calls_of b mworker_submits (mq_workers s)" for b
      using same by (rule calls_of_cong)
    ultimately show ?thesis using task_return(1-3)
      by (auto simp: calls_step_def mq_calls_def set_worker_def at_worker_def calls_of_update)
  next
    case run_return
    have "calls_of b mworker_submits (mq_workers s) = (\<lambda>th. th = Main \<and> b)" for b
      by (rule calls_of_none) (use run_return in \<open>auto simp: list_all_iff\<close>)
    with run_return show ?thesis by (simp add: calls_step_def mq_calls_def calls_of_Nil)
  next
    case main_call
    then show ?thesis using calls_of_main [of True mworker_submits "mq_workers s" False] by (simp add: calls_step_def mq_calls_def)
  qed (auto simp: calls_step_def mq_calls_def set_worker_def at_worker_def calls_of_update calls_of_same)
next
  case spurious
  from spurious(2) show ?thesis
    by cases (use spurious(1) in \<open>auto simp: calls_step_def mq_calls_def set_worker_def at_worker_def calls_of_same\<close>)
qed

interpretation mqc: calling_scheduler mq_init mq_step mq_linv mq_view "\<lambda>_. True" "\<lambda>_. False" mq_calls
proof unfold_locales
  show "\<not> mq_calls mq_init th" for th by (cases th) (simp_all add: mq_calls_def mq_init_def)
qed (rule mq_calls_ok)

end
