(* ===== verification/Lockfree_Progress.thy ===== *)
theory Lockfree_Progress
  imports Lockfree_Queue Ring_Books Progress
begin

text \<open>
  The lock-free scheduler can always go on (\<open>live_scheduler\<close>) as long as no more tasks wait at a
  time than the ring has slots: a producer then waits only for a consumer, who comes out of
  \<open>dequeue\<close> with a task; an idle worker finds the oldest published task; and when nothing is
  pending the workers leave. On a full ring it is otherwise: the last section proves that tasks
  that submit can bring all workers to wait for a slot that none of them will free.
\<close>

section \<open>Further invariants\<close>

text \<open>
  All workers are launched when \<open>run\<close> waits; \<^verbatim>\<open>shutdown_\<close> is set only when \<open>run\<close> joins them or
  has returned; a worker that has left its loop saw the flag; a claimed slot had a task.
\<close>

fun lmain_launched :: "'t lmain \<Rightarrow> bool" where
  "lmain_launched N_wait = True"
| "lmain_launched N_shut = True"
| "lmain_launched N_join = True"
| "lmain_launched pc = False"

fun lworker_empty :: "'t lworker \<Rightarrow> bool" where
  "lworker_empty (L_deq (C_release p None)) = True"
| "lworker_empty pc = False"

definition lf_phase :: "'t lf \<Rightarrow> bool" where
  "lf_phase s \<longleftrightarrow> (lmain_launched (lf_main s) \<longrightarrow> length (lf_workers s) = lf_n s)
     \<and> (lf_shutdown s \<longrightarrow> lmain_outside (lf_main s) \<or> lf_main s = N_clear \<or> lf_main s = N_join)
     \<and> (lf_main s = N_join \<longrightarrow> lf_shutdown s)
     \<and> (L_exit \<in> set (lf_workers s) \<longrightarrow> lf_main s = N_join)
     \<and> (\<forall>pc \<in> set (lf_workers s). \<not> lworker_empty pc)"

definition lf_linv :: "nat \<Rightarrow> 't lf \<Rightarrow> bool" where
  "lf_linv k s \<longleftrightarrow> lf_inv s \<and> lf_phase s \<and> rg_k (lf_ring s) = k
     \<and> ring_books (lf_ring s) (lf_flight s) \<and> ring_drift (lf_ring s) = fl_weight (lf_flight s)"

lemma lf_submit_books:
  assumes "ring_inv (lf_ring s) (lsub_stage p + fl)" and "ring_books (lf_ring s) (lsub_stage p + fl)"
    and "lf_submit_step s p = Some (s', p')"
  shows "ring_books (lf_ring s') (lsub_stage p' + fl)
    \<and> ring_drift (lf_ring s') - fl_weight (lsub_stage p') = ring_drift (lf_ring s) - fl_weight (lsub_stage p)"
proof (cases p)
  case (L_enq e)
  obtain r e' where e: "enq_step (lf_ring s) e = (r, e')" by fastforce
  with assms(3) L_enq have "s' = s\<lparr>lf_ring := r\<rparr>" "p' = L_enq e'" by (cases e; simp)+
  with assms(1,2) L_enq enq_step_books [OF _ _ e, of fl] enq_step_drift [OF _ e, of fl] show ?thesis by simp
qed (use assms in auto)

lemma lf_worker_books:
  assumes "ring_inv (lf_ring s) (lworker_stage pc + fl)" and "ring_books (lf_ring s) (lworker_stage pc + fl)"
    and step: "lf_worker_step b s pc = Some (s', pc')"
  shows "ring_books (lf_ring s') (lworker_stage pc' + fl)
    \<and> ring_drift (lf_ring s') - fl_weight (lworker_stage pc') = ring_drift (lf_ring s) - fl_weight (lworker_stage pc)
    \<and> \<not> lworker_empty pc'"
proof (cases pc)
  case (L_deq c)
  show ?thesis
  proof (cases "\<exists>v. c = C_done v")
    case True
    then obtain v where "c = C_done v" by blast
    with assms L_deq show ?thesis by (cases v) auto
  next
    case False
    obtain r c' where c: "deq_step b (lf_ring s) c = (r, c')" by fastforce
    have "s' = s\<lparr>lf_ring := r\<rparr>" "pc' = L_deq c'"
      using step unfolding L_deq lf_worker_deq [OF False] c by simp_all
    moreover have "\<not> lworker_empty (L_deq c')"
      using deq_step_ok(5) [OF _ c, of fl] assms(1) L_deq
      by (cases c' rule: deq.exhaust) (auto elim: lworker_empty.elims)
    ultimately show ?thesis
      using assms(1,2) L_deq deq_step_books [OF _ _ c, of fl] deq_step_drift [OF _ c, of fl] by simp
  qed
next
  case (L_submit t p)
  with step obtain p' where "lf_submit_step s p = Some (s', p')" "pc' = L_submit t p'"
    by (auto split: option.splits)
  with lf_submit_books [of s p fl] assms L_submit show ?thesis by simp
next
  case L_check
  with assms show ?thesis by (cases "lf_shutdown s") auto
qed (use assms in auto)

lemma lf_worker_exit:
  assumes step: "lf_worker_step b s pc = Some (s', L_exit)"
  shows "pc = L_check \<and> lf_shutdown s"
proof (cases pc)
  case (L_deq c)
  show ?thesis
  proof (cases "\<exists>v. c = C_done v")
    case True
    then obtain v where "c = C_done v" by blast
    with step L_deq show ?thesis by (cases v) auto
  next
    case False
    show ?thesis using step unfolding L_deq lf_worker_deq [OF False] by simp
  qed
qed (use step in \<open>auto split: option.splits if_splits\<close>)

lemma lf_worker_frame:
  assumes step: "lf_worker_step b s pc = Some (s', pc')"
  shows "lf_workers s' = lf_workers s \<and> lf_main s' = lf_main s \<and> lf_n s' = lf_n s \<and> lf_shutdown s' = lf_shutdown s
    \<and> rg_k (lf_ring s') = rg_k (lf_ring s)"
proof (cases pc)
  case (L_deq c)
  show ?thesis
  proof (cases "\<exists>v. c = C_done v")
    case True
    then obtain v where "c = C_done v" by blast
    with step L_deq show ?thesis by (cases v) auto
  next
    case False
    show ?thesis using step unfolding L_deq lf_worker_deq [OF False] by (auto simp: deq_step_head)
  qed
next
  case (L_submit t p)
  with step obtain p' where p: "lf_submit_step s p = Some (s', p')" by (auto split: option.splits)
  from lf_submit_step_ok(1-4) [OF p] lf_submit_step_head [OF p] show ?thesis by simp
qed (use step in auto)

lemma lf_set_fields [simp]:
  "lf_main (lf_set s w pc) = lf_main s" "lf_n (lf_set s w pc) = lf_n s" "lf_pending (lf_set s w pc) = lf_pending s"
  "lf_ring (lf_set s w pc) = lf_ring s" "lf_shutdown (lf_set s w pc) = lf_shutdown s"
  "length (lf_workers (lf_set s w pc)) = length (lf_workers s)"
  by (simp_all add: lf_set_def)

lemma lf_set_member: "pc' \<in> set (lf_workers (lf_set s w pc)) \<Longrightarrow> pc' = pc \<or> pc' \<in> set (lf_workers s)"
  by (auto simp: lf_set_def dest!: set_update_subset_insert [THEN subsetD])

lemma lf_set_phase:
  assumes "lf_phase s" and "\<not> lworker_empty pc" and "pc = L_exit \<Longrightarrow> lf_main s = N_join"
  shows "lf_phase (lf_set s w pc)"
proof -
  have "L_exit \<in> set (lf_workers (lf_set s w pc)) \<longrightarrow> lf_main s = N_join"
    using assms(1,3) lf_set_member [of L_exit s w pc] by (auto simp: lf_phase_def)
  moreover have "\<not> lworker_empty pc'" if "pc' \<in> set (lf_workers (lf_set s w pc))" for pc'
    using assms(1,2) lf_set_member [OF that] by (auto simp: lf_phase_def)
  ultimately show ?thesis using assms(1) by (simp add: lf_phase_def)
qed

text \<open>The other threads' stages around one worker's.\<close>

lemma lf_flight_at:
  assumes "lf_at s w pc" and "lf_workers s' = lf_workers s" and "lf_main s' = lf_main s"
  shows "\<exists>fl. lf_flight s = lworker_stage pc + fl \<and> (\<forall>pc'. lf_flight (lf_set s' w pc') = lworker_stage pc' + fl)"
proof -
  have len: "w < length (lf_workers s)" "lf_workers s ! w = pc" using assms(1) by (auto simp: lf_at_def)
  obtain rest where "sum_over lworker_stage (lf_workers s) = lworker_stage pc + rest"
      "\<forall>p. sum_over lworker_stage ((lf_workers s)[w := p]) = lworker_stage p + rest"
    using sum_over_split [OF len(1), of lworker_stage] len(2) by auto
  then show ?thesis
    using assms(2,3) by (intro exI [of _ "rest + lmain_stage (lf_main s)"]) (simp add: lf_flight_def lf_set_def ac_simps)
qed

lemma lf_linv_parts:
  assumes "lf_linv k s"
  shows "lf_inv s" "lf_phase s" "ring_inv (lf_ring s) (lf_flight s)" "ring_books (lf_ring s) (lf_flight s)"
    "ring_drift (lf_ring s) = fl_weight (lf_flight s)" "ring_wf (lf_ring s)" "ring_size (lf_ring s) = 2 ^ k"
  using assms by (auto simp: lf_linv_def lf_inv_def ring_inv_def ring_size_def)

lemma lf_worker_linv:
  assumes linv: "lf_linv k s" and at: "lf_at s w pc" and step: "lf_worker_step b s pc = Some (s', pc')"
  shows "lf_phase (lf_set s' w pc') \<and> rg_k (lf_ring s') = k
    \<and> ring_books (lf_ring s') (lf_flight (lf_set s' w pc')) \<and> ring_drift (lf_ring s') = fl_weight (lf_flight (lf_set s' w pc'))"
proof -
  note parts = lf_linv_parts [OF linv]
  note frame = lf_worker_frame [OF step]
  obtain fl where fl: "lf_flight s = lworker_stage pc + fl" "lf_flight (lf_set s' w pc') = lworker_stage pc' + fl"
    using lf_flight_at [OF at, of s'] frame by blast
  note books = lf_worker_books [OF _ _ step, of fl]
  have leave: "lf_main s = N_join" if "pc' = L_exit"
  proof -
    have "pc = L_check \<and> lf_shutdown s" using lf_worker_exit step that by blast
    moreover have "lf_workers s \<noteq> []" using at by (auto simp: lf_at_def)
    ultimately show ?thesis using parts(1,2) by (auto simp: lf_phase_def lf_inv_def)
  qed
  have "lf_phase (lf_set s' w pc')"
  proof (rule lf_set_phase)
    show "lf_phase s'" using parts(2) frame by (simp add: lf_phase_def)
    show "\<not> lworker_empty pc'" using books parts(3,4) fl(1) by simp
    show "lf_main s' = N_join" if "pc' = L_exit" using leave [OF that] frame by simp
  qed
  with books parts fl frame linv show ?thesis by (simp add: lf_linv_def)
qed

lemma lf_relabel:
  assumes linv: "lf_linv k s" and at: "lf_at s w old" and "lworker_stage new = lworker_stage old" and "\<not> lworker_empty new" "new \<noteq> L_exit"
  shows "lf_phase (lf_set s w new) \<and> ring_books (lf_ring s) (lf_flight (lf_set s w new))
    \<and> ring_drift (lf_ring s) = fl_weight (lf_flight (lf_set s w new))"
proof -
  have "lf_flight (lf_set s w new) = lf_flight s" using lf_flight_at [OF at refl refl] assms(3) by metis
  moreover have "lf_phase (lf_set s w new)"
    by (rule lf_set_phase) (use lf_linv_parts(2) [OF linv] assms(4,5) in auto)
  ultimately show ?thesis using lf_linv_parts(4,5) [OF linv] by simp
qed

lemma lf_step_inv: "lf_inv s \<Longrightarrow> lf_step s l s' \<Longrightarrow> lf_inv s'"
  using lf_step_good by (auto simp: lf_good_def)

lemma lf_linv_step:
  assumes linv: "lf_linv k s" and step: "lf_step s l s'"
  shows "lf_linv k s'"
proof -
  note parts = lf_linv_parts [OF linv]
  have inv': "lf_inv s'" by (rule lf_step_inv [OF parts(1) step])
  have k': "rg_k (lf_ring s') = k" using lf_step_head [OF step] linv by (simp add: lf_linv_def)
  have "lf_phase s' \<and> ring_books (lf_ring s') (lf_flight s') \<and> ring_drift (lf_ring s') = fl_weight (lf_flight s')"
    using step
  proof cases
    case (main s1 pc)
    show ?thesis
    proof (cases "lf_main s")
      case (N_submit p)
      with main obtain p' where p': "lf_submit_step s p = Some (s1, p')" "pc = N_submit p'"
        by (auto split: option.splits)
      have "lf_flight s = lsub_stage p + sum_over lworker_stage (lf_workers s)" by (simp add: lf_flight_def N_submit)
      with lf_submit_books [OF _ _ p'(1), of "sum_over lworker_stage (lf_workers s)"] parts
        lf_submit_step_ok(1-4) [OF p'(1)] N_submit main(2) p'(2)
      show ?thesis by (simp add: lf_flight_def lf_phase_def)
    next
      case N_spawn
      moreover have "length (lf_workers s) \<le> lf_n s" using parts(1) N_spawn by (simp add: lf_inv_def)
      ultimately show ?thesis using main(2,3) parts(2,4,5)
        by (cases "length (lf_workers s) < lf_n s") (auto simp: lf_flight_def lf_phase_def)
    next
      case N_wait
      with main parts(2,4,5) show ?thesis by (cases "0 < lf_pending s") (simp_all add: lf_flight_def lf_phase_def)
    qed (use main(2,3) parts(2,4,5) in \<open>auto simp: lf_flight_def lf_phase_def\<close>)
  next
    case (worker w pc b s1 pc')
    with lf_worker_linv [OF linv worker(3,4)] show ?thesis by simp
  next
    case (take w t)
    with lf_relabel [OF linv take(3), of "L_run t"] show ?thesis by simp
  next
    case (task_call w t u)
    with lf_relabel [OF linv task_call(3), of "L_submit t (L_add u)"] show ?thesis by simp
  next
    case (task_return w t)
    with lf_relabel [OF linv task_return(3), of "L_run t"] show ?thesis by simp
  next
    case (task_finish w t)
    with lf_relabel [OF linv task_finish(3), of L_dec] show ?thesis by simp
  next
    case run_return
    have "sum_over lworker_stage (lf_workers s) = {#}"
      using run_return(4) by (intro sum_over_zero) (auto simp: list_all_iff)
    with run_return parts show ?thesis by (auto simp: lf_flight_def lf_phase_def)
  qed (use parts in \<open>auto simp: lf_flight_def lf_phase_def\<close>)
  with inv' k' show ?thesis by (simp add: lf_linv_def)
qed

lemma lf_linv_init: "1 \<le> k \<Longrightarrow> lf_linv k (lf_init k)"
  using lf_inv_init [of k] ring_books_new [of k]
  by (simp add: lf_linv_def lf_phase_def lf_init_def lf_flight_def ring_drift_def) (simp add: ring_new_def)

section \<open>Room in the ring\<close>

definition lf_live :: "nat \<Rightarrow> 't lf \<Rightarrow> bool" where
  "lf_live k s \<longleftrightarrow> lf_linv k s \<and> size (sp_queued (lf_view s)) \<le> 2 ^ k"

lemma lf_live_step:
  assumes "lf_live k s" and "lf_step s l s'" and "quiet l"
  shows "lf_live k s'"
proof -
  have "sched_spec (lf_view s) l (lf_view s')"
    using lf_step_good [OF _ assms(2)] assms(1) by (auto simp: lf_live_def lf_linv_def lf_good_def)
  then have "lf_view s' = lf_view s" using assms(3) by (cases l) (auto simp: sched_spec_simps)
  with lf_linv_step [OF _ assms(2), of k] assms(1) show ?thesis by (simp add: lf_live_def)
qed

lemma sum_over_size_le:
  fixes f :: "'p \<Rightarrow> int" and g :: "'p \<Rightarrow> 'm multiset"
  shows "(\<And>p. f p \<le> int (size (g p))) \<Longrightarrow> sum_over f ps \<le> int (size (sum_over g ps))"
proof (induction ps)
  case (Cons p ps)
  then have "f p + sum_over f ps \<le> int (size (g p)) + int (size (sum_over g ps))" by (intro add_mono) blast+
  then show ?case by simp
qed simp

lemma sum_over_member: "x \<in># sum_over f ps \<longleftrightarrow> (\<exists>p \<in> set ps. x \<in># f p)"
  by (induction ps) auto

lemma lsub_weight: "fl_weight (lsub_stage p) \<le> int (size (lsub_called p))"
  using enq_weight_held by (cases p) auto

lemma lworker_weight: "fl_weight (lworker_stage pc) \<le> int (size (lworker_called pc))" for pc :: "'t lworker"
proof (cases pc)
  case (L_deq c)
  have "fl_weight (deq_stage c) \<le> 0" by (rule deq_weight)
  then have "fl_weight (deq_stage c) \<le> int (size (deq_held c))" by linarith
  with L_deq show ?thesis by simp
qed (use lsub_weight in simp_all)

lemma lmain_weight: "fl_weight (lmain_stage m) \<le> int (size (lmain_called m))"
  using lsub_weight by (cases m) auto

lemma lf_room:
  assumes "lf_live k s"
  shows "rg_head (lf_ring s) \<le> rg_tail (lf_ring s) + ring_size (lf_ring s)"
proof -
  have linv: "lf_linv k s" and fits: "size (sp_queued (lf_view s)) \<le> 2 ^ k" using assms by (auto simp: lf_live_def)
  note parts = lf_linv_parts [OF linv]
  have "fl_weight (lf_flight s) \<le> int (size (lmain_called (lf_main s))) + int (size (sum_over lworker_called (lf_workers s)))"
    using lmain_weight [of "lf_main s"] sum_over_size_le [of "\<lambda>pc. fl_weight (lworker_stage pc)" lworker_called "lf_workers s", OF lworker_weight]
    by (simp add: lf_flight_def fl_weight_sum_over)
  then have "int (rg_head (lf_ring s)) - int (rg_tail (lf_ring s)) \<le> int (size (sp_queued (lf_view s)))"
    using parts(5) by (simp add: ring_drift_def lf_view_def)
  then have "rg_head (lf_ring s) \<le> rg_tail (lf_ring s) + size (sp_queued (lf_view s))" by linarith
  with fits parts(7) show ?thesis by simp
qed

section \<open>Coming to an offer\<close>

definition lf_offers :: "'t lf \<Rightarrow> bool" where
  "lf_offers = offers lf_step"

lemma lf_offers_intros:
  "lf_step s SRunRet s' \<Longrightarrow> lf_offers s"
  "lf_step s (SStart w t) s' \<Longrightarrow> lf_offers s"
  by (auto simp: lf_offers_def offers_def)

lemma lf_running_offers: "lf_at s w (L_run t) \<Longrightarrow> lf_offers s"
  unfolding lf_offers_def
  by (rule offers_intros(3)) (auto simp: in_user_code_def intro: lf_step.task_finish lf_step.task_call)

lemma lf_at_member: "lf_at s w pc \<Longrightarrow> pc \<in> set (lf_workers s)"
  by (auto simp: lf_at_def)

lemma lf_at_set: "lf_at s w old \<Longrightarrow> lf_workers s' = lf_workers s \<Longrightarrow> lf_at (lf_set s' w pc) w pc"
  by (simp add: lf_at_def lf_set_def)

lemma lf_worker_go:
  assumes at: "lf_at s w pc" and step: "lf_worker_step b s pc = Some (s', pc')"
  shows "lf_step s STau (lf_set s' w pc')" "lf_at (lf_set s' w pc') w pc'"
  using lf_step.worker [OF at step] lf_at_set [OF at] lf_worker_frame [OF step] by auto

lemma lf_running_leads: "lf_at s w (L_run t) \<Longrightarrow> leads lf_step lf_offers s"
  by (intro leads_here lf_running_offers)

lemma lf_take_leads: "lf_at s w (L_deq (C_done (Some t))) \<Longrightarrow> leads lf_step lf_offers s"
  by (intro leads_here lf_offers_intros(2) [OF lf_step.take])

text \<open>A consumer that has claimed a position comes out with a task.\<close>

lemma lf_release_leads:
  assumes linv: "lf_linv k s" and at: "lf_at s w (L_deq (C_release p raw))"
  shows "leads lf_step lf_offers s"
proof -
  have "\<not> lworker_empty (L_deq (C_release p raw))"
    using lf_linv_parts(2) [OF linv] lf_at_member [OF at] by (auto simp: lf_phase_def)
  then obtain t where raw: "raw = Some t" by (cases raw) auto
  have step: "lf_worker_step False s (L_deq (C_release p raw))
      = Some (s\<lparr>lf_ring := store_seq (lf_ring s) p (p + ring_size (lf_ring s))\<rparr>, L_deq (C_done (Some t)))"
    by (simp add: raw)
  show ?thesis by (rule leads_tau [OF lf_worker_go(1) [OF at step] lf_take_leads [OF lf_worker_go(2) [OF at step]]])
qed

lemma lf_claimed_leads:
  assumes linv: "lf_linv k s" and at: "lf_at s w (L_deq (C_take p))"
  shows "leads lf_step lf_offers s"
proof -
  have step: "lf_worker_step False s (L_deq (C_take p))
      = Some (s\<lparr>lf_ring := store_payload (lf_ring s) p None\<rparr>, L_deq (C_release p (payload_at (lf_ring s) p)))"
    by simp
  note go = lf_worker_go [OF at step]
  show ?thesis by (rule leads_tau [OF go(1) lf_release_leads [OF lf_linv_step [OF linv go(1)] go(2)]])
qed

lemma lf_consumer_worker:
  assumes "q \<in># consumers (lf_flight s)"
  shows "\<exists>w p. lf_at s w (L_deq (C_take p)) \<or> (\<exists>raw. lf_at s w (L_deq (C_release p raw)))"
proof -
  obtain st where st: "st \<in># lf_flight s" "q \<in># consuming st" using assms by (auto simp: consumers_def)
  have in_enq: "st \<notin># enq_stage e" for e :: "'a enq" using st(2) by (cases e) auto
  have in_sub: "st \<notin># lsub_stage p" for p :: "'a lsub" using in_enq by (cases p) auto
  then have "st \<notin># lmain_stage (lf_main s)" by (cases "lf_main s") auto
  then obtain pc where pc: "pc \<in> set (lf_workers s)" "st \<in># lworker_stage pc"
    using st(1) by (auto simp: lf_flight_def sum_over_member)
  then obtain w where at: "lf_at s w pc" by (auto simp: lf_at_def in_set_conv_nth)
  obtain c where c: "pc = L_deq c" "st \<in># deq_stage c"
    using pc(2) in_sub by (cases pc) auto
  with st(2) have "(\<exists>p. c = C_take p) \<or> (\<exists>p raw. c = C_release p raw)" by (cases c) auto
  with at c show ?thesis by blast
qed

lemma lf_consumer_leads: "lf_linv k s \<Longrightarrow> q \<in># consumers (lf_flight s) \<Longrightarrow> leads lf_step lf_offers s"
  using lf_consumer_worker lf_claimed_leads lf_release_leads by metis

section \<open>A submit under way returns\<close>

fun sub_left :: "'t lsub \<Rightarrow> nat" where
  "sub_left (L_add t) = 5"
| "sub_left (L_enq (E_reserve t)) = 4"
| "sub_left (L_enq (E_wait t p)) = 3"
| "sub_left (L_enq (E_store t p)) = 2"
| "sub_left (L_enq (E_publish p)) = 1"
| "sub_left (L_enq E_done) = 0"

definition sub_blocked :: "'t ring \<Rightarrow> 't lsub \<Rightarrow> bool" where
  "sub_blocked r p \<longleftrightarrow> (\<exists>q. At_wait q \<in># lsub_stage p \<and> seq_at r q \<noteq> q)"

lemma sub_step_left:
  assumes "p \<noteq> L_enq E_done" and "\<not> sub_blocked (lf_ring s) p"
  shows "\<exists>s' p'. lf_submit_step s p = Some (s', p') \<and> sub_left p' < sub_left p"
proof (cases p)
  case (L_enq e)
  with assms show ?thesis by (cases e) (auto simp: sub_blocked_def)
qed simp

lemma lf_blocked_consumer:
  assumes live: "lf_live k s" and "lsub_stage p \<subseteq># lf_flight s" and "sub_blocked (lf_ring s) p"
  shows "\<exists>q. q \<in># consumers (lf_flight s)"
proof -
  obtain q where q: "At_wait q \<in># lsub_stage p" "seq_at (lf_ring s) q \<noteq> q" using assms(3) by (auto simp: sub_blocked_def)
  then have "At_wait q \<in># lf_flight s" using mset_subset_eqD [OF assms(2)] by blast
  then have "q \<in># producers (lf_flight s)" using producing_member [of "At_wait q"] by (auto dest: mset_subset_eqD)
  moreover have "lf_linv k s" using live by (simp add: lf_live_def)
  ultimately show ?thesis using wait_for_consumer q(2) lf_room [OF live] lf_linv_parts(3,4) by blast
qed

lemma lf_submit_leads:
  assumes "lf_live k s" and "lf_at s w (L_submit t p)"
  shows "leads lf_step lf_offers s"
proof (rule leads_measure [where m = "\<lambda>s. case lf_workers s ! w of L_submit t p \<Rightarrow> sub_left p | _ \<Rightarrow> 0" and
      I = "\<lambda>s. lf_live k s \<and> (\<exists>p. lf_at s w (L_submit t p))"])
  fix s :: "'a lf"
  assume "lf_live k s \<and> (\<exists>p. lf_at s w (L_submit t p))"
  then obtain p where live: "lf_live k s" and at: "lf_at s w (L_submit t p)" by blast
  have linv: "lf_linv k s" using live by (simp add: lf_live_def)
  show "leads lf_step lf_offers s \<or> (\<exists>l s'. lf_step s l s' \<and> quiet l \<and> (lf_live k s' \<and> (\<exists>p. lf_at s' w (L_submit t p)))
      \<and> (case lf_workers s' ! w of L_submit t p \<Rightarrow> sub_left p | _ \<Rightarrow> 0) < (case lf_workers s ! w of L_submit t p \<Rightarrow> sub_left p | _ \<Rightarrow> 0))"
  proof (cases "p = L_enq E_done \<or> sub_blocked (lf_ring s) p")
    case True
    then show ?thesis
    proof
      assume "p = L_enq E_done"
      with at have ret: "lf_step s (SRet (Worker w)) (lf_set s w (L_run t))" by (simp add: lf_step.task_return)
      have "leads lf_step lf_offers s"
        by (rule leads_ret [OF ret lf_running_leads [OF lf_at_set [OF at refl]]])
      then show ?thesis ..
    next
      assume blocked: "sub_blocked (lf_ring s) p"
      have "lsub_stage p \<subseteq># lf_flight s" using lf_flight_at [OF at refl refl] by auto
      with lf_blocked_consumer [OF live _ blocked] lf_consumer_leads [OF linv] show ?thesis by blast
    qed
  next
    case False
    then obtain s1 p' where p': "lf_submit_step s p = Some (s1, p')" "sub_left p' < sub_left p"
      using sub_step_left by blast
    then have step: "lf_worker_step False s (L_submit t p) = Some (s1, L_submit t p')" by simp
    note go = lf_worker_go [OF at step]
    from go lf_live_step [OF live go(1)] p'(2) at show ?thesis
      by (intro disjI2 exI [of _ STau] exI [of _ "lf_set s1 w (L_submit t p')"]) (auto simp: lf_at_def)
  qed
qed (use assms in blast)

section \<open>An idle worker\<close>

fun lf_idle :: "'t lworker \<Rightarrow> bool" where
  "lf_idle (L_deq C_load) = True"
| "lf_idle (L_deq (C_seq p)) = True"
| "lf_idle (L_deq (C_cas p)) = True"
| "lf_idle (L_deq (C_done None)) = True"
| "lf_idle L_check = True"
| "lf_idle pc = False"

text \<open>The steps to the claim of the position \<open>tail\<close>, when a task is published there.\<close>

fun find_left :: "nat \<Rightarrow> 't lworker \<Rightarrow> nat" where
  "find_left t (L_deq (C_cas p)) = (if p = t then 1 else 3)"
| "find_left t (L_deq (C_seq p)) = (if p = t then 2 else 6)"
| "find_left t (L_deq C_load) = 3"
| "find_left t L_check = 4"
| "find_left t (L_deq (C_done v)) = 5"
| "find_left t pc = 0"

lemma find_step:
  assumes "lf_idle pc" and "\<not> lf_shutdown s" and "seq_at (lf_ring s) (rg_tail (lf_ring s)) = Suc (rg_tail (lf_ring s))"
    and "pc \<noteq> L_deq (C_cas (rg_tail (lf_ring s)))"
  shows "\<exists>pc'. lf_worker_step False s pc = Some (s, pc') \<and> lf_idle pc'
    \<and> find_left (rg_tail (lf_ring s)) pc' < find_left (rg_tail (lf_ring s)) pc"
  using assms by (cases pc rule: lf_idle.cases) (auto simp: Let_def)

text \<open>The steps to the end of the worker, when \<open>run\<close> has set \<^verbatim>\<open>shutdown_\<close>.\<close>

fun leave_left :: "nat \<Rightarrow> 't lworker \<Rightarrow> nat" where
  "leave_left t L_check = 1"
| "leave_left t (L_deq (C_done v)) = 2"
| "leave_left t (L_deq (C_cas p)) = (if p = t then 3 else 5)"
| "leave_left t (L_deq (C_seq p)) = (if p = t then 4 else 6)"
| "leave_left t (L_deq C_load) = 5"
| "leave_left t pc = 0"

lemma leave_step:
  assumes "lf_idle pc" and "lf_shutdown s" and "ring_inv (lf_ring s) fl"
    and "pc \<noteq> L_deq (C_cas (rg_tail (lf_ring s)))"
  shows "\<exists>pc'. lf_worker_step False s pc = Some (s, pc')
    \<and> leave_left (rg_tail (lf_ring s)) pc' < leave_left (rg_tail (lf_ring s)) pc"
  using assms ring_stale [OF assms(3), of "rg_tail (lf_ring s)"]
  by (cases pc rule: lf_idle.cases) (auto simp: Let_def)

lemma lf_claim_leads:
  assumes linv: "lf_linv k s" and at: "lf_at s w (L_deq (C_cas (rg_tail (lf_ring s))))"
  shows "leads lf_step lf_offers s"
proof -
  have step: "lf_worker_step False s (L_deq (C_cas (rg_tail (lf_ring s))))
      = Some (s\<lparr>lf_ring := (lf_ring s)\<lparr>rg_tail := rg_tail (lf_ring s) + 1\<rparr>\<rparr>, L_deq (C_take (rg_tail (lf_ring s))))"
    by simp
  note go = lf_worker_go [OF at step]
  show ?thesis by (rule leads_tau [OF go(1) lf_claimed_leads [OF lf_linv_step [OF linv go(1)] go(2)]])
qed

lemma lf_find_leads:
  assumes "lf_linv k s" and "lf_at s w pc" "lf_idle pc" and "lf_pending s \<noteq> 0"
    and "seq_at (lf_ring s) (rg_tail (lf_ring s)) = Suc (rg_tail (lf_ring s))"
  shows "leads lf_step lf_offers s"
proof (rule leads_measure [where m = "\<lambda>s. find_left (rg_tail (lf_ring s)) (lf_workers s ! w)" and
      I = "\<lambda>s. lf_linv k s \<and> (\<exists>pc. lf_at s w pc \<and> lf_idle pc) \<and> lf_pending s \<noteq> 0
        \<and> seq_at (lf_ring s) (rg_tail (lf_ring s)) = Suc (rg_tail (lf_ring s))"])
  fix s :: "'a lf"
  assume I: "lf_linv k s \<and> (\<exists>pc. lf_at s w pc \<and> lf_idle pc) \<and> lf_pending s \<noteq> 0
    \<and> seq_at (lf_ring s) (rg_tail (lf_ring s)) = Suc (rg_tail (lf_ring s))"
  then obtain pc where linv: "lf_linv k s" and at: "lf_at s w pc" and idle: "lf_idle pc" by blast
  note parts = lf_linv_parts [OF linv]
  have "lf_workers s \<noteq> []" using at by (auto simp: lf_at_def)
  then have up: "\<not> lf_shutdown s" using parts(1,2) I by (auto simp: lf_inv_def lf_phase_def)
  show "leads lf_step lf_offers s \<or> (\<exists>l s'. lf_step s l s' \<and> quiet l \<and> (lf_linv k s' \<and> (\<exists>pc. lf_at s' w pc \<and> lf_idle pc)
      \<and> lf_pending s' \<noteq> 0 \<and> seq_at (lf_ring s') (rg_tail (lf_ring s')) = Suc (rg_tail (lf_ring s')))
      \<and> find_left (rg_tail (lf_ring s')) (lf_workers s' ! w) < find_left (rg_tail (lf_ring s)) (lf_workers s ! w))"
  proof (cases "pc = L_deq (C_cas (rg_tail (lf_ring s)))")
    case True
    with lf_claim_leads [OF linv] at show ?thesis by blast
  next
    case False
    with find_step [OF idle up] I obtain pc' where step: "lf_worker_step False s pc = Some (s, pc')"
      and less: "lf_idle pc'" "find_left (rg_tail (lf_ring s)) pc' < find_left (rg_tail (lf_ring s)) pc" by blast
    note go = lf_worker_go [OF at step]
    from go less I lf_linv_step [OF linv go(1)] at show ?thesis
      by (intro disjI2 exI [of _ STau] exI [of _ "lf_set s w pc'"]) (auto simp: lf_at_def)
  qed
qed (use assms in blast)

section \<open>Inside run\<close>

fun lmain_left :: "'t lmain \<Rightarrow> nat" where
  "lmain_left N_wait = 2"
| "lmain_left N_shut = 1"
| "lmain_left pc = 0"

text \<open>A worker is with its user, on its way in or out of the ring, counting off, idle, or gone.\<close>

lemma lf_worker_cases:
  obtains (run) t where "pc = L_run t" | (submit) t p where "pc = L_submit t p" | (found) t where "pc = L_deq (C_done (Some t))"
  | (taking) p where "pc = L_deq (C_take p)" | (releasing) p raw where "pc = L_deq (C_release p raw)"
  | (dec) "pc = L_dec" | (idle) "lf_idle pc" | (gone) "pc = L_exit"
  by (cases pc rule: lf_idle.cases) auto

lemma lf_leave_leads:
  assumes "lf_linv k s" and "lmain_launched (lf_main s)" and "lf_pending s = 0"
  shows "leads lf_step lf_offers s"
proof (rule leads_measure [where m = "\<lambda>s. lmain_left (lf_main s) + sum_over (leave_left (rg_tail (lf_ring s))) (lf_workers s)" and
      I = "\<lambda>s. lf_linv k s \<and> lmain_launched (lf_main s) \<and> lf_pending s = 0"])
  fix s :: "'a lf"
  assume I: "lf_linv k s \<and> lmain_launched (lf_main s) \<and> lf_pending s = 0"
  then have linv: "lf_linv k s" by simp
  note parts = lf_linv_parts [OF linv]
  show "leads lf_step lf_offers s \<or> (\<exists>l s'. lf_step s l s' \<and> quiet l
      \<and> (lf_linv k s' \<and> lmain_launched (lf_main s') \<and> lf_pending s' = 0)
      \<and> lmain_left (lf_main s') + sum_over (leave_left (rg_tail (lf_ring s'))) (lf_workers s')
        < lmain_left (lf_main s) + sum_over (leave_left (rg_tail (lf_ring s))) (lf_workers s))"
  proof (cases "lf_main s = N_join")
    case False
    then have "\<exists>s1 m. lf_main_step s (lf_main s) = Some (s1, m) \<and> lmain_left m < lmain_left (lf_main s) \<and> lmain_launched m
        \<and> lf_pending s1 = 0 \<and> lf_workers s1 = lf_workers s \<and> lf_ring s1 = lf_ring s"
      using I by (cases "lf_main s") auto
    then obtain s1 m where m: "lf_main_step s (lf_main s) = Some (s1, m)" "lmain_left m < lmain_left (lf_main s)" "lmain_launched m"
      "lf_pending s1 = 0" "lf_workers s1 = lf_workers s" "lf_ring s1 = lf_ring s" by blast
    have st: "lf_step s STau (s1\<lparr>lf_main := m\<rparr>)" by (rule lf_step.main [OF m(1)])
    with lf_linv_step [OF linv st] m show ?thesis by (intro disjI2 exI [of _ STau] exI [of _ "s1\<lparr>lf_main := m\<rparr>"]) simp
  next
    case join: True
    show ?thesis
    proof (cases "list_all (\<lambda>pc. pc = L_exit) (lf_workers s)")
      case True
      then have "lf_offers s" by (rule lf_offers_intros(1) [OF lf_step.run_return [OF join]])
      then show ?thesis by (blast intro: leads_here)
    next
      case False
      then obtain w where w: "w < length (lf_workers s)" "lf_workers s ! w \<noteq> L_exit" by (auto simp: list_all_length)
      then have at: "lf_at s w (lf_workers s ! w)" by (simp add: lf_at_def)
      have none: "lworker_counted (lf_workers s ! w) = 0"
        using lf_pending_zero(2) [OF parts(1) _ nth_mem [OF w(1)]] I by simp
      show ?thesis
      proof (cases "lf_workers s ! w" rule: lf_worker_cases)
        case (submit t p)
        with none lf_counted_nonneg(1) [of p] show ?thesis by (simp del: lf_counted_nonneg)
      next
        case (taking p)
        with lf_claimed_leads [OF linv] at show ?thesis by metis
      next
        case (releasing p raw)
        with lf_release_leads [OF linv] at show ?thesis by metis
      next
        case idle
        show ?thesis
        proof (cases "lf_workers s ! w = L_deq (C_cas (rg_tail (lf_ring s)))")
          case True
          with lf_claim_leads [OF linv] at show ?thesis by metis
        next
          case False
          have "lf_shutdown s" using parts(2) join by (simp add: lf_phase_def)
          from leave_step [OF idle this parts(3) False] obtain pc' where
            step: "lf_worker_step False s (lf_workers s ! w) = Some (s, pc')"
            and less: "leave_left (rg_tail (lf_ring s)) pc' < leave_left (rg_tail (lf_ring s)) (lf_workers s ! w)" by blast
          note go = lf_worker_go [OF at step]
          have "sum_over (leave_left (rg_tail (lf_ring s))) ((lf_workers s)[w := pc'])
              < sum_over (leave_left (rg_tail (lf_ring s))) (lf_workers s)"
            using sum_over_update [OF w(1), of "leave_left (rg_tail (lf_ring s))" pc'] less by linarith
          with go(1) I lf_linv_step [OF linv go(1)] show ?thesis
            by (intro disjI2 exI [of _ STau] exI [of _ "lf_set s w pc'"]) (simp add: lf_set_def)
        qed
      qed (use none w in simp_all)
    qed
  qed
qed (use assms in blast)

lemma lf_launched_leads:
  "lf_live k s \<Longrightarrow> lmain_launched (lf_main s) \<Longrightarrow> 0 < lf_n s \<Longrightarrow> leads lf_step lf_offers s"
proof (induction "nat (lf_pending s)" arbitrary: s rule: less_induct)
  case less
  have linv: "lf_linv k s" using less.prems(1) by (simp add: lf_live_def)
  note parts = lf_linv_parts [OF linv]
  have at: "lf_at s w (lf_workers s ! w)" if "w < length (lf_workers s)" for w using that by (simp add: lf_at_def)
  have nonneg: "0 \<le> lf_pending s" if "lf_inv s" for s :: "'a lf"
    using that sum_over_nonneg [of lworker_counted "lf_workers s"] lf_counted_nonneg(3) [of "lf_main s"]
    by (simp add: lf_inv_def)
  consider (zero) "lf_pending s = 0"
    | (busy) w where "w < length (lf_workers s)" "\<not> lf_idle (lf_workers s ! w)" "lf_workers s ! w \<noteq> L_exit"
    | (gone) "lf_pending s \<noteq> 0" "L_exit \<in> set (lf_workers s)"
    | (idle) "lf_pending s \<noteq> 0" "\<And>w. w < length (lf_workers s) \<Longrightarrow> lf_idle (lf_workers s ! w)"
    by (metis nth_mem)
  then show ?case
  proof cases
    case zero
    with lf_leave_leads [OF linv less.prems(2)] show ?thesis by blast
  next
    case (busy w)
    note here = at [OF busy(1)]
    from busy show ?thesis
    proof (cases "lf_workers s ! w" rule: lf_worker_cases)
      case (run t)
      with lf_running_leads here show ?thesis by metis
    next
      case (submit t p)
      with lf_submit_leads [OF less.prems(1)] here show ?thesis by metis
    next
      case (found t)
      with lf_take_leads here show ?thesis by metis
    next
      case (taking p)
      with lf_claimed_leads [OF linv] here show ?thesis by metis
    next
      case (releasing p raw)
      with lf_release_leads [OF linv] here show ?thesis by metis
    next
      case dec
      then have step: "lf_worker_step False s (lf_workers s ! w) = Some (s\<lparr>lf_pending := lf_pending s - 1\<rparr>, L_deq C_load)" by simp
      let ?s = "lf_set (s\<lparr>lf_pending := lf_pending s - 1\<rparr>) w (L_deq C_load)"
      have st: "lf_step s STau ?s" by (rule lf_worker_go(1) [OF here step])
      have live: "lf_live k ?s" by (rule lf_live_step [OF less.prems(1) st]) simp
      then have "0 \<le> lf_pending ?s" by (intro nonneg) (simp add: lf_live_def lf_linv_def)
      then have "nat (lf_pending ?s) < nat (lf_pending s)" by simp
      from less.hyps [OF this live] less.prems(2,3) have "leads lf_step lf_offers ?s" by (simp add: lf_set_def)
      with st show ?thesis by (rule leads_tau)
    qed simp_all
  next
    case gone
    with parts(1,2) show ?thesis by (auto simp: lf_phase_def lf_inv_def)
  next
    case idle
    have sub: "\<not> lmain_outside (lf_main s)" "lmain_counted (lf_main s) = 0" "lmain_stage (lf_main s) = {#}"
      using less.prems(2) by (cases "lf_main s"; simp)+
    have stage: "\<exists>p. lworker_stage pc = {#} \<or> lworker_stage pc = {#At_cas p#}" "lworker_counted pc = 0" if "lf_idle pc" for pc :: "'a lworker"
      using that by (cases pc rule: lf_idle.cases; simp)+
    have each: "lf_idle pc" if "pc \<in> set (lf_workers s)" for pc
      using that idle(2) by (metis in_set_conv_nth)
    have cas: "\<exists>p. st = At_cas p" if "st \<in># lf_flight s" for st
      using that each stage(1) sub(3) by (fastforce simp: lf_flight_def sum_over_member)
    have "producers (lf_flight s) = {#}" "fl_weight (lf_flight s) = 0"
      unfolding producers_def fl_weight_def using cas by (intro sum_mset.neutral ballI; force)+
    moreover have "sum_over lworker_counted (lf_workers s) = 0" by (rule sum_over_zero) (use each stage(2) in auto)
    then have "0 < size (ring_tasks (lf_ring s))"
      using parts(1) sub(2) idle(1) by (simp add: lf_inv_def nonempty_has_size [symmetric])
    ultimately have "rg_tail (lf_ring s) < rg_head (lf_ring s)" "rg_tail (lf_ring s) \<notin># producers (lf_flight s)"
      using parts(5) by (auto simp: ring_drift_def)
    then have "seq_at (lf_ring s) (rg_tail (lf_ring s)) = Suc (rg_tail (lf_ring s))"
      using ring_booksD(3) [OF parts(4)] by simp
    moreover have "0 < length (lf_workers s)" using parts(2) less.prems(2,3) by (simp add: lf_phase_def)
    ultimately show ?thesis using lf_find_leads [OF linv at idle(2) idle(1)] by blast
  qed
qed

fun lf_launch_left :: "nat \<Rightarrow> nat \<Rightarrow> 't lmain \<Rightarrow> nat" where
  "lf_launch_left n workers N_clear = 2 + n"
| "lf_launch_left n workers N_spawn = 1 + (n - workers)"
| "lf_launch_left n workers pc = 0"

lemma lf_run_main_leads:
  assumes "lf_live k s" and "\<not> lmain_outside (lf_main s)" and "0 < lf_n s"
  shows "leads lf_step lf_offers s"
proof (rule leads_measure [where m = "\<lambda>s. lf_launch_left (lf_n s) (length (lf_workers s)) (lf_main s)" and
      I = "\<lambda>s. lf_live k s \<and> \<not> lmain_outside (lf_main s) \<and> 0 < lf_n s"])
  fix s :: "'a lf"
  assume I: "lf_live k s \<and> \<not> lmain_outside (lf_main s) \<and> 0 < lf_n s"
  show "leads lf_step lf_offers s \<or> (\<exists>l s'. lf_step s l s' \<and> quiet l \<and> (lf_live k s' \<and> \<not> lmain_outside (lf_main s') \<and> 0 < lf_n s')
      \<and> lf_launch_left (lf_n s') (length (lf_workers s')) (lf_main s') < lf_launch_left (lf_n s) (length (lf_workers s)) (lf_main s))"
  proof (cases "lmain_launched (lf_main s)")
    case True
    with I lf_launched_leads show ?thesis by blast
  next
    case False
    then have "\<exists>s1 m. lf_main_step s (lf_main s) = Some (s1, m) \<and> \<not> lmain_outside m \<and> lf_n s1 = lf_n s
        \<and> lf_launch_left (lf_n s1) (length (lf_workers s1)) m < lf_launch_left (lf_n s) (length (lf_workers s)) (lf_main s)"
      using I by (cases "lf_main s") auto
    then obtain s1 m where m: "lf_main_step s (lf_main s) = Some (s1, m)" "\<not> lmain_outside m" "lf_n s1 = lf_n s"
      "lf_launch_left (lf_n s1) (length (lf_workers s1)) m < lf_launch_left (lf_n s) (length (lf_workers s)) (lf_main s)" by blast
    have st: "lf_step s STau (s1\<lparr>lf_main := m\<rparr>)" by (rule lf_step.main [OF m(1)])
    with lf_live_step [OF _ st, of k] I m show ?thesis by (intro disjI2 exI [of _ STau] exI [of _ "s1\<lparr>lf_main := m\<rparr>"]) simp
  qed
qed (use assms in blast)

section \<open>Outside run\<close>

lemma lf_outside_leads:
  assumes "lf_live k s" and "lmain_outside (lf_main s)"
  shows "leads lf_step (ready lf_step) s"
proof (rule leads_measure [where m = "\<lambda>s. case lf_main s of N_submit p \<Rightarrow> sub_left p | _ \<Rightarrow> 0" and
      I = "\<lambda>s. lf_live k s \<and> lmain_outside (lf_main s)"])
  fix s :: "'a lf"
  assume I: "lf_live k s \<and> lmain_outside (lf_main s)"
  have idle: "leads lf_step (ready lf_step) s" if "lf_main s = N_idle" for s :: "'a lf"
    using that by (intro leads_here) (auto simp: ready_def intro: lf_step.main_call lf_step.run_call)
  show "leads lf_step (ready lf_step) s \<or> (\<exists>l s'. lf_step s l s' \<and> quiet l \<and> (lf_live k s' \<and> lmain_outside (lf_main s'))
      \<and> (case lf_main s' of N_submit p \<Rightarrow> sub_left p | _ \<Rightarrow> 0) < (case lf_main s of N_submit p \<Rightarrow> sub_left p | _ \<Rightarrow> 0))"
  proof (cases "lf_main s")
    case N_idle
    with idle show ?thesis by blast
  next
    case (N_submit p)
    show ?thesis
    proof (cases "p = L_enq E_done")
      case True
      with N_submit have "lf_step s (SRet Main) (s\<lparr>lf_main := N_idle\<rparr>)" by (simp add: lf_step.main_return)
      then have "leads lf_step (ready lf_step) s" by (rule leads_ret) (simp add: idle)
      then show ?thesis ..
    next
      case False
      have "lf_workers s = []" using I N_submit by (simp add: lf_live_def lf_linv_def lf_inv_def)
      then have "q \<notin># consumers (lf_flight s)" for q using lf_consumer_worker [of q s] by (auto simp: lf_at_def)
      moreover have "lsub_stage p \<subseteq># lf_flight s" by (simp add: lf_flight_def N_submit)
      ultimately have "\<not> sub_blocked (lf_ring s) p" using lf_blocked_consumer I by metis
      with sub_step_left [OF False] obtain s1 p' where p': "lf_submit_step s p = Some (s1, p')" "sub_left p' < sub_left p"
        by blast
      then have st: "lf_step s STau (s1\<lparr>lf_main := N_submit p'\<rparr>)" by (intro lf_step.main) (simp add: N_submit)
      with lf_live_step [OF _ st, of k] I p'(2) N_submit show ?thesis
        by (intro disjI2 exI [of _ STau] exI [of _ "s1\<lparr>lf_main := N_submit p'\<rparr>"]) simp
    qed
  qed (use I in auto)
qed (use assms in blast)

interpretation lfl: live_scheduler "lf_init (Suc k)" lf_step "lf_linv (Suc k)" lf_view "\<lambda>n. n \<le> 2 ^ Suc k" "\<lambda>_. False" for k
proof unfold_locales
  show "lf_linv (Suc k) (lf_init (Suc k))" by (rule lf_linv_init) simp
  show "lf_view (lf_init (Suc k)) = spec_init" by (simp add: lf_view_def lf_init_def spec_init_def)
  show "lf_linv (Suc k) s'" if "lf_linv (Suc k) s" "lf_step s l s'" for s :: "'a lf" and l s' using that by (rule lf_linv_step)
  show "sched_spec (lf_view s) l (lf_view s')" if "lf_linv (Suc k) s" "lf_step s l s'" for s :: "'a lf" and l s'
    using lf_step_good [OF lf_linv_parts(1) [OF that(1)] that(2)] by (simp add: lf_good_def)
  show "leads lf_step (offers lf_step) s"
    if "lf_linv (Suc k) s" "sp_phase (lf_view s) = Some n" "0 < n" "size (sp_queued (lf_view s)) \<le> 2 ^ Suc k" for s :: "'a lf" and n
    using lf_run_main_leads [of "Suc k" s] that by (auto simp: lf_live_def lf_offers_def lf_view_def split: if_splits)
  show "leads lf_step (ready lf_step) s"
    if "lf_linv (Suc k) s" "sp_phase (lf_view s) = None" "size (sp_queued (lf_view s)) \<le> 2 ^ Suc k" for s :: "'a lf"
    using lf_outside_leads [of "Suc k" s] that by (auto simp: lf_live_def lf_view_def split: if_splits)
qed simp_all

section \<open>Who is inside submit\<close>

fun lworker_submits :: "'t lworker \<Rightarrow> bool" where
  "lworker_submits (L_submit t p) = True"
| "lworker_submits pc = False"

fun lmain_submits :: "'t lmain \<Rightarrow> bool" where
  "lmain_submits (N_submit p) = True"
| "lmain_submits pc = False"

definition lf_calls :: "'t lf \<Rightarrow> thread \<Rightarrow> bool" where
  "lf_calls s = calls_of (lmain_submits (lf_main s)) lworker_submits (lf_workers s)"

lemma lf_worker_submits:
  assumes step: "lf_worker_step b s pc = Some (s', pc')"
  shows "lworker_submits pc' = lworker_submits pc"
proof (cases pc)
  case (L_deq c)
  show ?thesis
  proof (cases "\<exists>v. c = C_done v")
    case True
    then obtain v where "c = C_done v" by blast
    with step L_deq show ?thesis by (cases v) auto
  next
    case False
    show ?thesis using step unfolding L_deq lf_worker_deq [OF False] by auto
  qed
qed (use step in \<open>auto split: option.splits if_splits\<close>)

lemma lf_calls_ok:
  assumes step: "lf_step s l s'"
  shows "calls_step (lf_calls s) l (lf_calls s')"
  using step
proof cases
  case main_call
  then show ?thesis using calls_of_main [of True lworker_submits "lf_workers s" False] by (simp add: calls_step_def lf_calls_def)
next
  case main_return
  then show ?thesis using calls_of_main [of False lworker_submits "lf_workers s" True] by (simp add: calls_step_def lf_calls_def)
next
  case (main s1 pc)
  show ?thesis
  proof (cases "lf_main s")
    case (N_submit p)
    with main obtain p' where p: "lf_submit_step s p = Some (s1, p')" "pc = N_submit p'" by (auto split: option.splits)
    with main lf_submit_step_ok(1) [OF p(1)] N_submit show ?thesis by (simp add: calls_step_def lf_calls_def)
  next
    case N_wait
    with main show ?thesis by (cases "0 < lf_pending s") (auto simp: calls_step_def lf_calls_def)
  qed (use main in \<open>auto simp: calls_step_def lf_calls_def calls_of_snoc split: if_splits\<close>)
next
  case (worker w pc b s1 pc')
  have "w < length (lf_workers s)" "lf_workers s ! w = pc" using worker(3) by (auto simp: lf_at_def)
  with worker(1,2) lf_worker_submits [OF worker(4)] lf_worker_frame [OF worker(4)] show ?thesis
    by (simp add: calls_step_def lf_calls_def lf_set_def calls_of_same)
next
  case run_return
  have "calls_of b lworker_submits (lf_workers s) = (\<lambda>th. th = Main \<and> b)" for b
    by (rule calls_of_none) (use run_return in \<open>auto simp: list_all_iff\<close>)
  with run_return show ?thesis by (simp add: calls_step_def lf_calls_def calls_of_Nil)
qed (auto simp: calls_step_def lf_calls_def lf_set_def lf_at_def calls_of_update calls_of_same)

interpretation lfc: calling_scheduler "lf_init (Suc k)" lf_step "lf_linv (Suc k)" lf_view "\<lambda>n. n \<le> 2 ^ Suc k" "\<lambda>_. False" lf_calls for k
proof unfold_locales
  show "\<not> lf_calls (lf_init (Suc k)) th" for th by (cases th) (simp_all add: lf_calls_def lf_init_def)
qed (rule lf_calls_ok)

section \<open>A full ring\<close>

text \<open>Every worker is inside the \<open>submit\<close> of a task it runs and waits for a slot that is not free.\<close>

definition lf_jammed :: "'t lf \<Rightarrow> bool" where
  "lf_jammed s \<longleftrightarrow> lf_main s = N_wait \<and> lf_workers s \<noteq> []
     \<and> list_all (\<lambda>pc. case pc of L_submit t (L_enq (E_wait u p)) \<Rightarrow> seq_at (lf_ring s) p \<noteq> p | _ \<Rightarrow> False) (lf_workers s)"

lemma lf_jammed_at:
  assumes "lf_jammed s" and "lf_at s w pc"
  shows "\<exists>t u p. pc = L_submit t (L_enq (E_wait u p)) \<and> seq_at (lf_ring s) p \<noteq> p"
proof -
  have "case pc of L_submit t (L_enq (E_wait u p)) \<Rightarrow> seq_at (lf_ring s) p \<noteq> p | _ \<Rightarrow> False"
    using assms lf_at_member [OF assms(2)] by (auto simp: lf_jammed_def list_all_iff)
  then show ?thesis by (auto split: lworker.splits lsub.splits enq.splits)
qed

lemma lf_jammed_pending:
  assumes inv: "lf_inv s" and jam: "lf_jammed s"
  shows "0 < lf_pending s"
proof -
  obtain pc where pc: "pc \<in> set (lf_workers s)" using jam by (cases "lf_workers s") (auto simp: lf_jammed_def)
  then obtain w where "lf_at s w pc" by (auto simp: lf_at_def in_set_conv_nth)
  then obtain t u p where "pc = L_submit t (L_enq (E_wait u p))" using lf_jammed_at [OF jam] by blast
  then have "lworker_counted pc = 2" by simp
  then have "2 \<le> sum_over lworker_counted (lf_workers s)"
    using sum_over_member_le [of lworker_counted pc "lf_workers s"] pc by simp
  moreover have "lmain_counted (lf_main s) = 0" using jam by (simp add: lf_jammed_def)
  ultimately show ?thesis using inv by (simp add: lf_inv_def)
qed

lemma lf_jammed_step:
  assumes inv: "lf_inv s" and jam: "lf_jammed s" and step: "lf_step s l s'"
  shows "l = STau \<and> s' = s"
  using step
proof cases
  case (main s1 pc)
  with jam lf_jammed_pending [OF inv jam] show ?thesis by (simp add: lf_jammed_def)
next
  case (worker w pc b s1 pc')
  from lf_jammed_at [OF jam worker(3)] obtain t u p where "pc = L_submit t (L_enq (E_wait u p))" "seq_at (lf_ring s) p \<noteq> p" by blast
  with worker(4) have "s1 = s" "pc' = pc" by auto
  moreover from worker(3) have "lf_set s w pc = s" by (auto simp: lf_set_def lf_at_def)
  ultimately show ?thesis using worker(1,2) by simp
qed (use jam lf_jammed_at [OF jam] in \<open>auto simp: lf_jammed_def\<close>)

lemma lf_jammed_run:
  assumes "lf_inv s" and "lf_jammed s" and "lts_run lf_step s ls s'"
  shows "list_all (\<lambda>l. l = STau) ls \<and> s' = s"
  using assms(3)
proof (induction ls s' rule: lts_run.induct)
  case (run_snoc ls s1 l s2)
  with lf_jammed_step [OF assms(1,2)] show ?case by auto
qed simp

text \<open>On a ring of two slots, task 7 spawns three tasks before it returns; the only worker runs it.\<close>

definition lf_jam :: "nat slabel list \<times> nat lf" where
  "lf_jam = play lf_do (Submit Main 7 # replicate 6 (Do Main) @ Run 1 # replicate 3 (Do Main)
     @ replicate 6 (Do (Worker 0)) @ concat (map (\<lambda>u. Submit (Worker 0) u # replicate 6 (Do (Worker 0))) [8, 9, 10])) (lf_init 1)"

text \<open>C18. A callable that submits more tasks than the ring has free slots can bring the scheduler to a stop:
  when every worker is inside \<open>submit\<close> and waits for a slot, no worker is left to free one. From
  such a state no task begins or ends, no call of \<open>submit\<close> returns and \<open>run\<close> never returns.\<close>

theorem lockfree_full_ring_deadlock:
  assumes "1 \<le> k" and "lts_run lf_step (lf_init k) ls s" and "lf_jammed s" and "lts_run lf_step s ls' s'"
  shows "list_all (\<lambda>l. l = STau) ls' \<and> s' = s"
  by (rule lf_jammed_run [OF lf_reachable(1) [OF assms(2,1)] assms(3,4)])

theorem lockfree_full_ring_deadlock_witness:
  "lts_run lf_step (lf_init 1) (fst lf_jam) (snd lf_jam) \<and> tally submitted (fst lf_jam) = {#7, 8, 9, 10#}
   \<and> \<not> lts_run lf_step (snd lf_jam) [SRunRet] (snd lf_jam)"
proof -
  have run: "lts_run lf_step (lf_init 1) (fst lf_jam) (snd lf_jam)" unfolding lf_jam_def by (rule lf_play)
  have jam: "lf_jammed (snd lf_jam)" by code_simp
  have "tally submitted (fst lf_jam) = {#7, 8, 9, 10#}" by code_simp
  with run lockfree_full_ring_deadlock [OF _ run jam, of "[SRunRet]" "snd lf_jam"] show ?thesis by auto
qed

end
