(* ===== verification/Steal_Progress.thy ===== *)
theory Steal_Progress
  imports Steal_Runs Progress
begin

text \<open>
  The work-stealing scheduler can always go on (\<open>live_scheduler\<close>): each worker left alone comes
  out of its operation; a worker with a task in its deque pops it; and when nothing is pending
  the workers leave their loops and \<open>run\<close> returns.
\<close>

section \<open>Further invariants\<close>

text \<open>
  All workers are launched when \<open>run\<close> waits; the injection queue is empty from the end of the
  drain on; \<^verbatim>\<open>shutdown_\<close> is set only when \<open>run\<close> is about to return or has returned; a worker
  that has left its loop saw no pending task.
\<close>

fun wmain_launched :: "'t wmain \<Rightarrow> bool" where
  "wmain_launched X_wait = True"
| "wmain_launched X_shut = True"
| "wmain_launched X_join = True"
| "wmain_launched pc = False"

definition ws_phase :: "'t ws \<Rightarrow> bool" where
  "ws_phase s \<longleftrightarrow> ws_inject_mu s = holds_inject_mu (ws_main s)
     \<and> (wmain_launched (ws_main s) \<longrightarrow> length (ws_workers s) = ws_n s)
     \<and> (wmain_launched (ws_main s) \<or> ws_main s = X_unlock \<or> ws_main s = X_spawn \<longrightarrow> ws_inject s = [])
     \<and> (ws_shutdown s \<longrightarrow> wmain_outside (ws_main s) \<or> ws_main s = X_build \<or> ws_main s = X_clear \<or> ws_main s = X_join)
     \<and> ((\<exists>k \<in> set (ws_workers s). wk_code k = V_exit) \<longrightarrow> ws_pending s = 0)"

definition ws_linv :: "'t ws \<Rightarrow> bool" where
  "ws_linv s \<longleftrightarrow> ws_inv s \<and> workers_typed s \<and> ws_phase s"

lemma worker_step_frame:
  assumes "ws_worker_step r w s b pc = Some (s', pc', b')"
  shows "ws_workers s' = ws_workers s \<and> ws_main s' = ws_main s \<and> ws_n s' = ws_n s \<and> ws_inject s' = ws_inject s
    \<and> ws_inject_mu s' = ws_inject_mu s \<and> ws_shutdown s' = ws_shutdown s"
  using assms by (cases pc) (auto simp: set_deque_def Let_def
      split: if_splits option.splits prod.splits opc.splits tpc.splits elim!: spawn_step.elims)

lemma worker_step_exit: "ws_worker_step r w s b pc = Some (s', V_exit, b') \<Longrightarrow>
    ws_pending s' = 0 \<or> ws_shutdown s"
  by (cases pc) (auto simp: Let_def split: if_splits option.splits prod.splits opc.splits tpc.splits elim!: spawn_step.elims)

lemma ws_set_fields [simp]:
  "ws_main (ws_set s w pc b) = ws_main s" "ws_n (ws_set s w pc b) = ws_n s" "ws_pending (ws_set s w pc b) = ws_pending s"
  "ws_inject (ws_set s w pc b) = ws_inject s" "ws_inject_mu (ws_set s w pc b) = ws_inject_mu s"
  "ws_shutdown (ws_set s w pc b) = ws_shutdown s" "length (ws_workers (ws_set s w pc b)) = length (ws_workers s)"
  "ws_deques (ws_set s w pc b) = ws_deques s"
  by (simp_all add: ws_set_def)

lemma exit_after: "k \<in> set (ws_workers (ws_set s w pc b)) \<Longrightarrow> wk_code k = V_exit \<Longrightarrow> pc \<noteq> V_exit \<Longrightarrow>
    \<exists>k \<in> set (ws_workers s). wk_code k = V_exit"
  by (auto simp: ws_set_def dest!: set_update_subset_insert [THEN subsetD])

lemma pending_stays_zero:
  assumes inv: "ws_inv s" and at: "ws_at s w pc b" and step: "ws_worker_step r w s b pc = Some (s', pc', b')"
    and zero: "ws_pending s = 0"
  shows "ws_pending s' = 0"
proof -
  have proto: "ws_proto s" and counts: "ws_counts 0 s" using inv by (auto simp: ws_inv_def)
  have "wcode_counted pc = 0"
    using ws_pending_zero(2) [OF counts zero] at nth_mem [of w "ws_workers s"] by (force simp: ws_at_def)
  with worker_step_move [OF proto at step] zero show ?thesis by (auto simp: worker_move_def)
qed

lemma worker_phase:
  assumes linv: "ws_linv s" and at: "ws_at s w pc b" and step: "ws_worker_step r w s b pc = Some (s', pc', b')"
  shows "ws_phase (ws_set s' w pc' b')"
proof -
  note frame = worker_step_frame [OF step]
  have inv: "ws_inv s" and phase: "ws_phase s" using linv by (auto simp: ws_linv_def)
  have workers: "ws_workers s \<noteq> []" using at by (auto simp: ws_at_def)
  have zero: "ws_pending s' = 0" if "\<exists>k \<in> set (ws_workers (ws_set s' w pc' b')). wk_code k = V_exit"
  proof (cases "pc' = V_exit")
    case True
    have "ws_pending s = 0" if "ws_shutdown s"
    proof -
      have "ws_proto s" using inv by (simp add: ws_inv_def)
      from workers proto_outside [OF this] have "\<not> wmain_outside (ws_main s)" "ws_main s \<noteq> X_build" by blast+
      moreover have "ws_main s \<noteq> X_clear" using workers \<open>ws_proto s\<close> by (auto simp: ws_proto_def)
      ultimately have "ws_main s = X_join" using that phase by (auto simp: ws_phase_def)
      then show ?thesis using inv by (simp add: ws_inv_def)
    qed
    with worker_step_exit [OF step [unfolded True]] pending_stays_zero [OF inv at step] show ?thesis by blast
  next
    case False
    with that exit_after frame have "\<exists>k \<in> set (ws_workers s). wk_code k = V_exit" by metis
    with phase have "ws_pending s = 0" by (simp add: ws_phase_def)
    then show ?thesis by (rule pending_stays_zero [OF inv at step])
  qed
  with frame phase show ?thesis by (auto simp: ws_phase_def)
qed

lemma ws_step_phase:
  assumes linv: "ws_linv s" and step: "ws_step s l s'"
  shows "ws_phase s'"
proof -
  have inv: "ws_inv s" and phase: "ws_phase s" using linv by (auto simp: ws_linv_def)
  have set: "ws_phase (ws_set s w pc b)" if "pc \<noteq> V_exit" for w pc b
    using phase exit_after [of _ s w pc b] that unfolding ws_phase_def by auto
  show ?thesis
    using step
  proof cases
    case (main s1 pc)
    have proto: "ws_proto s" using inv by (simp add: ws_inv_def)
    have few: "ws_main s = X_spawn \<Longrightarrow> length (ws_workers s) \<le> ws_n s"
      using proto by (auto simp: ws_proto_def deques_ok_def)
    have none: "ws_workers s = []" if "wmain_outside (ws_main s)" using that proto_outside [OF proto] by simp
    have mu: "ws_inject_mu s' = holds_inject_mu (ws_main s')"
      using ws_step_mu [OF _ step] phase by (simp add: ws_phase_def)
    have launched: "wmain_launched pc \<longrightarrow> length (ws_workers s1) = ws_n s1"
      using main(3) phase few by (cases "ws_main s") (auto simp: ws_phase_def split: if_splits option.splits)
    have drained: "wmain_launched pc \<or> pc = X_unlock \<or> pc = X_spawn \<longrightarrow> ws_inject s1 = []"
      using main(3) phase by (cases "ws_main s") (auto simp: ws_phase_def split: if_splits option.splits)
    have shut: "ws_shutdown s1 \<longrightarrow> wmain_outside pc \<or> pc = X_build \<or> pc = X_clear \<or> pc = X_join"
      using main(3) phase by (cases "ws_main s")
        (auto simp: ws_phase_def set_deque_def split: if_splits option.splits elim!: inject_step.elims)
    have "(ws_workers s1 = ws_workers s \<or> ws_workers s1 = ws_workers s @ [wk_new])
        \<and> (ws_pending s1 = ws_pending s \<or> ws_workers s1 = [])"
      using main(3) none by (cases "ws_main s")
        (auto simp: set_deque_def split: if_splits option.splits elim!: inject_step.elims)
    moreover have "(\<exists>k \<in> set (ws_workers s). wk_code k = V_exit) \<longrightarrow> ws_pending s = 0"
      using phase by (simp add: ws_phase_def)
    ultimately have "(\<exists>k \<in> set (ws_workers s1). wk_code k = V_exit) \<longrightarrow> ws_pending s1 = 0"
      by (elim conjE disjE) (simp_all add: wk_new_def)
    with mu launched drained shut main(2) show ?thesis by (simp add: ws_phase_def)
  next
    case (worker w pc b r s1 pc' b')
    from worker_phase [OF linv worker(3,4)] show ?thesis using worker(2) by simp
  qed (use phase set in \<open>auto simp: ws_phase_def\<close>)
qed

lemma ws_linv_init: "ws_linv ws_init"
  by (simp add: ws_linv_def ws_inv_init workers_typed_def ws_phase_def, simp add: ws_init_def)

lemma ws_linv_step: "ws_linv s \<Longrightarrow> ws_step s l s' \<Longrightarrow> ws_linv s'"
  using ws_step_phase ws_step_typed ws.step_inv unfolding ws_linv_def ws_inv_def by metis

section \<open>A worker left alone\<close>

text \<open>The steps left in an operation, and until a worker comes round to its own deque again.\<close>

fun opc_left :: "'t opc \<Rightarrow> nat" where
  "opc_left (Push_bot x) = 6"
| "opc_left (Push_top x b) = 5"
| "opc_left (Push_array x b t) = 4"
| "opc_left (Push_check x b t a) = 3"
| "opc_left (Push_put x b a) = 2"
| "opc_left (Push_publish x b) = 1"
| "opc_left Pop_bot = 7"
| "opc_left (Pop_array b) = 6"
| "opc_left (Pop_store b a) = 5"
| "opc_left (Pop_top b a) = 4"
| "opc_left (Pop_branch b a t) = 3"
| "opc_left (Pop_cas b t raw) = 2"
| "opc_left (Pop_restore b r) = 1"
| "opc_left pc = 0"

fun tpc_left :: "'t tpc \<Rightarrow> nat" where
  "tpc_left Steal_top = 5"
| "tpc_left (Steal_bot t) = 4"
| "tpc_left (Steal_array t) = 3"
| "tpc_left (Steal_get t a) = 2"
| "tpc_left (Steal_cas t raw) = 1"
| "tpc_left q = 0"

lemma owner_step_left: "in_push pc \<or> in_pop pc \<Longrightarrow> opc_left (snd (owner_step d pc)) < opc_left pc"
  by (cases pc) (auto simp: owner_step_def Let_def split_beta)

lemma thief_step_left: "in_steal q \<Longrightarrow> tpc_left (snd (thief_step d q)) < tpc_left q"
  by (cases q) (auto simp: Let_def split_beta)

lemma opc_left_le: "opc_left pc \<le> 7" and tpc_left_le: "tpc_left q \<le> 5"
  by (cases pc; simp) (cases q; simp)

fun code_left :: "nat \<Rightarrow> 32 word \<Rightarrow> 't wcode \<Rightarrow> nat" where
  "code_left n b (V_pop (PopRet None)) = 14 + unat b + 7 * n"
| "code_left n b (V_pop p) = opc_left p"
| "code_left n b V_pending = 13 + unat b + 7 * n"
| "code_left n b V_shutdown = 12 + unat b + 7 * n"
| "code_left n b V_pick = 11 + unat b + 7 * n"
| "code_left n b (V_next start attempt) = 9 + unat b + 7 * (n - 1 - attempt)"
| "code_left n b (V_steal start attempt v q) = 10 + unat b + 7 * (n - 2 - attempt) + tpc_left q"
| "code_left n b (V_yield i) = 8 + (unat b - unat i)"
| "code_left n b V_dec = 8"
| "code_left n b (V_submit t (A_add u)) = 7"
| "code_left n b (V_submit t (A_push p)) = opc_left p"
| "code_left n b pc = 0"

text \<open>Where a worker waits for its user, or has left.\<close>

fun code_user :: "'t wcode \<Rightarrow> bool" where
  "code_user (V_run t) = True"
| "code_user (V_submit t (A_push PushRet)) = True"
| "code_user (V_pop (PopRet (Some t))) = True"
| "code_user (V_steal start attempt v (StealRet res)) = (res_task res \<noteq> None)"
| "code_user V_exit = True"
| "code_user pc = False"

lemma code_left_pop: "in_pop p \<Longrightarrow> code_left n b (V_pop p) = opc_left p"
  by (cases p) simp_all

lemma worker_can:
  assumes "wcode_typed n w pc" and "\<not> code_user pc"
  shows "\<exists>s' pc' b'. ws_worker_step r w s b pc = Some (s', pc', b')"
proof (cases pc)
  case (V_pop p)
  then have "in_pop p \<or> p = PopRet None" using assms by (auto simp: code_iffs) (metis code_user.simps(3) not_None_eq)
  with V_pop show ?thesis by (auto simp: split_beta)
next
  case (V_submit t a)
  show ?thesis
  proof (cases a)
    case (A_push p)
    then have "in_push p" using assms V_submit by (auto simp: code_iffs)
    with A_push V_submit show ?thesis by (auto simp: split_beta)
  qed (use V_submit in simp)
next
  case (V_steal start attempt v q)
  then have "in_steal q \<or> (\<exists>r. q = StealRet r \<and> res_task r = None)" using assms by (auto simp: code_iffs)
  with V_steal show ?thesis by (auto simp: split_beta)
qed (use assms in \<open>auto simp: Let_def\<close>)

lemma word_below_Suc: "i < b \<Longrightarrow> unat b - unat (i + 1) < unat b - unat i" for i b :: "32 word"
proof -
  assume less: "i < b"
  then have "unat i < unat b" by (simp add: word_less_nat_alt)
  moreover have "unat b < 2 ^ LENGTH(32)" by (rule unsigned_less)
  ultimately have "unat (i + 1) = unat i + 1" by (simp add: unat_word_ariths)
  with \<open>unat i < unat b\<close> show ?thesis by simp
qed

lemma worker_left:
  assumes step: "ws_worker_step r w s b pc = Some (s', pc', b')" and n: "length (ws_deques s) = n"
    and some: "\<And>p. pc = V_pop p \<Longrightarrow> in_pop p \<Longrightarrow> pc' \<noteq> V_pop (PopRet None)"
  shows "code_left n b' pc' < code_left n b pc"
proof (cases pc)
  case (V_pop p)
  show ?thesis
  proof (cases "in_pop p")
    case True
    then have res: "pc' = V_pop (snd (owner_step (ws_deques s ! w) p))" "b' = b" using step V_pop by (simp_all add: split_beta)
    then have "code_left n b' pc' = opc_left (snd (owner_step (ws_deques s ! w) p))"
      using some [OF V_pop True] by (cases "snd (owner_step (ws_deques s ! w) p)") (auto split: option.splits simp: gr0_conv_Suc)
    with owner_step_left [of p "ws_deques s ! w"] True V_pop show ?thesis by (simp add: code_left_pop)
  next
    case False
    with step V_pop show ?thesis by (auto split: opc.splits option.splits)
  qed
next
  case (V_submit t a)
  show ?thesis
  proof (cases a)
    case (A_push p)
    then have p: "in_push p" "pc' = V_submit t (A_push (snd (owner_step (ws_deques s ! w) p)))"
      using step V_submit by (auto simp: split_beta split: if_splits)
    with owner_step_left [of p "ws_deques s ! w"] A_push V_submit show ?thesis by simp
  qed (use step V_submit in auto)
next
  case (V_steal start attempt v q)
  show ?thesis
  proof (cases "in_steal q")
    case True
    then have "pc' = V_steal start attempt v (snd (thief_step (ws_deques s ! v) q))" "b' = b"
      using step V_steal by (simp_all add: split_beta)
    with thief_step_left [OF True, of "ws_deques s ! v"] V_steal show ?thesis by simp
  next
    case False
    with step V_steal show ?thesis by (auto split: tpc.splits option.splits)
  qed
next
  case (V_yield i)
  with step word_below_Suc [of i b] show ?thesis by (auto split: if_splits)
qed (use step n in \<open>auto simp: Let_def split: if_splits\<close>)

section \<open>A worker with a task\<close>

definition deque_has :: "'t ws \<Rightarrow> nat \<Rightarrow> bool" where
  "deque_has s w \<longleftrightarrow> w < length (ws_deques s)
     \<and> adeque_content (dq_abs (ws_deques s ! w) (owner_at (ws_workers s) w)) \<noteq> {#}"

lemma pop_finds:
  assumes ok: "dq_ok d p" and pop: "in_pop p" and step: "owner_step d p = (d', p')"
    and some: "adeque_content (dq_abs d p) \<noteq> {#}"
  shows "p' \<noteq> PopRet None \<and> (adeque_content (dq_abs d' p') \<noteq> {#} \<or> (\<exists>t. p' = PopRet (Some t)))"
proof
  show no: "p' \<noteq> PopRet None"
  proof
    assume "p' = PopRet None"
    moreover have "owner_label p (PopRet None) = DPopped None" using pop by (cases p) (simp_all add: owner_label_def)
    ultimately have "adeque_step (dq_abs d p) (DPopped None) (dq_abs d' p')"
      using owner_step_ok(3) [OF ok disjI2 [OF pop] step] by simp
    then have "dq_abs d p = ([], None)" by (auto simp: adeque_popped)
    with some show False by (simp add: adeque_content_def)
  qed
  show "adeque_content (dq_abs d' p') \<noteq> {#} \<or> (\<exists>t. p' = PopRet (Some t))"
  proof (cases "\<exists>r. p' = PopRet r")
    case True
    with no show ?thesis by (metis not_None_eq)
  next
    case False
    have "own_held p = {#}" using pop by (cases p) simp_all
    moreover have "own_held p' = {#}"
      using pop step False by (cases p) (auto simp: owner_step_def Let_def split: if_splits prod.splits)
    ultimately show ?thesis using owner_step_held [OF ok disjI2 [OF pop] step] some by simp
  qed
qed

lemma ws_at_typed: "workers_typed s \<Longrightarrow> ws_at s w pc b \<Longrightarrow> wcode_typed (length (ws_deques s)) w pc"
  by (force simp: workers_typed_def ws_at_def)

text \<open>A worker's step outside \<open>submit\<close> keeps the tasks of its deque there, or has popped one.\<close>

lemma worker_keeps_deque:
  assumes proto: "ws_proto s" and typed: "workers_typed s" and at: "ws_at s w pc b"
    and step: "ws_worker_step r w s b pc = Some (s', pc', b')" and none: "wcode_task pc = None" and has: "deque_has s w"
  shows "(deque_has (ws_set s' w pc' b') w \<or> (\<exists>t. pc' = V_pop (PopRet (Some t))))
    \<and> (\<forall>p. pc = V_pop p \<and> in_pop p \<longrightarrow> pc' \<noteq> V_pop (PopRet None))"
proof -
  note f = ws_at_facts [OF proto at]
  have frame: "ws_workers s' = ws_workers s" using worker_step_frame [OF step] by simp
  have keep: "deque_has (ws_set s' w pc' b') w" if "ws_deques s' ! w = ws_deques s ! w"
      "length (ws_deques s') = length (ws_deques s)" "owner_same (owner_pc pc) (owner_pc pc')"
    using has that f frame by (simp add: deque_has_def ws_set_def owner_at_update owner_same_def)
  show ?thesis
  proof (cases pc)
    case (V_pop p)
    show ?thesis
    proof (cases "in_pop p")
      case True
      obtain d p' where o: "owner_step (ws_deques s ! w) p = (d, p')" by fastforce
      then have res: "s' = set_deque s w d" "pc' = V_pop p'" using step V_pop True by auto
      have "dq_ok (ws_deques s ! w) p" using deques_ok_owners [OF f(5,2)] f(4) V_pop by simp
      from pop_finds [OF this True o] has f(4) V_pop
      have finds: "p' \<noteq> PopRet None \<and> (adeque_content (dq_abs d p') \<noteq> {#} \<or> (\<exists>t. p' = PopRet (Some t)))"
        by (simp add: deque_has_def)
      have "deque_has (ws_set s' w pc' b') w \<longleftrightarrow> adeque_content (dq_abs d p') \<noteq> {#}"
        using f res by (simp add: deque_has_def ws_set_def set_deque_def owner_at_update)
      with finds res V_pop show ?thesis by auto
    next
      case False
      then have "p = PopRet None" "s' = s" "pc' = V_pending" using step V_pop by (auto split: opc.splits option.splits)
      with keep V_pop show ?thesis by simp
    qed
  next
    case (V_steal start attempt v q)
    have "v \<noteq> w" using ws_at_typed [OF typed at] V_steal by simp
    with keep V_steal step show ?thesis
      by (auto simp: set_deque_def split_beta split: if_splits tpc.splits option.splits)
  qed (use keep step none in \<open>auto simp: Let_def split: if_splits\<close>)
qed

lemma ws_linv_parts:
  assumes "ws_linv s"
  shows "ws_proto s" "ws_counts 0 s" "workers_typed s" "ws_inv s" "ws_phase s"
  using assms by (auto simp: ws_linv_def ws_inv_def)

text \<open>As long as a worker's deque has a task, or the worker runs one, it has not left its loop.\<close>

lemma deque_has_member: "deque_has s w \<Longrightarrow> deque_tasks s \<noteq> {#}"
proof -
  assume has: "deque_has s w"
  let ?f = "\<lambda>i. adeque_content (dq_abs (ws_deques s ! i) (owner_at (ws_workers s) i))"
  have w: "w < length [0..<length (ws_deques s)]" using has by (simp add: deque_has_def)
  from sum_over_split [OF w, of ?f] obtain rest where "deque_tasks s = ?f w + rest"
    using w by (auto simp: deque_tasks_def)
  with has show ?thesis by (simp add: deque_has_def)
qed

lemma busy_inside:
  assumes linv: "ws_linv s" and at: "ws_at s w pc b" and busy: "wcode_task pc \<noteq> None \<or> deque_has s w"
  shows "pc \<noteq> V_exit"
proof
  note parts = ws_linv_parts [OF linv]
  assume exit: "pc = V_exit"
  then have "ws_workers s ! w \<in> set (ws_workers s)" "wk_code (ws_workers s ! w) = V_exit"
    using at nth_mem [of w "ws_workers s"] by (simp_all add: ws_at_def)
  then have "ws_pending s = 0" using parts(5) unfolding ws_phase_def by blast
  with ws_pending_zero(1) [OF parts(2)] have "deque_tasks s = {#}" by (simp add: ws_tasks_def)
  with busy exit deque_has_member show False by auto
qed

section \<open>Coming to an offer\<close>

definition ws_offers :: "'t ws \<Rightarrow> bool" where
  "ws_offers = offers ws_step"

lemma ws_offers_intros:
  "ws_step s SRunRet s' \<Longrightarrow> ws_offers s"
  "ws_step s (SStart w t) s' \<Longrightarrow> ws_offers s"
  by (auto simp: ws_offers_def offers_def)

lemma running_offers: "ws_at s w (V_run t) b \<Longrightarrow> ws_offers s"
  unfolding ws_offers_def
  by (rule offers_intros(3)) (auto simp: in_user_code_def intro: ws_step.task_finish ws_step.task_call)

text \<open>A worker that waits for its user, and has not left its loop, leads to an offer.\<close>

lemma user_leads:
  assumes at: "ws_at s w pc b" and user: "code_user pc" and live: "pc \<noteq> V_exit"
  shows "leads ws_step ws_offers s"
proof -
  from user live consider (run) t where "pc = V_run t" | (ret) t where "pc = V_submit t (A_push PushRet)"
    | (own) t where "pc = V_pop (PopRet (Some t))"
    | (stolen) start attempt v res t where "pc = V_steal start attempt v (StealRet res)" "res_task res = Some t"
    by (cases pc rule: code_user.cases) auto
  then show ?thesis
  proof cases
    case run
    with running_offers [of s w t b] at show ?thesis by (simp add: leads_here)
  next
    case ret
    have "ws_at (ws_set s w (V_run t) b) w (V_run t) b" using at by (simp add: ws_at_def ws_set_def)
    then have "leads ws_step ws_offers (ws_set s w (V_run t) b)" by (intro leads_here running_offers)
    with ws_step.task_return [of s w t b] at ret show ?thesis by (auto intro: leads_on)
  next
    case own
    have "ws_offers s" by (rule ws_offers_intros(2) [OF ws_step.take_own]) (use at own in simp)
    then show ?thesis by (rule leads_here)
  next
    case stolen
    have "ws_offers s" by (rule ws_offers_intros(2) [OF ws_step.take_stolen]) (use at stolen in simp_all)
    then show ?thesis by (rule leads_here)
  qed
qed

lemma ws_at_set: "w < length (ws_workers s) \<Longrightarrow> ws_at (ws_set s w pc b) w pc b"
  by (simp add: ws_at_def ws_set_def)

lemma ws_at_unique: "ws_at s w pc b \<Longrightarrow> ws_at s w pc' b' \<Longrightarrow> pc' = pc \<and> b' = b"
  by (simp add: ws_at_def)

definition w_left :: "nat \<Rightarrow> 't ws \<Rightarrow> nat" where
  "w_left w s = code_left (length (ws_deques s)) (wk_backoff (ws_workers s ! w)) (wk_code (ws_workers s ! w))"

lemma w_left_at: "ws_at s w pc b \<Longrightarrow> w_left w s = code_left (length (ws_deques s)) b pc"
  by (simp add: w_left_def ws_at_def)

lemma worker_step_deques: "ws_worker_step r w s b pc = Some (s', pc', b') \<Longrightarrow> length (ws_deques s') = length (ws_deques s)"
  by (cases pc) (auto simp: set_deque_def Let_def
      split: if_splits option.splits prod.splits opc.splits tpc.splits elim!: spawn_step.elims)

text \<open>A worker left alone that runs a task, or has one in its deque, comes to an offer.\<close>

lemma busy_leads:
  assumes "ws_linv s" and "ws_at s w pc b" and "wcode_task pc \<noteq> None \<or> deque_has s w"
  shows "leads ws_step ws_offers s"
proof (rule leads_measure [where m = "w_left w" and
      I = "\<lambda>s. ws_linv s \<and> (\<exists>pc b. ws_at s w pc b \<and> (wcode_task pc \<noteq> None \<or> deque_has s w))"])
  fix s :: "'a ws"
  assume "ws_linv s \<and> (\<exists>pc b. ws_at s w pc b \<and> (wcode_task pc \<noteq> None \<or> deque_has s w))"
  then obtain pc b where linv: "ws_linv s" and at: "ws_at s w pc b" and busy: "wcode_task pc \<noteq> None \<or> deque_has s w" by blast
  note parts = ws_linv_parts [OF linv]
  have typed: "wcode_typed (length (ws_deques s)) w pc" by (rule ws_at_typed [OF parts(3) at])
  have live: "pc \<noteq> V_exit" by (rule busy_inside [OF linv at busy])
  show "leads ws_step ws_offers s \<or> (\<exists>l s'. ws_step s l s' \<and> quiet l
      \<and> (ws_linv s' \<and> (\<exists>pc b. ws_at s' w pc b \<and> (wcode_task pc \<noteq> None \<or> deque_has s' w))) \<and> w_left w s' < w_left w s)"
  proof (cases "code_user pc")
    case True
    with user_leads [OF at True live] show ?thesis by blast
  next
    case False
    then obtain s1 pc' b' where step: "ws_worker_step 0 w s b pc = Some (s1, pc', b')" using worker_can [OF typed] by blast
    let ?s = "ws_set s1 w pc' b'"
    have st: "ws_step s STau ?s" by (rule ws_step.worker [OF at step])
    have at': "ws_at ?s w pc' b'" using worker_step_frame [OF step] at by (intro ws_at_set) (auto simp: ws_at_def)
    have linv': "ws_linv ?s" by (rule ws_linv_step [OF linv st])
    have same: "wcode_task pc' = wcode_task pc" using worker_step_move [OF parts(1) at step] by simp
    consider (popped) t where "pc' = V_pop (PopRet (Some t))"
      | (goes) "wcode_task pc' \<noteq> None \<or> deque_has ?s w" "\<And>p. pc = V_pop p \<Longrightarrow> in_pop p \<Longrightarrow> pc' \<noteq> V_pop (PopRet None)"
    proof (cases "wcode_task pc = None")
      case True
      with worker_keeps_deque [OF parts(1,3) at step True] True busy that show ?thesis by blast
    next
      case False
      with same have "wcode_task pc' \<noteq> None" "\<forall>p. pc \<noteq> V_pop p" by auto
      with that(2) show ?thesis by blast
    qed
    then show ?thesis
    proof cases
      case popped
      with user_leads [OF at'] st show ?thesis by (auto intro: leads_on)
    next
      case goes
      have "code_left (length (ws_deques s)) b' pc' < code_left (length (ws_deques s)) b pc"
        by (rule worker_left [OF step refl]) (rule goes(2))
      then have "w_left w ?s < w_left w s"
        by (simp add: w_left_at [OF at] w_left_at [OF at'] worker_step_deques [OF step])
      with goes(1) st linv' at' show ?thesis by (intro disjI2 exI [of _ STau] exI [of _ ?s]) auto
    qed
  qed
qed (use assms in blast)

text \<open>When nothing is pending, the workers leave and \<open>run\<close> returns.\<close>

fun exit_left :: "nat \<Rightarrow> 't worker_ctx \<Rightarrow> nat" where
  "exit_left n k = (case wk_code k of
       V_exit \<Rightarrow> 0
     | V_pending \<Rightarrow> 1
     | V_pop p \<Rightarrow> if in_pop p then 3 + opc_left p else 2
     | pc \<Rightarrow> 11 + code_left n (wk_backoff k) pc)"

fun main_left :: "'t wmain \<Rightarrow> nat" where
  "main_left X_wait = 2"
| "main_left X_shut = 1"
| "main_left pc = 0"

lemma worker_leaves:
  assumes step: "ws_worker_step r w s b pc = Some (s', pc', b')" and n: "length (ws_deques s) = n"
    and zero: "ws_pending s = 0" and none: "wcode_counted pc = 0"
    and user: "\<not> code_user pc"
  shows "exit_left n \<lparr>wk_code = pc', wk_backoff = b'\<rparr> < exit_left n \<lparr>wk_code = pc, wk_backoff = b\<rparr> \<or> code_user pc' \<and> pc' \<noteq> V_exit"
proof -
  have other: ?thesis if "code_left n b' pc' < code_left n b pc" "\<And>p. pc \<noteq> V_pop p" "pc \<noteq> V_pending" "pc \<noteq> V_exit"
  proof -
    have "exit_left n \<lparr>wk_code = pc, wk_backoff = b\<rparr> = 11 + code_left n b pc"
      by (cases pc) (use that(2-4) in auto)
    moreover have "exit_left n \<lparr>wk_code = pc', wk_backoff = b'\<rparr> \<le> 11 + code_left n b' pc'"
    proof (cases pc')
      case (V_pop p)
      then show ?thesis using opc_left_le [of p] by simp
    qed simp_all
    ultimately show ?thesis using that(1) by linarith
  qed
  show ?thesis
  proof (cases pc)
    case (V_pop p)
    show ?thesis
    proof (cases "in_pop p")
      case True
      then have "pc' = V_pop (snd (owner_step (ws_deques s ! w) p))" using step V_pop by (simp add: split_beta)
      with owner_step_left [of p "ws_deques s ! w"] True V_pop show ?thesis by simp
    next
      case False
      with step V_pop show ?thesis by (auto split: opc.splits option.splits)
    qed
  next
    case V_pending
    with step zero show ?thesis by simp
  qed (use user other worker_left [OF step n] in auto)
qed

definition leave_left :: "'t ws \<Rightarrow> nat" where
  "leave_left s = main_left (ws_main s) + sum_over (exit_left (length (ws_deques s))) (ws_workers s)"

lemma leave_leads:
  assumes "ws_linv s" and "wmain_launched (ws_main s)" and "ws_pending s = 0"
  shows "leads ws_step ws_offers s"
proof (rule leads_measure [where m = leave_left and
      I = "\<lambda>s. ws_linv s \<and> wmain_launched (ws_main s) \<and> ws_pending s = 0"])
  fix s :: "'a ws"
  assume I: "ws_linv s \<and> wmain_launched (ws_main s) \<and> ws_pending s = 0"
  then have linv: "ws_linv s" and zero: "ws_pending s = 0" by auto
  note parts = ws_linv_parts [OF linv]
  show "leads ws_step ws_offers s \<or> (\<exists>l s'. ws_step s l s' \<and> quiet l
      \<and> (ws_linv s' \<and> wmain_launched (ws_main s') \<and> ws_pending s' = 0) \<and> leave_left s' < leave_left s)"
  proof (cases "ws_main s = X_join")
    case False
    then obtain m :: "'a wmain" where main: "ws_main s = X_wait \<and> m = X_shut \<or> ws_main s = X_shut \<and> m = X_join"
      using I by (cases "ws_main s") auto
    then obtain s1 where step: "ws_main_step s (ws_main s) = Some (s1, m)" and same: "ws_pending s1 = 0"
        "ws_workers s1 = ws_workers s" "ws_deques s1 = ws_deques s"
      using zero by auto
    have st: "ws_step s STau (s1\<lparr>ws_main := m\<rparr>)" by (rule ws_step.main [OF step])
    have "leave_left (s1\<lparr>ws_main := m\<rparr>) < leave_left s" using main same by (auto simp: leave_left_def)
    with st same main ws_linv_step [OF linv st] show ?thesis by (intro disjI2 exI [of _ STau]) auto
  next
    case join: True
    show ?thesis
    proof (cases "list_all (\<lambda>k. wk_code k = V_exit) (ws_workers s)")
      case True
      with ws_offers_intros(1) [OF ws_step.run_return [OF join]] show ?thesis by (auto intro: leads_here)
    next
      case False
      then obtain w where w: "w < length (ws_workers s)" "wk_code (ws_workers s ! w) \<noteq> V_exit"
        by (auto simp: list_all_length)
      obtain pc b where k: "ws_workers s ! w = \<lparr>wk_code = pc, wk_backoff = b\<rparr>" by (cases "ws_workers s ! w")
      then have at: "ws_at s w pc b" using w by (simp add: ws_at_def)
      have live: "pc \<noteq> V_exit" using w k by simp
      have none: "wcode_counted pc = 0"
        using ws_pending_zero(2) [OF parts(2) zero nth_mem [OF w(1)]] k by simp
      show ?thesis
      proof (cases "code_user pc")
        case True
        with user_leads [OF at True live] show ?thesis by blast
      next
        case False
        then obtain s1 pc' b' where step: "ws_worker_step 0 w s b pc = Some (s1, pc', b')"
          using worker_can [OF ws_at_typed [OF parts(3) at]] by blast
        let ?s = "ws_set s1 w pc' b'"
        have st: "ws_step s STau ?s" by (rule ws_step.worker [OF at step])
        have at': "ws_at ?s w pc' b'" using worker_step_frame [OF step] w by (intro ws_at_set) auto
        have zero': "ws_pending ?s = 0" using pending_stays_zero [OF parts(4) at step zero] by simp
        from worker_leaves [OF step refl zero none False] show ?thesis
        proof
          assume "code_user pc' \<and> pc' \<noteq> V_exit"
          with user_leads [OF at'] st show ?thesis by (auto intro: leads_on)
        next
          assume less: "exit_left (length (ws_deques s)) \<lparr>wk_code = pc', wk_backoff = b'\<rparr>
              < exit_left (length (ws_deques s)) \<lparr>wk_code = pc, wk_backoff = b\<rparr>"
          have "leave_left ?s + exit_left (length (ws_deques s)) \<lparr>wk_code = pc, wk_backoff = b\<rparr>
              = leave_left s + exit_left (length (ws_deques s)) \<lparr>wk_code = pc', wk_backoff = b'\<rparr>"
            using sum_over_update [OF w(1), of "exit_left (length (ws_deques s))" "\<lparr>wk_code = pc', wk_backoff = b'\<rparr>"]
              worker_step_frame [OF step] worker_step_deques [OF step] k
            by (simp add: leave_left_def ws_set_def)
          with less have "leave_left ?s < leave_left s" by linarith
          with st zero' I worker_step_frame [OF step] ws_linv_step [OF linv st] show ?thesis
            by (intro disjI2 exI [of _ STau] exI [of _ ?s]) simp
        qed
      qed
    qed
  qed
qed (use assms in blast)

text \<open>
  Once all workers are launched: a worker that runs a task comes to an offer; one that has to count
  a task off does so, and there is less pending; and if neither is there, either some deque has a
  task or nothing is pending.
\<close>

lemma launched_leads:
  "ws_linv s \<Longrightarrow> wmain_launched (ws_main s) \<Longrightarrow> leads ws_step ws_offers s"
proof (induction "nat (ws_pending s)" arbitrary: s rule: less_induct)
  case less
  note parts = ws_linv_parts [OF less.prems(1)]
  have at: "ws_at s w (wk_code (ws_workers s ! w)) (wk_backoff (ws_workers s ! w))" if "w < length (ws_workers s)" for w
    using that by (simp add: ws_at_def)
  consider (zero) "ws_pending s = 0"
    | (runs) w where "w < length (ws_workers s)" "wcode_task (wk_code (ws_workers s ! w)) \<noteq> None"
    | (counts) w where "w < length (ws_workers s)" "wk_code (ws_workers s ! w) = V_dec"
    | (holds) w where "w < length (ws_workers s)" "wk_counted (ws_workers s ! w) \<noteq> 0"
        "wcode_task (wk_code (ws_workers s ! w)) = None" "wk_code (ws_workers s ! w) \<noteq> V_dec"
    | (idle) "ws_pending s \<noteq> 0" "\<And>w. w < length (ws_workers s) \<Longrightarrow> wk_counted (ws_workers s ! w) = 0"
    by blast
  then show ?case
  proof cases
    case zero
    with less.prems show ?thesis by (intro leave_leads)
  next
    case (runs w)
    with busy_leads [OF less.prems(1) at [OF runs(1)]] show ?thesis by blast
  next
    case (counts w)
    let ?b = "wk_backoff (ws_workers s ! w)"
    have here: "ws_at s w V_dec ?b" using at [OF counts(1)] counts(2) by simp
    have "\<exists>s1 pc' b'. ws_worker_step 0 w s ?b V_dec = Some (s1, pc', b') \<and> ws_pending s1 = ws_pending s - 1"
      by (auto simp: Let_def)
    then obtain s1 pc' b' where step: "ws_worker_step 0 w s ?b V_dec = Some (s1, pc', b')"
      and p: "ws_pending s1 = ws_pending s - 1" by blast
    let ?s = "ws_set s1 w pc' b'"
    have st: "ws_step s STau ?s" by (rule ws_step.worker [OF here step])
    have "0 \<le> ws_pending ?s"
      using ws_counts_nonneg [of 0 ?s] ws_linv_parts(2) [OF ws_linv_step [OF less.prems(1) st]] by simp
    then have "nat (ws_pending ?s) < nat (ws_pending s)" using p by simp
    from less.hyps [OF this ws_linv_step [OF less.prems(1) st]] less.prems(2) worker_step_frame [OF step] st
    show ?thesis by (auto intro: leads_on)
  next
    case (holds w)
    then have "code_user (wk_code (ws_workers s ! w)) \<and> wk_code (ws_workers s ! w) \<noteq> V_exit"
      using ws_at_typed [OF parts(3) at [OF holds(1)]]
      by (cases "wk_code (ws_workers s ! w)" rule: wcode_counted.cases)
        (auto simp: code_iffs elim!: in_pop.elims in_push.elims in_steal.elims split: option.splits)
    with user_leads [OF at [OF holds(1)]] show ?thesis by blast
  next
    case idle
    have zero: "sum_over wk_counted (ws_workers s) = 0" "wmain_counted (ws_main s) = 0"
      using idle(2) less.prems(2) by (auto simp: in_set_conv_nth intro!: sum_over_zero) (cases "ws_main s"; simp)
    have "ws_inject s = []" using parts(5) less.prems(2) by (simp add: ws_phase_def)
    then have "ws_waiting s = []" using less.prems(2) by (cases "ws_main s") (simp_all add: ws_waiting_def)
    then have "deque_tasks s \<noteq> {#}" using parts(2) zero idle(1) by (auto simp: ws_counts_def ws_tasks_def)
    moreover have "deque_tasks s = {#}" if "\<And>w. \<not> deque_has s w"
      unfolding deque_tasks_def by (rule sum_over_zero) (use that in \<open>simp add: deque_has_def\<close>)
    ultimately obtain w where "deque_has s w" by blast
    then have w: "w < length (ws_deques s)" "deque_has s w" by (simp_all add: deque_has_def)
    have "length (ws_workers s) = length (ws_deques s)"
      using parts(1,5) less.prems(2) by (cases "ws_main s") (auto simp: ws_phase_def ws_proto_def)
    with busy_leads [OF less.prems(1) at] w show ?thesis by simp
  qed
qed

text \<open>Before that, the thread in \<open>run\<close> builds the deques, drains the injection queue and launches.\<close>

fun launch_left :: "nat \<Rightarrow> nat \<Rightarrow> nat \<Rightarrow> 't wmain \<Rightarrow> nat" where
  "launch_left n tasks workers X_build = 7 + n + tasks"
| "launch_left n tasks workers X_clear = 6 + n + tasks"
| "launch_left n tasks workers X_lock = 5 + n + tasks"
| "launch_left n tasks workers (X_drain i) = 4 + n + (tasks - i)"
| "launch_left n tasks workers X_unlock = 3 + n"
| "launch_left n tasks workers X_spawn = 1 + (n - workers)"
| "launch_left n tasks workers pc = 0"

lemma run_main_leads:
  assumes "ws_linv s" and "\<not> wmain_outside (ws_main s)" and "0 < ws_n s"
  shows "leads ws_step ws_offers s"
proof (rule leads_measure [where m = "\<lambda>s. launch_left (ws_n s) (length (ws_inject s)) (length (ws_workers s)) (ws_main s)"
      and I = "\<lambda>s. ws_linv s \<and> \<not> wmain_outside (ws_main s) \<and> 0 < ws_n s"])
  fix s :: "'a ws"
  assume I: "ws_linv s \<and> \<not> wmain_outside (ws_main s) \<and> 0 < ws_n s"
  then have linv: "ws_linv s" by simp
  note parts = ws_linv_parts [OF linv]
  show "leads ws_step ws_offers s \<or> (\<exists>l s'. ws_step s l s' \<and> quiet l \<and> (ws_linv s' \<and> \<not> wmain_outside (ws_main s') \<and> 0 < ws_n s')
      \<and> launch_left (ws_n s') (length (ws_inject s')) (length (ws_workers s')) (ws_main s')
        < launch_left (ws_n s) (length (ws_inject s)) (length (ws_workers s)) (ws_main s))"
  proof (cases "wmain_launched (ws_main s)")
    case True
    with launched_leads [OF linv] show ?thesis by blast
  next
    case False
    have mu: "ws_inject_mu s = holds_inject_mu (ws_main s)" using parts(5) by (simp add: ws_phase_def)
    have some: "ws_deques s \<noteq> []" if "wmain_building (ws_main s)"
      using that parts(1) I by (cases "ws_main s") (auto simp: ws_proto_def)
    have none: "ws_workers s = []" if "wmain_building (ws_main s)" using that parts(1) by (simp add: ws_proto_def)
    have "\<exists>s1 pc. ws_main_step s (ws_main s) = Some (s1, pc) \<and> \<not> wmain_outside pc \<and> ws_n s1 = ws_n s
        \<and> launch_left (ws_n s1) (length (ws_inject s1)) (length (ws_workers s1)) pc
          < launch_left (ws_n s) (length (ws_inject s)) (length (ws_workers s)) (ws_main s)"
      using False I mu some none by (cases "ws_main s") (auto simp: set_deque_def)
    then obtain s1 pc where step: "ws_main_step s (ws_main s) = Some (s1, pc)"
      and out: "\<not> wmain_outside pc" and n: "ws_n s1 = ws_n s"
      and less: "launch_left (ws_n s1) (length (ws_inject s1)) (length (ws_workers s1)) pc
        < launch_left (ws_n s) (length (ws_inject s)) (length (ws_workers s)) (ws_main s)" by blast
    have st: "ws_step s STau (s1\<lparr>ws_main := pc\<rparr>)" by (rule ws_step.main [OF step])
    from ws_linv_step [OF linv st] st out n less I show ?thesis
      by (intro disjI2 exI [of _ STau] exI [of _ "s1\<lparr>ws_main := pc\<rparr>"]) simp
  qed
qed (use assms in blast)

text \<open>Outside \<open>run\<close>, a \<open>submit\<close> under way returns.\<close>

fun inject_left :: "'t inject \<Rightarrow> nat" where
  "inject_left (I_lock t) = 4"
| "inject_left (I_add t) = 3"
| "inject_left (I_push t) = 2"
| "inject_left I_unlock = 1"
| "inject_left I_done = 0"

lemma outside_leads:
  assumes "ws_linv s" and "wmain_outside (ws_main s)"
  shows "leads ws_step (ready ws_step) s"
proof (rule leads_measure [where m = "\<lambda>s. case ws_main s of X_submit p \<Rightarrow> inject_left p | _ \<Rightarrow> 0"
      and I = "\<lambda>s. ws_linv s \<and> wmain_outside (ws_main s)"])
  fix s :: "'a ws"
  assume I: "ws_linv s \<and> wmain_outside (ws_main s)"
  have idle: "leads ws_step (ready ws_step) s" if "ws_main s = X_idle" for s :: "'a ws"
    using that by (intro leads_here) (auto simp: ready_def intro: ws_step.main_call ws_step.run_call)
  have mu: "ws_inject_mu s = holds_inject_mu (ws_main s)" using I by (simp add: ws_linv_def ws_phase_def)
  show "leads ws_step (ready ws_step) s \<or> (\<exists>l s'. ws_step s l s' \<and> quiet l \<and> (ws_linv s' \<and> wmain_outside (ws_main s'))
      \<and> (case ws_main s' of X_submit p \<Rightarrow> inject_left p | _ \<Rightarrow> 0) < (case ws_main s of X_submit p \<Rightarrow> inject_left p | _ \<Rightarrow> 0))"
  proof (cases "ws_main s")
    case X_idle
    with idle show ?thesis by blast
  next
    case (X_submit p)
    show ?thesis
    proof (cases "p = I_done")
      case True
      with ws_step.main_return [of s] X_submit idle [of "s\<lparr>ws_main := X_idle\<rparr>"] show ?thesis by (auto intro: leads_on)
    next
      case False
      then obtain s1 p' where step: "inject_step s p = Some (s1, p')" and less: "inject_left p' < inject_left p"
        using mu X_submit by (cases p) auto
      then have st: "ws_step s STau (s1\<lparr>ws_main := X_submit p'\<rparr>)" by (intro ws_step.main) (simp add: X_submit)
      with ws_linv_step [OF _ st] I less X_submit show ?thesis
        by (intro disjI2 exI [of _ STau] exI [of _ "s1\<lparr>ws_main := X_submit p'\<rparr>"]) simp
    qed
  qed (use I in auto)
qed (use assms in blast)

interpretation wsl: live_scheduler ws_init ws_step ws_linv ws_view "\<lambda>_. True" "\<lambda>_. False"
proof unfold_locales
  show "ws_linv ws_init" by (rule ws_linv_init)
  show "ws_view ws_init = spec_init" by (rule ws_view_init)
  show "ws_linv s'" if "ws_linv s" "ws_step s l s'" for s :: "'a ws" and l s' using that by (rule ws_linv_step)
  show "sched_spec (ws_view s) l (ws_view s')" if "ws_linv s" "ws_step s l s'" for s :: "'a ws" and l s'
    using that ws_linv_parts(4) by (blast intro: ws.step_spec)
  show "leads ws_step (offers ws_step) s" if "ws_linv s" "sp_phase (ws_view s) = Some n" "0 < n" for s :: "'a ws" and n
    using run_main_leads [OF that(1)] that(2,3) by (auto simp: ws_view_def ws_offers_def split: if_splits)
  show "leads ws_step (ready ws_step) s" if "ws_linv s" "sp_phase (ws_view s) = None" for s :: "'a ws"
    using outside_leads [OF that(1)] that(2) by (auto simp: ws_view_def split: if_splits)
qed simp_all

section \<open>Who is inside submit\<close>

fun wcode_submits :: "'t wcode \<Rightarrow> bool" where
  "wcode_submits (V_submit t a) = True"
| "wcode_submits pc = False"

fun wmain_submits :: "'t wmain \<Rightarrow> bool" where
  "wmain_submits (X_submit p) = True"
| "wmain_submits pc = False"

definition ws_calls :: "'t ws \<Rightarrow> thread \<Rightarrow> bool" where
  "ws_calls s = calls_of (wmain_submits (ws_main s)) (\<lambda>k. wcode_submits (wk_code k)) (ws_workers s)"

lemma ws_worker_submits:
  assumes step: "ws_worker_step r w s b pc = Some (s', pc', b')"
  shows "wcode_submits pc' = wcode_submits pc"
  using assms by (cases pc) (auto simp: Let_def split: if_splits option.splits prod.splits opc.splits tpc.splits)

lemma ws_calls_ok:
  assumes step: "ws_step s l s'"
  shows "calls_step (ws_calls s) l (ws_calls s')"
  using step
proof cases
  case main_call
  then show ?thesis using calls_of_main [of True _ "ws_workers s" False] by (simp add: calls_step_def ws_calls_def)
next
  case main_return
  then show ?thesis using calls_of_main [of False _ "ws_workers s" True] by (simp add: calls_step_def ws_calls_def)
next
  case (main s1 pc)
  then have "wmain_submits pc = wmain_submits (ws_main s) \<and> (ws_workers s1 = ws_workers s \<or> ws_workers s1 = ws_workers s @ [wk_new])"
    by (cases "ws_main s") (auto simp: set_deque_def split: if_splits option.splits elim!: inject_step.elims)
  with main(1,2) show ?thesis by (auto simp: calls_step_def ws_calls_def calls_of_snoc wk_new_def)
next
  case (worker w pc b r s1 pc' b')
  have "w < length (ws_workers s)" "ws_workers s ! w = \<lparr>wk_code = pc, wk_backoff = b\<rparr>" using worker(3) by (auto simp: ws_at_def)
  with worker(1,2) ws_worker_submits [OF worker(4)] worker_step_frame [OF worker(4)] show ?thesis
    by (simp add: calls_step_def ws_calls_def ws_set_def calls_of_same)
next
  case run_return
  have "calls_of b (\<lambda>k. wcode_submits (wk_code k)) (ws_workers s) = (\<lambda>th. th = Main \<and> b)" for b
    by (rule calls_of_none) (use run_return in \<open>auto simp: list_all_iff\<close>)
  with run_return show ?thesis by (simp add: calls_step_def ws_calls_def calls_of_Nil)
qed (auto simp: calls_step_def ws_calls_def ws_set_def ws_at_def calls_of_update calls_of_same)

interpretation wsc: calling_scheduler ws_init ws_step ws_linv ws_view "\<lambda>_. True" "\<lambda>_. False" ws_calls
proof unfold_locales
  show "\<not> ws_calls ws_init th" for th by (cases th) (simp_all add: ws_calls_def ws_init_def)
qed (rule ws_calls_ok)

end
