(* ===== verification/Live_Clients.thy ===== *)
theory Live_Clients
  imports Workload Mutex_Progress Lockfree_Progress Steal_Progress
begin

text \<open>
  What the liveness of the schedulers gives their clients: the three classes satisfy
  \<open>live_scheduler\<close> behind the reference type as well, and a client program whose tasks spawn
  finitely many tasks can always be completed, whatever has happened so far.
\<close>

section \<open>The three classes\<close>

fun any_linv :: "sched_class \<Rightarrow> 't any_sched \<Rightarrow> bool" where
  "any_linv MutexQueue (A_mutex s) = mq_linv s"
| "any_linv LockFreeQueue (A_lockfree s) = lf_linv kLog2Ring s"
| "any_linv WorkStealing (A_stealing s) = ws_linv s"
| "any_linv c s = False"

text \<open>How many tasks may wait at a time: only the ring is bounded.\<close>

definition any_fits :: "sched_class \<Rightarrow> nat \<Rightarrow> bool" where
  "any_fits c n \<longleftrightarrow> c = LockFreeQueue \<longrightarrow> n \<le> 2 ^ kLog2Ring"

lemma any_linv_cases:
  assumes "any_linv c s"
  obtains (mq) q where "c = MutexQueue" "s = A_mutex q" "mq_linv q"
  | (lf) q where "c = LockFreeQueue" "s = A_lockfree q" "lf_linv kLog2Ring q"
  | (ws) q where "c = WorkStealing" "s = A_stealing q" "ws_linv q"
  using assms by (cases c; cases s) auto

lemma any_linv_inv: "any_linv c s \<Longrightarrow> any_inv s"
  by (erule any_linv_cases) (simp_all add: mq_linv_def lf_linv_def ws_linv_def)

lemma any_linv_step:
  assumes "any_linv c s" and "any_step s l s'"
  shows "any_linv c s'"
  using assms(1)
proof (cases rule: any_linv_cases)
  case (mq q)
  with assms(2) show ?thesis by (auto simp: any_step_simps intro: mq_linv_step)
next
  case (lf q)
  with assms(2) show ?thesis by (auto simp: any_step_simps intro: lf_linv_step)
next
  case (ws q)
  with assms(2) show ?thesis by (auto simp: any_step_simps intro: ws_linv_step)
qed

lemma any_linv_init: "any_linv c (any_init c)"
proof (cases c)
  case LockFreeQueue
  then show ?thesis by (simp add: lf_linv_init kLog2Ring_def)
qed (simp_all add: mq_linv_init ws_linv_init)

text \<open>The steps of the code alone: without the spurious wake-ups of the mutex class.\<close>

inductive any_code :: "'t any_sched \<Rightarrow> 't slabel \<Rightarrow> 't any_sched \<Rightarrow> bool" where
  code_mutex: "mq_move s l s' \<Longrightarrow> any_code (A_mutex s) l (A_mutex s')"
| code_lockfree: "lf_step s l s' \<Longrightarrow> any_code (A_lockfree s) l (A_lockfree s')"
| code_stealing: "ws_step s l s' \<Longrightarrow> any_code (A_stealing s) l (A_stealing s')"

inductive_simps any_code_simps:
  "any_code (A_mutex s) l s'"
  "any_code (A_lockfree s) l s'"
  "any_code (A_stealing s) l s'"

lemma any_code_step: "any_code s l s' \<Longrightarrow> any_step s l s'"
  by (induction rule: any_code.induct) (auto intro: any_step.intros mq_step.move)

text \<open>The state in which \<open>run\<close> of the mutex class has missed the last notification.\<close>

fun any_missed :: "'t any_sched \<Rightarrow> bool" where
  "any_missed (A_mutex s) = missed s"
| "any_missed s = False"

lemma any_code_leads:
  assumes "any_linv c s" and "\<not> any_missed s" and "sp_phase (any_view s) = Some n" and "0 < n" and "any_fits c (size (sp_queued (any_view s)))"
  shows "leads any_code (offers any_code) s"
  using assms(1)
proof (cases rule: any_linv_cases)
  case (mq q)
  with assms have "leads mq_move (offers mq_move) q" by (intro mqk.run_leads) simp_all
  then show ?thesis unfolding mq(2) by (rule leads_map) (auto intro: any_code.code_mutex offers_map)
next
  case (lf q)
  have k: "kLog2Ring = Suc 16" by (simp add: kLog2Ring_def)
  from lf assms have "leads lf_step (offers lf_step) q"
    by (intro lfl.run_leads [of 16]) (simp_all add: any_fits_def k)
  then show ?thesis unfolding lf(2) by (rule leads_map) (auto intro: any_code.code_lockfree offers_map)
next
  case (ws q)
  with assms have "leads ws_step (offers ws_step) q" by (intro wsl.run_leads) simp_all
  then show ?thesis unfolding ws(2) by (rule leads_map) (auto intro: any_code.code_stealing offers_map)
qed

lemma any_run_leads:
  assumes "any_linv c s" and "sp_phase (any_view s) = Some n" and "0 < n" and "any_fits c (size (sp_queued (any_view s)))"
  shows "leads any_step (offers any_step) s"
proof (cases "any_missed s")
  case True
  then obtain q where s: "s = A_mutex q" by (cases s) auto
  have "mq_linv q" using assms(1) unfolding s by (cases c) simp_all
  then have "leads mq_step (offers mq_step) q" using assms(2,3) unfolding s by (intro mql.run_leads) simp_all
  then show ?thesis unfolding s by (rule leads_map) (auto intro: any_step.mutex offers_map)
next
  case False
  from any_code_leads [OF assms(1) this assms(2-4)] show ?thesis
    by (rule leads_sub) (erule any_code_step, erule offers_sub, erule any_code_step)
qed

lemma any_code_idle:
  assumes "any_linv c s" and "sp_phase (any_view s) = None" and "any_fits c (size (sp_queued (any_view s)))"
  shows "leads any_code (ready any_code) s"
  using assms(1)
proof (cases rule: any_linv_cases)
  case (mq q)
  with assms have "leads mq_move (ready mq_move) q" by (intro mqk.idle_leads) simp_all
  then show ?thesis unfolding mq(2) by (rule leads_map) (auto intro: any_code.code_mutex ready_map)
next
  case (lf q)
  have k: "kLog2Ring = Suc 16" by (simp add: kLog2Ring_def)
  from lf assms have "leads lf_step (ready lf_step) q"
    by (intro lfl.idle_leads [of 16]) (simp_all add: any_fits_def k)
  then show ?thesis unfolding lf(2) by (rule leads_map) (auto intro: any_code.code_lockfree ready_map)
next
  case (ws q)
  with assms have "leads ws_step (ready ws_step) q" by (intro wsl.idle_leads) simp_all
  then show ?thesis unfolding ws(2) by (rule leads_map) (auto intro: any_code.code_stealing ready_map)
qed

lemma any_idle_leads:
  assumes "any_linv c s" and "sp_phase (any_view s) = None" and "any_fits c (size (sp_queued (any_view s)))"
  shows "leads any_step (ready any_step) s"
  using any_code_idle [OF assms] by (rule leads_sub) (auto intro: any_code_step elim!: ready_sub)

lemma any_missed_stays:
  assumes "any_linv c s" and "any_missed s" and "any_code s l s'"
  shows "l = STau \<and> any_missed s'"
proof -
  obtain q where s: "s = A_mutex q" "missed q" "mq_linv q" using assms(1,2) by (cases s; cases c) auto
  with assms(3) obtain q' where "mq_move q l q'" "s' = A_mutex q'" by (auto simp: any_code_simps)
  with missed_stays [OF s(3,2)] show ?thesis by simp
qed

lemma any_missed_inside:
  assumes "any_linv c s" and "any_code s l s'" and "l \<noteq> STau"
  shows "\<not> any_missed s'"
  using assms(2)
proof cases
  case (code_mutex q q')
  with assms(1) have "mq_linv q" by (cases c) auto
  with missed_inside [OF _ code_mutex(3) assms(3)] code_mutex(2) show ?thesis by simp
qed simp_all

lemma any_view_init: "any_view (any_init c) = spec_init"
  by (rule any_init_ok [THEN conjunct2])

lemma any_linv_spec: "any_linv c s \<Longrightarrow> any_step s l s' \<Longrightarrow> sched_spec (any_view s) l (any_view s')"
  using any_step_ok any_linv_inv by blast

lemma any_fits_less: "any_fits c n \<Longrightarrow> m \<le> n \<Longrightarrow> any_fits c m"
  by (auto simp: any_fits_def)

text \<open>With every step, and with the steps of the code alone.\<close>

interpretation anyl: live_scheduler "any_init c" any_step "any_linv c" any_view "any_fits c" "\<lambda>_. False" for c
  by unfold_locales
    (auto intro: any_linv_init any_view_init any_linv_step any_linv_spec any_fits_less any_run_leads any_idle_leads simp del: any_init.simps)

interpretation anyk: live_scheduler "any_init c" any_code "any_linv c" any_view "any_fits c" any_missed for c
  by unfold_locales
    (auto intro: any_linv_init any_view_init any_linv_step any_linv_spec any_fits_less any_code_leads any_code_idle
      any_code_step any_missed_stays any_missed_inside simp del: any_init.simps dest: any_missed_stays any_missed_inside)

fun any_calls :: "'t any_sched \<Rightarrow> thread \<Rightarrow> bool" where
  "any_calls (A_mutex s) = mq_calls s"
| "any_calls (A_lockfree s) = lf_calls s"
| "any_calls (A_stealing s) = ws_calls s"

lemma any_calls_init: "\<not> any_calls (any_init c) th"
  using mqc.calls_init lfc.calls_init [of 16] wsc.calls_init by (cases c) (simp_all add: kLog2Ring_def)

lemma any_calls_ok:
  assumes "any_linv c s" and "any_step s l s'"
  shows "calls_step (any_calls s) l (any_calls s')"
  using assms(1)
proof (cases rule: any_linv_cases)
  case (mq q)
  with assms(2) show ?thesis by (auto simp: any_step_simps intro: mq_calls_ok)
next
  case (lf q)
  with assms(2) show ?thesis by (auto simp: any_step_simps intro: lf_calls_ok)
next
  case (ws q)
  with assms(2) show ?thesis by (auto simp: any_step_simps intro: ws_calls_ok)
qed

interpretation anyc: calling_scheduler "any_init c" any_step "any_linv c" any_view "any_fits c" "\<lambda>_. False" any_calls for c
  by unfold_locales (rule any_calls_init any_calls_ok; assumption?)+

interpretation anykc: calling_scheduler "any_init c" any_code "any_linv c" any_view "any_fits c" any_missed any_calls for c
  by unfold_locales (rule any_calls_init any_calls_ok [OF _ any_code_step]; assumption?)+

section \<open>Client programs\<close>

text \<open>
  A program whose calls of \<open>run\<close> have workers, and whose tasks submitted between two of them, with
  all they spawn, fit; it starts with \<open>m\<close> tasks waiting.
\<close>

fun program_ok :: "(nat \<Rightarrow> bool) \<Rightarrow> ('t \<Rightarrow> 't multiset) \<Rightarrow> nat \<Rightarrow> 't command list \<Rightarrow> bool" where
  "program_ok fits tree m [] = fits m"
| "program_ok fits tree m (Submit_task t # cs) = program_ok fits tree (m + size (tree t)) cs"
| "program_ok fits tree m (Call_run n # cs) = (fits m \<and> 0 < n \<and> program_ok fits tree 0 cs)"

lemma program_ok_fits:
  assumes less: "\<And>n m. fits n \<Longrightarrow> m \<le> n \<Longrightarrow> fits m"
  shows "program_ok fits tree m cs \<Longrightarrow> fits m"
proof (induction cs arbitrary: m)
  case (Cons c cs)
  then show ?case using less [of "m + size (tree t)" m for t] by (cases c) auto
qed simp

text \<open>The program's last command, if any is left, is a call of \<open>run\<close>.\<close>

definition ends_with_run :: "'t command list \<Rightarrow> bool" where
  "ends_with_run cs \<longleftrightarrow> cs = [] \<or> (\<exists>n. last cs = Call_run n)"

definition client_ok :: "(nat \<Rightarrow> bool) \<Rightarrow> ('t \<Rightarrow> 't multiset) \<Rightarrow> 't sched_state \<Rightarrow> 't client \<Rightarrow> bool" where
  "client_ok fits tree p c \<longleftrightarrow> (\<forall>w. cl_tasks c w = None \<longleftrightarrow> sp_running p w = None)
     \<and> ends_with_run (cl_todo c)
     \<and> (case sp_phase p of
          None \<Rightarrow> program_ok fits tree (size (trees tree (sp_queued p))) (cl_todo c)
            \<and> (cl_todo c = [] \<longrightarrow> sp_queued p = {#})
        | Some n \<Rightarrow> 0 < n \<and> fits (size (trees tree (sp_queued p)) + size (trees tree (rest_tasks (cl_tasks c))))
            \<and> program_ok fits tree 0 (cl_todo c))"

text \<open>
  What is left to do, counted in visible steps: a task is submitted, started and finished, and so
  are all it spawns; and \<open>run\<close> is called and returns.
\<close>

definition queued_work :: "('t \<Rightarrow> 't multiset) \<Rightarrow> 't multiset \<Rightarrow> nat" where
  "queued_work tree q = (\<Sum>t\<in>#q. 3 * size (tree t) - 1)"

definition client_work :: "('t \<Rightarrow> 't multiset) \<Rightarrow> 't sched_state \<Rightarrow> 't client \<Rightarrow> nat" where
  "client_work tree p c = 3 * size (trees tree (mset (submits (cl_todo c)))) + 2 * runs (cl_todo c)
     + queued_work tree (sp_queued p) + 3 * size (trees tree (rest_tasks (cl_tasks c)))
     + size (active_tasks (sp_running p)) + (if sp_phase p = None then 0 else 1)"

lemma queued_work_simps [simp]:
  "queued_work tree {#} = 0"
  "queued_work tree (add_mset t q) = 3 * size (tree t) - 1 + queued_work tree q"
  by (simp_all add: queued_work_def)

lemma tree_size: "is_tree body tree \<Longrightarrow> size (tree t) = Suc (size (trees tree (mset (body t))))"
  unfolding is_tree_def trees_def by (metis size_add_mset)

lemma trees_size: "is_tree body tree \<Longrightarrow> size X \<le> size (trees tree X)"
  by (induction X) (auto simp: tree_size)

lemma client_dom:
  assumes "spec_wf p" and "client_ok fits tree p c"
  shows "finite (dom (cl_tasks c))"
proof -
  have "cl_tasks c w = None \<longleftrightarrow> sp_running p w = None" for w using assms(2) unfolding client_ok_def by blast
  then have "dom (cl_tasks c) = dom (sp_running p)" unfolding dom_def by simp
  with spec_wf_finite [OF assms(1)] show ?thesis by simp
qed

lemma ends_with_run_Cons: "ends_with_run (x # cs) \<Longrightarrow> ends_with_run cs \<and> ((\<exists>t. x = Submit_task t) \<longrightarrow> cs \<noteq> [])"
  by (auto simp: ends_with_run_def split: if_splits)

lemma running_phase: "spec_wf p \<Longrightarrow> sp_running p w = Some t \<Longrightarrow> \<exists>n. sp_phase p = Some n"
  by (cases "sp_phase p") (auto simp: spec_wf_def)

text \<open>Every step of the client keeps it so, and every visible step brings it closer to the end.\<close>

lemma client_progress:
  assumes wf: "spec_wf p" and ok: "client_ok fits tree p c" and tree: "is_tree body tree"
    and less: "\<And>n m. fits n \<Longrightarrow> m \<le> n \<Longrightarrow> fits m"
    and step: "sched_spec p l p'" and nxt: "client_next body l c = Some c'"
  shows "client_ok fits tree p' c' \<and> (if quiet l then client_work tree p' c' = client_work tree p c
    else client_work tree p' c' < client_work tree p c)"
proof -
  note fin = client_dom [OF wf ok]
  have iff: "cl_tasks c w = None \<longleftrightarrow> sp_running p w = None" for w using ok unfolding client_ok_def by blast
  have pos: "0 < size (tree t)" for t using tree_size [OF tree, of t] by simp
  show ?thesis
  proof (cases l)
    case (SCall th t)
    show ?thesis
    proof (cases th)
      case Main
      then obtain ds where c: "cl_todo c = Submit_task t # ds" "c' = c\<lparr>cl_todo := ds\<rparr>"
        using nxt SCall by (auto split: list.splits command.splits if_splits)
      have p: "sp_phase p = None" "p' = p\<lparr>sp_queued := add_mset t (sp_queued p)\<rparr>"
        using step SCall Main by (auto simp: sched_spec_simps)
      have "ends_with_run ds \<and> ds \<noteq> []" using ok c(1) ends_with_run_Cons [of "Submit_task t" ds] by (simp add: client_ok_def)
      then show ?thesis
        using ok c p SCall pos [of t] iff by (simp add: client_ok_def client_work_def add.commute)
    next
      case (Worker w)
      then obtain us where c: "cl_tasks c w = Some (t # us)" "c' = c\<lparr>cl_tasks := (cl_tasks c)(w := Some us)\<rparr>"
        using nxt SCall by (auto split: list.splits option.splits if_splits)
      have p: "p' = p\<lparr>sp_queued := add_mset t (sp_queued p)\<rparr>" "sp_running p w \<noteq> None"
        using step SCall Worker by (auto simp: sched_spec_simps)
      obtain n where n: "sp_phase p = Some n" using running_phase [OF wf] p(2) by blast
      have "rest_tasks (cl_tasks c) = add_mset t (rest_tasks (cl_tasks c'))"
        using rest_tasks_split [OF fin c(1)] rest_tasks_some [OF fin, of w us] c(2) by simp
      then show ?thesis
        using ok c(2) p SCall n pos [of t] iff by (auto simp: client_ok_def client_work_def ac_simps)
    qed
  next
    case (SStart w t)
    have c: "c' = c\<lparr>cl_tasks := (cl_tasks c)(w := Some (body t))\<rparr>" using nxt SStart by simp
    obtain n q where p: "sp_running p w = None" "sp_phase p = Some n" "sp_queued p = add_mset t q"
        "p' = p\<lparr>sp_queued := q, sp_running := (sp_running p)(w := Some t)\<rparr>"
      using step SStart by (auto simp: sched_spec_simps)
    have "cl_tasks c w = None" using iff p(1) by simp
    then have rest: "rest_tasks (cl_tasks c') = mset (body t) + rest_tasks (cl_tasks c)"
      using rest_tasks_some [OF fin, of w "body t"] c by (simp add: fun_upd_idem)
    have "fits (size (trees tree q) + size (trees tree (rest_tasks (cl_tasks c'))))"
      using ok p(2,3) rest tree_size [OF tree, of t] by (auto simp: client_ok_def elim!: less)
    then show ?thesis
      using ok c p SStart rest iff tree_size [OF tree, of t] active_start [OF spec_wf_finite [OF wf] p(1), of t]
      by (auto simp: client_ok_def client_work_def)
  next
    case (SFinish w t)
    then have c: "cl_tasks c w = Some []" "c' = c\<lparr>cl_tasks := (cl_tasks c)(w := None)\<rparr>"
      using nxt by (auto split: if_splits)
    have p: "sp_running p w = Some t" "p' = p\<lparr>sp_running := (sp_running p)(w := None)\<rparr>"
      using step SFinish by (auto simp: sched_spec_simps)
    obtain n where n: "sp_phase p = Some n" using running_phase [OF wf p(1)] by blast
    have "rest_tasks (cl_tasks c') = rest_tasks (cl_tasks c)" using rest_tasks_split [OF fin c(1)] c(2) by simp
    then show ?thesis
      using ok c(2) p SFinish n iff active_finish [OF spec_wf_finite [OF wf] p(1)]
      by (auto simp: client_ok_def client_work_def)
  next
    case (SRunCall n)
    then obtain ds where c: "cl_todo c = Call_run n # ds" "c' = c\<lparr>cl_todo := ds\<rparr>"
      using nxt by (auto split: list.splits command.splits if_splits)
    have p: "sp_phase p = None" "p' = p\<lparr>sp_phase := Some n\<rparr>"
      using step SRunCall by (auto simp: sched_spec_simps)
    have "cl_tasks c = (\<lambda>_. None)" using wf p(1) iff by (auto simp: spec_wf_def fun_eq_iff)
    moreover have "ends_with_run ds" using ok c(1) ends_with_run_Cons [of "Call_run n" ds] by (simp add: client_ok_def)
    ultimately show ?thesis
      using ok c p SRunCall iff by (auto simp: client_ok_def client_work_def)
  next
    case SRunRet
    obtain n where p: "sp_phase p = Some n" "p' = p\<lparr>sp_phase := None\<rparr>" "sp_queued p = {#}"
      using step SRunRet by (auto simp: sched_spec_simps)
    then show ?thesis using ok nxt SRunRet iff by (auto simp: client_ok_def client_work_def)
  qed (use ok step nxt in \<open>auto simp: sched_spec_simps\<close>)
qed

lemma client_ok_start:
  "program_ok fits tree 0 cs \<Longrightarrow> ends_with_run cs \<Longrightarrow> client_ok fits tree spec_init (client_start cs)"
  by (simp add: client_ok_def client_start_def spec_init_def)

lemma client_next_quiet: "quiet l \<Longrightarrow> client_next body l c = Some c"
  by (cases l) auto

section \<open>Every program can be completed\<close>

context live_scheduler begin

lemma client_quiet:
  assumes "lts_run step s ls s'" and "list_all quiet ls" and "inv s"
  shows "lts_run (client_step step body) (s, c) ls (s', c) \<and> view s' = view s \<and> inv s'"
  using assms(1,2)
proof (induction rule: lts_run.induct)
  case run_nil
  then show ?case using assms(3) by (simp add: lts_run.run_nil)
next
  case (run_snoc ls s1 l s2)
  then have ih: "lts_run (client_step step body) (s, c) ls (s1, c)" "view s1 = view s" "inv s1" and q: "quiet l" by auto
  have "client_step step body (s1, c) l (s2, c)"
    using run_snoc.hyps(2) client_next_quiet [OF q] by (simp add: client_step_def)
  moreover have "view s2 = view s1" using step_spec [OF ih(3) run_snoc.hyps(2)] q by (cases l) (auto simp: sched_spec_simps)
  ultimately show ?case using ih step_inv [OF ih(3) run_snoc.hyps(2)] by (auto intro: lts_run.run_snoc)
qed

text \<open>What the scheduler offers, the program takes.\<close>

lemma offers_client:
  assumes "offers step s" and inv: "inv s" and ok: "client_ok fits tree (view s) c"
  shows "\<exists>l s' c'. step s l s' \<and> \<not> quiet l \<and> client_next body l c = Some c'"
proof -
  from assms(1) consider (ret) s' where "step s SRunRet s'" | (start) w t s' where "step s (SStart w t) s'"
    | (user) w t where "in_user_code step s w t" by (auto simp: offers_def)
  then show ?thesis
  proof cases
    case ret
    then show ?thesis by (intro exI [of _ SRunRet] exI [of _ s'] exI [of _ c]) simp
  next
    case start
    then show ?thesis by (intro exI [of _ "SStart w t"] exI [of _ s']) simp
  next
    case user
    then obtain s1 where fin: "step s (SFinish w t) s1" and call: "\<And>u. \<exists>s'. step s (SCall (Worker w) u) s'"
      by (auto simp: in_user_code_def)
    have "sp_running (view s) w = Some t" using step_spec [OF inv fin] by (auto simp: sched_spec_simps)
    moreover have "cl_tasks c w = None \<longleftrightarrow> sp_running (view s) w = None" using ok unfolding client_ok_def by blast
    ultimately obtain us where us: "cl_tasks c w = Some us" by auto
    show ?thesis
    proof (cases us)
      case Nil
      with us fin show ?thesis by (intro exI [of _ "SFinish w t"] exI [of _ s1]) simp
    next
      case (Cons u us')
      obtain s2 where "step s (SCall (Worker w) u) s2" using call by blast
      with us Cons show ?thesis by (intro exI [of _ "SCall (Worker w) u"] exI [of _ s2]) simp
    qed
  qed
qed

lemma ready_client:
  assumes "ready step s" and "cl_todo c \<noteq> []"
  shows "\<exists>l s' c'. step s l s' \<and> \<not> quiet l \<and> client_next body l c = Some c'"
proof (cases "cl_todo c")
  case (Cons x cs)
  show ?thesis
  proof (cases x)
    case (Submit_task t)
    obtain s' where "step s (SCall Main t) s'" using assms(1) by (auto simp: ready_def)
    with Cons Submit_task show ?thesis by (intro exI [of _ "SCall Main t"] exI [of _ s']) simp
  next
    case (Call_run n)
    obtain s' where "step s (SRunCall n) s'" using assms(1) by (auto simp: ready_def)
    with Cons Call_run show ?thesis by (intro exI [of _ "SRunCall n"] exI [of _ s']) simp
  qed
qed (use assms in simp)

lemma client_fits:
  assumes ok: "client_ok fits tree (view s) c" and tree: "is_tree body tree"
  shows "fits (size (sp_queued (view s)))"
proof (cases "sp_phase (view s)")
  case None
  then have "fits (size (trees tree (sp_queued (view s))))"
    using ok program_ok_fits [of fits tree] fits_less by (auto simp: client_ok_def)
  with trees_size [OF tree] show ?thesis by (blast intro: fits_less)
next
  case (Some n)
  then have "fits (size (trees tree (sp_queued (view s))) + size (trees tree (rest_tasks (cl_tasks c))))"
    using ok by (simp add: client_ok_def)
  with trees_size [OF tree, of "sp_queued (view s)"] show ?thesis by (meson fits_less le_add1 order.trans)
qed

text \<open>A program that is not through comes to a visible step.\<close>

lemma next_visible:
  assumes inv: "inv s" and ok: "client_ok fits tree (view s) c" and tree: "is_tree body tree"
    and more: "sp_phase (view s) \<noteq> None \<or> cl_todo c \<noteq> []" and here: "\<not> lost s"
  shows "\<exists>ls s1 l s2 c2. lts_run step s ls s1 \<and> list_all quiet ls \<and> step s1 l s2 \<and> \<not> quiet l \<and> client_next body l c = Some c2"
proof (cases "sp_phase (view s)")
  case None
  from leads_run [OF idle_leads [OF inv None client_fits [OF ok tree]]]
  obtain ls s1 where "lts_run step s ls s1" "list_all quiet ls" "ready step s1" by blast
  with ready_client [of s1 c body] more None show ?thesis by blast
next
  case (Some n)
  then have "0 < n" using ok by (simp add: client_ok_def)
  from leads_run [OF run_leads [OF inv here Some this client_fits [OF ok tree]]]
  obtain ls s1 where ls: "lts_run step s ls s1" "list_all quiet ls" "offers step s1" by blast
  with client_quiet [OF ls(1,2) inv] ok offers_client [of s1 tree c body] show ?thesis by metis
qed

lemma client_can_finish:
  assumes tree: "is_tree body tree"
  shows "inv s \<Longrightarrow> spec_wf (view s) \<Longrightarrow> client_ok fits tree (view s) c \<Longrightarrow> \<not> lost s \<Longrightarrow>
    \<exists>ls s' c'. lts_run (client_step step body) (s, c) ls (s', c') \<and> cl_todo c' = [] \<and> sp_phase (view s') = None
      \<and> client_ok fits tree (view s') c'"
proof (induction "client_work tree (view s) c" arbitrary: s c rule: less_induct)
  case less
  show ?case
  proof (cases "sp_phase (view s) = None \<and> cl_todo c = []")
    case True
    with less.prems show ?thesis by (intro exI [of _ "[]"] exI [of _ s] exI [of _ c]) (simp add: lts_run.run_nil)
  next
    case False
    then obtain ls s1 l s2 c2 where v: "lts_run step s ls s1" "list_all quiet ls" "step s1 l s2" "\<not> quiet l"
        "client_next body l c = Some c2"
      using next_visible [OF less.prems(1,3) tree _ less.prems(4)] by blast
    have q: "lts_run (client_step step body) (s, c) ls (s1, c)" "view s1 = view s" "inv s1"
      using client_quiet [OF v(1,2) less.prems(1)] by auto
    have st: "client_step step body (s1, c) l (s2, c2)" using v(3,5) by (simp add: client_step_def)
    have spec: "sched_spec (view s) l (view s2)" using step_spec [OF q(3) v(3)] q(2) by simp
    have "client_ok fits tree (view s2) c2 \<and> client_work tree (view s2) c2 < client_work tree (view s) c"
      using client_progress [OF less.prems(2,3) tree fits_less spec v(5)] v(4) by auto
    moreover have "inv s2" "spec_wf (view s2)"
      using step_inv [OF q(3) v(3)] spec_wf_step [OF less.prems(2) spec] by blast+
    moreover have "\<not> lost s2" by (rule lost_inside [OF q(3) v(3)]) (use v(4) in auto)
    ultimately obtain ls' s' c' where rest: "lts_run (client_step step body) (s2, c2) ls' (s', c')"
      "cl_todo c' = []" "sp_phase (view s') = None" "client_ok fits tree (view s') c'"
      using less.hyps [of s2 c2] by blast
    have "lts_run (client_step step body) (s, c) ((ls @ [l]) @ ls') (s', c')"
      by (rule lts_run_append [OF rest(1) lts_run.run_snoc [OF q(1) st]])
    with rest show ?thesis by blast
  qed
qed

lemma program_ok_run:
  assumes tree: "is_tree body tree" and ok: "program_ok fits tree 0 cs" and ends: "ends_with_run cs"
    and "lts_run (client_step step body) (init, client_start cs) ls x"
  shows "inv (fst x) \<and> spec_wf (view (fst x)) \<and> client_ok fits tree (view (fst x)) (snd x)"
  using assms(4)
proof (induction rule: lts_run.induct)
  case run_nil
  then show ?case using wf_init client_ok_start [OF ok ends] init_ok by simp
next
  case (run_snoc ls x l y)
  then have st: "step (fst x) l (fst y)" "client_next body l (snd x) = Some (snd y)" by (auto simp: client_step_def)
  from run_snoc.IH have ih: "inv (fst x)" "spec_wf (view (fst x))" "client_ok fits tree (view (fst x)) (snd x)" by auto
  have "client_ok fits tree (view (fst y)) (snd y)"
    by (rule client_progress [THEN conjunct1, OF ih(2,3) tree _ step_spec [OF ih(1) st(1)] st(2)]) (rule fits_less)
  with wf_step [OF _ st(1)] ih show ?case by blast
qed

lemma program_through:
  assumes tree: "is_tree body tree" and all: "lts_run (client_step step body) (init, client_start cs) ls (s, c)"
    and through: "cl_todo c = []" "sp_phase (view s) = None" "client_ok fits tree (view s) c"
  shows "tally finished ls = trees tree (mset (submits cs)) \<and> count_list ls SRunRet = runs cs"
proof -
  obtain d where raw: "lts_run step init ls s" and books: "client_books cs body ls (view s) c d"
    using client_run [OF all] by auto
  have idle: "sp_running (view s) = (\<lambda>_. None)"
    using waiting.run_inv [OF raw] through(2) by (auto simp: spec_wf_def fun_eq_iff)
  have "cl_tasks c w = None" for w using books idle by (simp add: client_books_def)
  then have none: "cl_tasks c = (\<lambda>_. None)" by (simp add: fun_eq_iff)
  have "sp_queued (view s) = {#}" using through by (simp add: client_ok_def)
  with account [OF raw] waiting.conservation [OF raw] idle
  have same: "tally started ls = tally submitted ls" "tally finished ls = tally submitted ls" by simp_all
  have d: "cs = d" "tally submitted ls = mset (submits d) + spawned body (tally started ls)" "runs d = count_list ls SRunRet"
    using books none through(1,2) by (simp_all add: client_books_def del: tally_simps)
  have "tally submitted ls = mset (submits cs) + spawned body (tally submitted ls)" using d(1,2) unfolding same(1) by blast
  from closed_trees [OF tree this] same(2) d(1,3) show ?thesis by simp
qed

lemma program_can_finish:
  assumes "is_tree body tree" and "program_ok fits tree 0 cs" and "ends_with_run cs"
    and run: "lts_run (client_step step body) (init, client_start cs) ls x" and "\<not> lost (fst x)"
  shows "\<exists>ls' y. lts_run (client_step step body) x ls' y \<and> cl_todo (snd y) = [] \<and> sp_phase (view (fst y)) = None
    \<and> tally finished (ls @ ls') = trees tree (mset (submits cs)) \<and> count_list (ls @ ls') SRunRet = runs cs"
proof -
  from program_ok_run [OF assms(1-4)] client_can_finish [OF assms(1), of "fst x" "snd x"] assms(5)
  obtain ls' s' c' where fin: "lts_run (client_step step body) x ls' (s', c')" "cl_todo c' = []"
      "sp_phase (view s') = None" "client_ok fits tree (view s') c'" by auto
  from program_through [OF assms(1) lts_run_append [OF fin(1) run] fin(2-4)] fin(1-3) show ?thesis by force
qed

end

lemma make_class:
  assumes "make_scheduler nm = Some s0"
  shows "\<exists>c. s0 = any_init c \<and> (c = LockFreeQueue \<longleftrightarrow> nm = ''LockFreeQueue'')"
proof -
  obtain c where c: "s0 = any_init c" using make_init [OF assms] by blast
  moreover have "any_name s0 = nm" using assms by (auto simp: make_scheduler_def split: if_splits)
  ultimately have "s0 = any_init c \<and> (c = LockFreeQueue \<longleftrightarrow> nm = ''LockFreeQueue'')" by (cases c) auto
  then show ?thesis by blast
qed

lemma client_step_sub: "(\<And>s l s'. step s l s' \<Longrightarrow> step' s l s') \<Longrightarrow> client_step step body x l y \<Longrightarrow> client_step step' body x l y"
  by (auto simp: client_step_def)

lemma lts_run_sub: "lts_run step x ls y \<Longrightarrow> (\<And>x l y. step x l y \<Longrightarrow> step' x l y) \<Longrightarrow> lts_run step' x ls y"
  by (induction rule: lts_run.induct) (auto intro: lts_run.intros)

text \<open>The steps it takes to go on: those of the code, and a wake-up where the last notification was missed.\<close>

definition steps_needed :: "'t any_sched \<Rightarrow> 't any_sched \<Rightarrow> 't slabel \<Rightarrow> 't any_sched \<Rightarrow> bool" where
  "steps_needed s = (if any_missed s then any_step else any_code)"

lemma any_program_finish:
  assumes tree: "is_tree body tree" and ok: "program_ok (any_fits c) tree 0 cs" and ends: "ends_with_run cs"
    and run: "lts_run (client_step any_step body) (any_init c, client_start cs) ls x"
  shows "\<exists>ls' y. lts_run (client_step (steps_needed (fst x)) body) x ls' y \<and> cl_todo (snd y) = []
    \<and> tally finished (ls @ ls') = trees tree (mset (submits cs)) \<and> count_list (ls @ ls') SRunRet = runs cs"
proof -
  note here = anyl.program_ok_run [OF tree ok ends run]
  have "\<exists>ls' s' c'. lts_run (client_step (steps_needed (fst x)) body) x ls' (s', c') \<and> cl_todo c' = []
      \<and> sp_phase (any_view s') = None \<and> client_ok (any_fits c) tree (any_view s') c'"
  proof (cases "any_missed (fst x)")
    case True
    then show ?thesis using anyl.client_can_finish [OF tree, of c "fst x" "snd x"] here by (simp add: steps_needed_def)
  next
    case False
    then show ?thesis using anyk.client_can_finish [OF tree, of c "fst x" "snd x"] here by (simp add: steps_needed_def)
  qed
  then obtain ls' s' c' where fin: "lts_run (client_step (steps_needed (fst x)) body) x ls' (s', c')" "cl_todo c' = []"
      "sp_phase (any_view s') = None" "client_ok (any_fits c) tree (any_view s') c'" by blast
  have "steps_needed (fst x) s l s' \<Longrightarrow> any_step s l s'" for s l s'
    by (auto simp: steps_needed_def split: if_splits intro: any_code_step)
  then have "client_step (steps_needed (fst x)) body a l b \<Longrightarrow> client_step any_step body a l b" for a l b
    by (rule client_step_sub)
  with lts_run_sub [OF fin(1)] have "lts_run (client_step any_step body) x ls' (s', c')" by blast
  from anyl.program_through [OF tree lts_run_append [OF this run] fin(2-4)] fin(1,2) show ?thesis by force
qed

section \<open>Properties\<close>

text \<open>C17. When a scheduler is stuck. Take any state inside \<open>run\<close> with at least one worker, whatever the
  threads, and spurious wake-ups, have done so far. Then the code alone, with no spurious wake-up, can
  bring the scheduler to a state in which a task can begin, a task's callable is in control, or \<open>run\<close>
  can return, in every case but one: on the mutex class, when \<open>run\<close> has missed the last notification
  of \<^verbatim>\<open>done_cv_\<close>. In that state it cannot. For the lock-free class this asks that no more tasks wait than
  the ring has slots.\<close>

theorem scheduler_stuck_iff_missed:
  assumes "make_scheduler nm = Some s0" and "lts_run any_step s0 ls s"
    and "sp_phase (any_view s) = Some n" and "0 < n"
    and "nm = ''LockFreeQueue'' \<Longrightarrow> size (sp_queued (any_view s)) \<le> 2 ^ kLog2Ring"
  shows "(\<exists>ls' s'. lts_run any_code s ls' s' \<and> list_all quiet ls' \<and> offers any_code s') \<longleftrightarrow> \<not> any_missed s"
proof -
  obtain c where c: "s0 = any_init c" "c = LockFreeQueue \<longleftrightarrow> nm = ''LockFreeQueue''" using make_class [OF assms(1)] by blast
  then have "any_fits c (size (sp_queued (any_view s)))" using assms(5) by (auto simp: any_fits_def)
  moreover have "any_linv c s" using anyl.waiting.run_inv [of c ls s] assms(2) c(1) by blast
  ultimately show ?thesis using anyk.run_leads_iff assms(3,4) by blast
qed

text \<open>The run in which \<open>run\<close> sleeps for ever: there nothing is offered any more.\<close>

lemma any_lost_run: "lts_run any_step (any_init MutexQueue) mq_lost_labels (A_mutex mq_lost_state)"
proof -
  have "lts_run any_step (A_mutex (mq_init :: nat mq)) ls (A_mutex s)" if "lts_run mq_step mq_init ls s" for ls and s :: "nat mq"
    using that by induction (auto intro: lts_run.intros any_step.mutex)
  from this [OF mq_lost_run] show ?thesis by simp
qed

theorem scheduler_stuck_iff_missed_witness:
  "\<not> (\<exists>ls' s'. lts_run any_code (A_mutex mq_lost_state) ls' s' \<and> list_all quiet ls' \<and> offers any_code s')"
proof -
  have "sp_phase (any_view (A_mutex mq_lost_state)) = Some 1" "any_missed (A_mutex mq_lost_state)"
    by (simp_all add: mq_view_def mq_lost_state_def missed_def)
  with scheduler_stuck_iff_missed [OF make_scheduler_of(1) any_lost_run] show ?thesis by simp
qed

text \<open>C2. A program that submits tasks and calls \<open>run\<close>, the tasks spawning finitely many others, can be
  completed on any of the schedulers whatever the interleaving so far: from every state it can get
  into some continuation carries out all its commands, every call of \<open>run\<close> returns, and exactly
  the tasks of the program have been executed. The program ends with a call of \<open>run\<close>, each call has a
  worker, and for the lock-free class the ring holds all the tasks of each round. The continuation is one of the code,
  without spurious wake-ups, unless \<open>run\<close> of the mutex class has already missed its last notification.\<close>

theorem program_can_complete:
  assumes "make_scheduler nm = Some s0" and "is_tree body tree" and "ends_with_run cs"
    and "program_ok (\<lambda>n. nm = ''LockFreeQueue'' \<longrightarrow> n \<le> 2 ^ kLog2Ring) tree 0 cs"
    and "lts_run (client_step any_step body) (s0, client_start cs) ls x"
  shows "\<exists>ls' y. lts_run (client_step (if any_missed (fst x) then any_step else any_code) body) x ls' y \<and> cl_todo (snd y) = []
    \<and> tally finished (ls @ ls') = trees tree (mset (submits cs)) \<and> count_list (ls @ ls') SRunRet = runs cs"
proof -
  obtain c where c: "s0 = any_init c" "c = LockFreeQueue \<longleftrightarrow> nm = ''LockFreeQueue''" using make_class [OF assms(1)] by blast
  have "any_fits c = (\<lambda>n. nm = ''LockFreeQueue'' \<longrightarrow> n \<le> 2 ^ kLog2Ring)" by (simp add: any_fits_def c(2) fun_eq_iff)
  with any_program_finish [OF assms(2) _ assms(3), of c] assms(4,5) c(1) show ?thesis unfolding steps_needed_def by metis
qed

text \<open>Task 7 spawns 8 and 9; one of the workers has taken it and has not submitted them yet.\<close>

definition pair_body :: "nat \<Rightarrow> nat list" where
  "pair_body t = (if t = 7 then [8, 9] else [])"

definition pair_tree :: "nat \<Rightarrow> nat multiset" where
  "pair_tree t = (if t = 7 then {#7, 8, 9#} else {#t#})"

definition pair_program :: "nat command list" where
  "pair_program = [Submit_task 7, Call_run 2, Submit_task 5, Call_run 1]"

definition mq_pair :: "nat slabel list \<times> nat any_sched \<times> nat client" where
  "mq_pair = play (client_do any_do pair_body) (replicate 20 Main @ replicate 8 (Worker 0)) (any_init MutexQueue, client_start pair_program)"

theorem program_can_complete_witness:
  "SRunRet \<notin> set (fst mq_pair)
   \<and> (\<exists>ls' y. lts_run (client_step any_code pair_body) (snd mq_pair) ls' y \<and> tally finished (fst mq_pair @ ls') = {#5, 7, 8, 9#})"
proof -
  have tree: "is_tree pair_body pair_tree" by (simp add: is_tree_def pair_body_def pair_tree_def)
  have ends: "ends_with_run pair_program" by (simp add: ends_with_run_def pair_program_def)
  have ok: "program_ok (\<lambda>n. ''MutexQueue'' = ''LockFreeQueue'' \<longrightarrow> n \<le> 2 ^ kLog2Ring) pair_tree 0 pair_program"
    by (simp add: pair_program_def)
  have run: "lts_run (client_step any_step pair_body) (any_init MutexQueue, client_start pair_program) (fst mq_pair) (snd mq_pair)"
    unfolding mq_pair_def by (rule client_play [OF any_do_step])
  have "list_all (\<lambda>l. l \<noteq> SRunRet) (fst mq_pair)" by code_simp
  then have "SRunRet \<notin> set (fst mq_pair)" by (auto simp: list_all_iff)
  moreover have "trees pair_tree (mset (submits pair_program)) = {#5, 7, 8, 9#}"
    by (simp add: pair_program_def pair_tree_def add_mset_commute)
  moreover have "\<not> any_missed (fst (snd mq_pair))" by code_simp
  ultimately show ?thesis
    using program_can_complete [OF make_scheduler_of(1) tree ends ok run] by auto
qed

end
