(* ===== verification/Graph_Progress.thy ===== *)
theory Graph_Progress
  imports Graph_Runs Live_Clients
begin

text \<open>
  \<^verbatim>\<open>TaskGraph::execute\<close> can always come to its end: in every state of an execution on any of the
  schedulers, with at least one worker, the scheduler's own steps or the graph's code go on, and
  each step of the graph's code brings the return closer. The graph takes part in the calls and
  returns of \<open>submit\<close>, so this rests on the contract \<open>calling_scheduler\<close>.
\<close>

section \<open>Who is inside submit\<close>

fun driver_waits :: "driver \<Rightarrow> bool" where
  "driver_waits (D_wait i) = True"
| "driver_waits d = False"

fun body_waits :: "body \<Rightarrow> bool" where
  "body_waits (B_wait n i) = True"
| "body_waits b = False"

definition graph_waits :: "'s gsys \<Rightarrow> thread \<Rightarrow> bool" where
  "graph_waits s = calls_of (driver_waits (gs_driver s)) body_waits (gs_bodies s)"

lemma body_step_waits: "body_step g b = Some (l, g', b') \<Longrightarrow> \<not> body_waits b \<and> \<not> body_waits b'"
  by (cases b) (auto simp: Let_def split: prod.splits if_splits)

lemma graph_waits_set:
  "at_body s w b \<Longrightarrow> gs_bodies s' = gs_bodies s \<Longrightarrow> gs_driver s' = gs_driver s \<Longrightarrow>
    graph_waits (set_body s' w b') = (graph_waits s)(Worker w := body_waits b')"
  by (simp add: graph_waits_def set_body_def at_body_def calls_of_update)

lemma graph_waits_driver: "graph_waits (s\<lparr>gs_driver := d\<rparr>) = (graph_waits s)(Main := driver_waits d)"
  using calls_of_main by (simp add: graph_waits_def)

lemma graph_waits_at: "at_body s w b \<Longrightarrow> graph_waits s (Worker w) = body_waits b"
  by (simp add: graph_waits_def at_body_def)

lemma graph_waits_simps [simp]:
  "graph_waits s Main = driver_waits (gs_driver s)"
  "graph_waits (s\<lparr>gs_sched := a\<rparr>) = graph_waits s" "graph_waits (s\<lparr>gs_graph := g\<rparr>) = graph_waits s"
  by (simp_all add: graph_waits_def)

section \<open>What is left to do\<close>

definition node_work :: "graph \<Rightarrow> nat \<Rightarrow> nat" where
  "node_work g n = 3 * length (succs g n) + 5"

fun body_work :: "(nat \<Rightarrow> nat list) \<Rightarrow> body \<Rightarrow> nat" where
  "body_work sc B_none = 0"
| "body_work sc (B_begin n) = 3 * length (sc n) + 4"
| "body_work sc (B_fn n) = 3 * length (sc n) + 3"
| "body_work sc (B_loop n i) = 3 * (length (sc n) - i) + 2"
| "body_work sc (B_ready n i) = 3 * (length (sc n) - i) + 1"
| "body_work sc (B_wait n i) = 3 * (length (sc n) - i)"
| "body_work sc (B_end n) = 1"

fun driver_work :: "nat \<Rightarrow> driver \<Rightarrow> nat" where
  "driver_work n D_idle = 2 * n + 3"
| "driver_work n (D_seed i) = 2 * (n - i) + 2"
| "driver_work n (D_wait i) = 2 * (n - i) + 1"
| "driver_work n D_run = 1"
| "driver_work n d = 0"

text \<open>\<open>F\<close> are the nodes that have left the loop over their successors.\<close>

definition graph_work :: "graph \<Rightarrow> nat multiset \<Rightarrow> 's gsys \<Rightarrow> nat" where
  "graph_work g F s = driver_work (tg_size g) (gs_driver s) + sum_over (body_work (succs g)) (gs_bodies s)
     + (\<Sum>n\<in>#nodes_of g - (F + sum_over body_live (gs_bodies s)). node_work g n)"

lemma body_work_step:
  assumes "body_ok (succs g) b" and "succs h = succs g" and "body_step h b = Some (l, h', b')"
  shows "body_work (succs g) b' < body_work (succs g) b \<and> body_live b' + marked_nodes l = body_live b"
  using assms by (cases b) (auto simp: Let_def split: prod.splits if_splits)

lemma sum_work_less:
  assumes "w < length bs" and "body_work sc b' < body_work sc (bs ! w)"
  shows "sum_over (body_work sc) (bs[w := b']) < sum_over (body_work sc) bs"
  using sum_over_update [OF assms(1), of "body_work sc" b'] assms(2) by linarith

lemma graph_work_body:
  assumes at: "at_body s w b" and same: "gs_bodies s' = (gs_bodies s)[w := b']" "gs_driver s' = gs_driver s"
    and less: "body_work (succs g) b' < body_work (succs g) b" and live: "body_live b' + F' = body_live b + F"
  shows "graph_work g F' s' < graph_work g F s"
proof -
  have w: "w < length (gs_bodies s)" "gs_bodies s ! w = b" using at by (auto simp: at_body_def)
  have "F' + sum_over body_live ((gs_bodies s)[w := b']) = F + sum_over body_live (gs_bodies s)"
    using sum_over_exchange_plus [of w "gs_bodies s" body_live b' F' F "{#}"] w live by simp
  with sum_work_less [OF w(1), of "succs g" b'] less same w(2) show ?thesis by (simp add: graph_work_def)
qed

text \<open>A node's task begins: it was not among the nodes begun or done.\<close>

lemma graph_work_start:
  assumes at: "at_body s w B_none" and same: "gs_bodies s' = (gs_bodies s)[w := B_begin n]" "gs_driver s' = gs_driver s"
    and new: "F + sum_over body_live (gs_bodies s') \<subseteq># nodes_of g"
  shows "graph_work g F s' < graph_work g F s"
proof -
  have w: "w < length (gs_bodies s)" "gs_bodies s ! w = B_none" using at by (auto simp: at_body_def)
  let ?L = "F + sum_over body_live (gs_bodies s)"
  have live: "sum_over body_live (gs_bodies s') = add_mset n (sum_over body_live (gs_bodies s))"
    using sum_over_update_add [OF w(1), of body_live "B_begin n"] w(2) same(1) by simp
  have work: "sum_over (body_work (succs g)) (gs_bodies s') = sum_over (body_work (succs g)) (gs_bodies s) + (3 * length (succs g n) + 4)"
    using sum_over_update_add [OF w(1), of "body_work (succs g)" "B_begin n"] w(2) same(1) by simp
  have "add_mset n ?L \<subseteq># nodes_of g" using new live by simp
  then obtain R where R: "nodes_of g = add_mset n ?L + R" using mset_subset_eq_exists_conv by blast
  then have "nodes_of g - ?L = add_mset n R" "nodes_of g - (F + sum_over body_live (gs_bodies s')) = R"
    using live by simp_all
  then show ?thesis using work same(2) by (simp add: graph_work_def node_work_def)
qed

lemma graph_work_driver:
  assumes "gs_bodies s' = gs_bodies s \<or> (\<exists>k. gs_bodies s = [] \<and> gs_bodies s' = replicate k B_none)"
    and "driver_work (tg_size g) (gs_driver s') < driver_work (tg_size g) (gs_driver s)"
  shows "graph_work g F s' < graph_work g F s"
proof -
  have "sum_over (body_work (succs g)) (replicate k B_none) = 0" "sum_over body_live (replicate k B_none) = {#}" for k
    by (simp_all add: sum_over_replicate_zero)
  with assms show ?thesis by (auto simp: graph_work_def)
qed

lemma exec_facts:
  assumes "exec_inv g B E F s"
  shows "tg_size (gs_graph s) = tg_size g" "succs (gs_graph s) = succs g"
    and "sp_running (gs_sched s) = tasks_of (gs_bodies s)" "seed_bound (tg_size g) (gs_driver s)"
    and "gs_driver s = D_run \<Longrightarrow> sp_phase (gs_sched s) = Some (gs_k s) \<and> length (gs_bodies s) = gs_k s"
    and "gs_driver s \<noteq> D_run \<Longrightarrow> sp_phase (gs_sched s) = None \<and> gs_bodies s = []"
    and "at_body s w b \<Longrightarrow> body_ok (succs g) b"
    and "F + sum_over body_live (gs_bodies s) \<subseteq># nodes_of g"
    and "size (sp_queued (gs_sched s)) \<le> tg_size g"
proof -
  have acct: "acct g (seeds g (gs_driver s) + sp_queued (gs_sched s)) (gs_bodies s) F (node_deps (gs_graph s))"
    using assms by (simp add: exec_inv_def)
  show "F + sum_over body_live (gs_bodies s) \<subseteq># nodes_of g"
    using acct_live [OF acct] released_nodes by (rule subset_mset.order_trans)
  have "sp_queued (gs_sched s) \<subseteq># mset_set (released g (delivered (succs g) F (gs_bodies s)))"
    using acct unfolding acct_def by (metis mset_subset_eq_add_left mset_subset_eq_add_right subset_mset.order_trans)
  then have "sp_queued (gs_sched s) \<subseteq># nodes_of g" using released_nodes by (rule subset_mset.order_trans)
  from size_mset_mono [OF this] show "size (sp_queued (gs_sched s)) \<le> tg_size g" by (simp add: nodes_of_def)
qed (use assms in \<open>auto simp: exec_inv_def at_body_def list_all_length\<close>)

section \<open>The next step\<close>

lemma leads_until_return:
  assumes "leads step Q a"
  shows "\<exists>ls b. lts_run step a ls b \<and> list_all (\<lambda>l. l = STau) ls \<and> (Q b \<or> (\<exists>th b'. step b (SRet th) b'))"
  using assms
proof induction
  case (leads_here a)
  then show ?case by (intro exI [of _ "[]"] exI [of _ a]) (simp add: lts_run.run_nil)
next
  case (leads_on a l a')
  then obtain ls b where ih: "lts_run step a' ls b" "list_all (\<lambda>l. l = STau) ls" "Q b \<or> (\<exists>th b'. step b (SRet th) b')" by blast
  show ?case
  proof (cases l)
    case STau
    with ih lts_run_Cons [OF _ ih(1), of a l] leads_on.hyps(1) show ?thesis
      by (intro exI [of _ "l # ls"] exI [of _ b]) simp
  next
    case (SRet th)
    with leads_on.hyps(1) show ?thesis by (intro exI [of _ "[]"] exI [of _ a]) (auto simp: lts_run.run_nil)
  qed (use leads_on.hyps(2) in auto)
qed

lemma sched_steps:
  assumes "lts_run step a ls b" and "list_all (\<lambda>l. l = STau) ls" and "gs_sched s = a"
  shows "\<exists>gs. lts_run (tg_step step) s gs (s\<lparr>gs_sched := b\<rparr>) \<and> list_all (\<lambda>l. l = GTau) gs"
  using assms(1,2)
proof (induction rule: lts_run.induct)
  case run_nil
  then show ?case using assms(3) by (intro exI [of _ "[]"]) (simp add: lts_run.run_nil flip: assms(3))
next
  case (run_snoc ls b l b')
  then obtain gs where gs: "lts_run (tg_step step) s gs (s\<lparr>gs_sched := b\<rparr>)" "list_all (\<lambda>l. l = GTau) gs" and "l = STau" by auto
  with run_snoc.hyps(2) have "tg_step step (s\<lparr>gs_sched := b\<rparr>) GTau (s\<lparr>gs_sched := b'\<rparr>)"
    using tg_step.sched [of step "s\<lparr>gs_sched := b\<rparr>" b'] by simp
  from lts_run.run_snoc [OF gs(1) this] gs(2) show ?case by (intro exI [of _ "gs @ [GTau]"]) simp
qed

locale calling_node_scheduler = node_scheduler init step inv view + calling_scheduler init step inv view fits lost calls
  for init :: 's and step :: "'s \<Rightarrow> nat slabel \<Rightarrow> 's \<Rightarrow> bool"
    and inv :: "'s \<Rightarrow> bool" and view :: "'s \<Rightarrow> nat sched_state" and fits and lost and calls

context calling_node_scheduler begin

text \<open>An execution under way, with its books and the agreement on who is inside \<open>submit\<close>.\<close>

definition under_way :: "graph \<Rightarrow> nat multiset \<Rightarrow> nat multiset \<Rightarrow> nat multiset \<Rightarrow> 's gsys \<Rightarrow> bool" where
  "under_way g B E F s \<longleftrightarrow> inv (gs_sched s) \<and> spec_wf (view (gs_sched s)) \<and> exec_inv g B E F (tg_abs view s)
     \<and> graph_waits s = calls (gs_sched s) \<and> 0 < gs_k s \<and> fits (tg_size g)"

lemma under_way_tau:
  assumes "lts_run step a ls b" and "list_all (\<lambda>l. l = STau) ls" and "inv a"
  shows "inv b \<and> view b = view a \<and> calls b = calls a"
  using assms(1,2)
proof (induction rule: lts_run.induct)
  case (run_snoc ls b l b')
  then have ih: "inv b" "view b = view a" "calls b = calls a" and l: "l = STau" by auto
  have "view b' = view b" using step_spec [OF ih(1) run_snoc.hyps(2)] l by (simp add: sched_spec_simps)
  moreover have "calls b' = calls b" using calls_ok [OF ih(1) run_snoc.hyps(2)] l by (simp add: calls_step_def)
  ultimately show ?case using ih step_inv [OF ih(1) run_snoc.hyps(2)] by simp
qed (use assms(3) in simp)

lemma waits_step:
  assumes way: "under_way g B E F s" and step: "tg_step step s l s'"
  shows "graph_waits s' = calls (gs_sched s')"
proof -
  have inv: "inv (gs_sched s)" and waits: "graph_waits s = calls (gs_sched s)" and ex: "exec_inv g B E F (tg_abs view s)"
    using way by (auto simp: under_way_def)
  note facts = exec_facts [OF ex, simplified]
  note ok = calls_ok [OF inv]
  show ?thesis
    using step
  proof cases
    case (sched a)
    with ok [of STau a] waits show ?thesis by (simp add: calls_step_def)
  next
    case exec
    with waits show ?thesis using calls_of_main by (fastforce simp: graph_waits_def)
  next
    case (seed_skip i)
    with waits show ?thesis by (simp add: graph_waits_def)
  next
    case (seed_call i a)
    with ok [OF seed_call(6)] waits show ?thesis by (simp add: calls_step_def graph_waits_driver)
  next
    case (seed_ret i a)
    with ok [OF seed_ret(4)] waits show ?thesis by (simp add: calls_step_def graph_waits_driver)
  next
    case (run i a)
    have "gs_bodies s = []" using facts(6) run(3) by simp
    moreover have "calls_of False body_waits (replicate (gs_k s) B_none) = (\<lambda>th. th = Main \<and> False)"
      by (rule calls_of_none) auto
    ultimately show ?thesis using ok [OF run(5)] waits run(1-3) by (simp add: calls_step_def graph_waits_def calls_of_Nil)
  next
    case (return a)
    have "tasks_of (gs_bodies s) w = None" for w
      using step_spec [OF inv return(4)] facts(3) by (auto simp: sched_spec_simps)
    then have "\<not> body_waits b" if "b \<in> set (gs_bodies s)" for b
      using that by (force simp: tasks_of_def in_set_conv_nth body_task_None split: if_splits)
    then have "calls_of False body_waits (gs_bodies s) = (\<lambda>th. th = Main \<and> False)" by (rule calls_of_none)
    then show ?thesis using ok [OF return(4)] waits return(1-3) by (simp add: calls_step_def graph_waits_def calls_of_Nil)
  next
    case (fail a)
    have "tasks_of (gs_bodies s) w = None" for w
      using step_spec [OF inv fail(4)] facts(3) by (auto simp: sched_spec_simps)
    then have "\<not> body_waits b" if "b \<in> set (gs_bodies s)" for b
      using that by (force simp: tasks_of_def in_set_conv_nth body_task_None split: if_splits)
    then have "calls_of False body_waits (gs_bodies s) = (\<lambda>th. th = Main \<and> False)" by (rule calls_of_none)
    then show ?thesis using ok [OF fail(4)] waits fail(1-3) by (simp add: calls_step_def graph_waits_def calls_of_Nil)
  next
    case (start w n a)
    with ok [OF start(4)] waits graph_waits_set [OF start(3), of "s\<lparr>gs_sched := a\<rparr>" "B_begin n"] graph_waits_at [OF start(3)]
    show ?thesis by (auto simp: calls_step_def set_body_def fun_upd_idem_iff)
  next
    case (body w b g' b')
    with waits body_step_waits [OF body(3)] graph_waits_set [OF body(2), of "s\<lparr>gs_graph := g'\<rparr>" b'] graph_waits_at [OF body(2)]
    show ?thesis by (auto simp: set_body_def fun_upd_idem_iff)
  next
    case (call w n i a)
    with ok [OF call(4)] waits graph_waits_set [OF call(3), of "s\<lparr>gs_sched := a\<rparr>" "B_wait n i"]
    show ?thesis by (auto simp: calls_step_def set_body_def fun_upd_idem_iff)
  next
    case (ret w n i a)
    with ok [OF ret(4)] waits graph_waits_set [OF ret(3), of "s\<lparr>gs_sched := a\<rparr>" "B_loop n (Suc i)"]
    show ?thesis by (auto simp: calls_step_def set_body_def fun_upd_idem_iff)
  next
    case (finish w n a)
    with ok [OF finish(4)] waits graph_waits_set [OF finish(3), of "s\<lparr>gs_sched := a\<rparr>" B_none] graph_waits_at [OF finish(3)]
    show ?thesis by (auto simp: calls_step_def set_body_def fun_upd_idem_iff)
  qed
qed

lemma under_way_step:
  assumes way: "under_way g B E F s" and ok: "graph_ok g" and small: "\<forall>m < tg_size g. indeg g m < 2 ^ 32"
    and step: "tg_step step s l s'"
  shows "under_way g (B + begun_nodes l) (E + ended_nodes l) (F + marked_nodes l) s'"
proof -
  have inv: "inv (gs_sched s) \<and> spec_wf (view (gs_sched s))" and ex: "exec_inv g B E F (tg_abs view s)"
    using way by (auto simp: under_way_def)
  have "tg_step sched_spec (tg_abs view s) l (tg_abs view s') \<and> inv (gs_sched s') \<and> spec_wf (view (gs_sched s'))"
    using tg_step_abs [OF step, of "\<lambda>a. inv a \<and> spec_wf (view a)" sched_spec view] inv wf_step step_spec by blast
  moreover have "gs_k s' = gs_k s" using step by cases (simp_all add: set_body_def)
  ultimately show ?thesis
    using exec_step [OF ex ok small] waits_step [OF way step] way by (auto simp: under_way_def)
qed

lemma under_way_sched:
  assumes "under_way g B E F s" and "inv b \<and> view b = view (gs_sched s) \<and> calls b = calls (gs_sched s)"
  shows "under_way g B E F (s\<lparr>gs_sched := b\<rparr>)"
proof -
  have same: "tg_abs view (s\<lparr>gs_sched := b\<rparr>) = tg_abs view s" using assms(2) by (simp add: tg_abs_def)
  show ?thesis using assms unfolding under_way_def same by simp
qed

definition can_go :: "graph \<Rightarrow> nat multiset \<Rightarrow> 's gsys \<Rightarrow> bool" where
  "can_go g F s \<longleftrightarrow> (\<exists>l s'. tg_step step s l s' \<and> \<not> lost (gs_sched s')
     \<and> (l = GReturn \<or> l = GFail \<or> graph_work g (F + marked_nodes l) s' < graph_work g F s))"

lemma can_go_intro:
  "tg_step step s l s' \<Longrightarrow> \<not> lost (gs_sched s') \<Longrightarrow> graph_work g (F + marked_nodes l) s' < graph_work g F s \<Longrightarrow> can_go g F s"
  unfolding can_go_def by blast

text \<open>The graph follows when \<open>submit\<close> returns, and takes what the scheduler offers.\<close>

lemma ret_goes:
  assumes way: "under_way g B E F s" and ret: "step (gs_sched s) (SRet th) a"
  shows "can_go g F s"
proof -
  have inv: "inv (gs_sched s)" and waits: "graph_waits s = calls (gs_sched s)" and ex: "exec_inv g B E F (tg_abs view s)"
    using way by (auto simp: under_way_def)
  note facts = exec_facts [OF ex, simplified tg_abs_simps tg_abs_updates]
  have found: "\<not> lost a" by (rule lost_inside [OF inv ret]) simp
  have calling: "graph_waits s th" using calls_ok [OF inv ret] waits by (simp add: calls_step_def)
  show ?thesis
  proof (cases th)
    case Main
    with calling obtain i where i: "gs_driver s = D_wait i" by (cases "gs_driver s") auto
    then have "i < tg_size g" using facts(4) by simp
    then have "graph_work g F (s\<lparr>gs_driver := D_seed (Suc i), gs_sched := a\<rparr>) < graph_work g F s"
      using i by (intro graph_work_driver) auto
    with tg_step.seed_ret [OF i, of step a] ret Main found show ?thesis
      by (intro can_go_intro [where l = GTau and s' = "s\<lparr>gs_driver := D_seed (Suc i), gs_sched := a\<rparr>"]) simp_all
  next
    case (Worker w)
    with calling have "w < length (gs_bodies s)" "body_waits (gs_bodies s ! w)" by (simp_all add: graph_waits_def)
    then obtain n i where at: "at_body s w (B_wait n i)" by (cases "gs_bodies s ! w") (auto simp: at_body_def)
    let ?s = "set_body (s\<lparr>gs_sched := a\<rparr>) w (B_loop n (Suc i))"
    have "i < length (succs g n)" using facts(7) [OF at] by simp
    then have "graph_work g F ?s < graph_work g F s"
      by (intro graph_work_body [OF at]) (auto simp: set_body_def)
    with tg_step.ret [OF at, of step a] ret Worker found show ?thesis
      by (intro can_go_intro [where l = GTau and s' = ?s]) (simp_all add: set_body_def)
  qed
qed

lemma offers_goes:
  assumes way: "under_way g B E F s" and ok: "graph_ok g" and small: "\<forall>m < tg_size g. indeg g m < 2 ^ 32"
    and run: "gs_driver s = D_run" and "offers step (gs_sched s)"
    and outside: "\<And>w b. at_body s w b \<Longrightarrow> body_step (gs_graph s) b = None"
  shows "can_go g F s"
proof -
  have inv: "inv (gs_sched s)" and waits: "graph_waits s = calls (gs_sched s)" and ex: "exec_inv g B E F (tg_abs view s)"
    using way by (auto simp: under_way_def)
  note facts = exec_facts [OF ex, simplified tg_abs_simps tg_abs_updates]
  from assms(5) consider (ret) a where "step (gs_sched s) SRunRet a" | (start) w t a where "step (gs_sched s) (SStart w t) a"
    | (user) w t where "in_user_code step (gs_sched s) w t" by (auto simp: offers_def)
  then show ?thesis
  proof cases
    case ret
    have found: "\<not> lost a" by (rule lost_inside [OF inv ret]) simp
    show ?thesis
    proof (cases "gr_remaining (gs_graph s) = 0")
      case True
      from tg_step.return [where sstep = step, OF run ret True] found show ?thesis unfolding can_go_def
        by (intro exI [of _ GReturn] exI [of _ "s\<lparr>gs_driver := D_done, gs_bodies := [], gs_sched := a\<rparr>"]) simp
    next
      case False
      from tg_step.fail [where sstep = step, OF run ret False] found show ?thesis unfolding can_go_def
        by (intro exI [of _ GFail] exI [of _ "s\<lparr>gs_driver := D_failed, gs_bodies := [], gs_sched := a\<rparr>"]) simp
    qed
  next
    case start
    have "sp_phase (view (gs_sched s)) = Some (gs_k s)" "length (gs_bodies s) = gs_k s" using facts(5) run by auto
    then have w: "w < length (gs_bodies s)" "sp_running (view (gs_sched s)) w = None"
      using step_spec [OF inv start] by (auto simp: sched_spec_simps)
    then have at: "at_body s w B_none" using facts(3) by (simp add: tasks_of_def body_task_None at_body_def)
    let ?s = "set_body (s\<lparr>gs_sched := a\<rparr>) w (B_begin t)"
    have st: "tg_step step s GTau ?s" by (rule tg_step.start [where sstep = step, OF at start])
    have "exec_inv g B E F (tg_abs view ?s)" using under_way_step [OF way ok small st] by (simp add: under_way_def)
    from exec_facts(8) [OF this] have "graph_work g F ?s < graph_work g F s"
      by (intro graph_work_start [OF at, of ?s t]) (simp_all add: set_body_def tg_abs_def)
    moreover have "\<not> lost a" by (rule lost_inside [OF inv start]) simp
    ultimately show ?thesis using st by (intro can_go_intro [where l = GTau and s' = ?s]) (simp_all add: set_body_def)
  next
    case user
    then obtain a where fin: "step (gs_sched s) (SFinish w t) a" and call: "\<And>u. \<exists>a. step (gs_sched s) (SCall (Worker w) u) a"
      by (auto simp: in_user_code_def)
    have "sp_running (view (gs_sched s)) w = Some t" using step_spec [OF inv fin] by (auto simp: sched_spec_simps)
    then have w: "w < length (gs_bodies s)" "body_task (gs_bodies s ! w) = Some t"
      using facts(3) by (auto simp: tasks_of_def split: if_splits)
    then have at: "at_body s w (gs_bodies s ! w)" by (simp add: at_body_def)
    have "\<not> calls (gs_sched s) (Worker w)" using calls_ok [OF inv fin] by (simp add: calls_step_def)
    then have "\<not> body_waits (gs_bodies s ! w)" using graph_waits_at [OF at] waits by simp
    with w(2) outside [OF at] consider (ready) n i where "gs_bodies s ! w = B_ready n i" | (ended) "gs_bodies s ! w = B_end t"
      by (cases "gs_bodies s ! w") (auto simp: Let_def split: prod.splits if_splits)
    then show ?thesis
    proof cases
      case ready
      then have at': "at_body s w (B_ready n i)" using at by simp
      obtain a' where a': "step (gs_sched s) (SCall (Worker w) (succs (gs_graph s) n ! i)) a'" using call by blast
      note st = tg_step.call [where sstep = step, OF at' a']
      have found: "\<not> lost a'" by (rule lost_inside [OF inv a']) simp
      let ?s = "set_body (s\<lparr>gs_sched := a'\<rparr>) w (B_wait n i)"
      have "graph_work g F ?s < graph_work g F s" by (rule graph_work_body [OF at', where b' = "B_wait n i"]) (simp_all add: set_body_def)
      with st found show ?thesis by (intro can_go_intro [where l = GTau and s' = ?s]) (simp_all add: set_body_def)
    next
      case ended
      then have at': "at_body s w (B_end t)" using at by simp
      note st = tg_step.finish [where sstep = step, OF at' fin]
      have found: "\<not> lost a" by (rule lost_inside [OF inv fin]) simp
      let ?s = "set_body (s\<lparr>gs_sched := a\<rparr>) w B_none"
      have "graph_work g F ?s < graph_work g F s" by (rule graph_work_body [OF at', where b' = B_none]) (simp_all add: set_body_def)
      with st found show ?thesis by (intro can_go_intro [where l = GTau and s' = ?s]) (simp_all add: set_body_def)
    qed
  qed
qed

lemma seed_goes:
  assumes way: "under_way g B E F s" and driver: "gs_driver s = D_seed i" and "i = tg_size g \<or> node_deps (gs_graph s) i = 0"
    and "ready step (gs_sched s)"
  shows "can_go g F s"
proof -
  have ex: "exec_inv g B E F (tg_abs view s)" and inv: "inv (gs_sched s)" using way by (auto simp: under_way_def)
  note facts = exec_facts [OF ex, simplified tg_abs_simps tg_abs_updates]
  show ?thesis
  proof (cases "i = tg_size g")
    case True
    obtain a where a: "step (gs_sched s) (SRunCall (gs_k s)) a" using assms(4) by (auto simp: ready_def)
    let ?s = "s\<lparr>gs_driver := D_run, gs_bodies := replicate (gs_k s) B_none, gs_sched := a\<rparr>"
    have "tg_step step s GTau ?s"
      by (rule tg_step.run [where sstep = step, OF driver]) (use True facts(1) a in simp_all)
    moreover have "graph_work g F ?s < graph_work g F s"
      by (rule graph_work_driver) (use driver facts(6) in auto)
    moreover have "\<not> lost a" by (rule lost_inside [OF inv a]) simp
    ultimately show ?thesis by (intro can_go_intro [where l = GTau and s' = ?s]) simp_all
  next
    case False
    then have i: "i < tg_size (gs_graph s)" "node_deps (gs_graph s) i = 0" using facts(1,4) driver assms(3) by auto
    obtain a where a: "step (gs_sched s) (SCall Main i) a" using assms(4) by (auto simp: ready_def)
    let ?s = "s\<lparr>gs_driver := D_wait i, gs_sched := a\<rparr>"
    have "graph_work g F ?s < graph_work g F s" by (rule graph_work_driver) (use driver in auto)
    moreover have "\<not> lost a" by (rule lost_inside [OF inv a]) simp
    ultimately show ?thesis using tg_step.seed_call [where sstep = step, OF driver i a]
      by (intro can_go_intro [where l = GTau and s' = ?s]) simp_all
  qed
qed

text \<open>A step of the graph's own code, if one is possible; otherwise the scheduler's steps lead to the
  next.\<close>

lemma wait_goes:
  assumes way: "under_way g B E F s" and ok: "graph_ok g" and small: "\<forall>m < tg_size g. indeg g m < 2 ^ 32"
    and "leads step Q (gs_sched s)"
    and then_goes: "\<And>a. inv a \<Longrightarrow> Q a \<Longrightarrow> under_way g B E F (s\<lparr>gs_sched := a\<rparr>) \<Longrightarrow> can_go g F (s\<lparr>gs_sched := a\<rparr>)"
  shows "\<exists>gs s1. lts_run (tg_step step) s gs s1 \<and> list_all (\<lambda>l. l = GTau) gs \<and> graph_work g F s1 = graph_work g F s
    \<and> gs_driver s1 = gs_driver s \<and> under_way g B E F s1 \<and> can_go g F s1"
proof -
  obtain ls b where ls: "lts_run step (gs_sched s) ls b" "list_all (\<lambda>l. l = STau) ls" "Q b \<or> (\<exists>th b'. step b (SRet th) b')"
    using leads_until_return [OF assms(4)] by blast
  have inv: "inv (gs_sched s)" using way by (simp add: under_way_def)
  obtain gs where gs: "lts_run (tg_step step) s gs (s\<lparr>gs_sched := b\<rparr>)" "list_all (\<lambda>l. l = GTau) gs"
    using sched_steps [OF ls(1,2) refl] by blast
  note same = under_way_tau [OF ls(1,2) inv]
  have way': "under_way g B E F (s\<lparr>gs_sched := b\<rparr>)" by (rule under_way_sched [OF way same])
  have "can_go g F (s\<lparr>gs_sched := b\<rparr>)"
    using ls(3) then_goes [of b] same way' ret_goes [OF way'] by auto
  with gs way' show ?thesis by (intro exI [of _ gs] exI [of _ "s\<lparr>gs_sched := b\<rparr>"]) (simp add: graph_work_def)
qed

lemma execution_goes:
  assumes way: "under_way g B E F s" and ok: "graph_ok g" and small: "\<forall>m < tg_size g. indeg g m < 2 ^ 32"
    and not_over: "\<not> over (gs_driver s)" and here: "\<not> lost (gs_sched s)"
  shows "\<exists>gs s1. lts_run (tg_step step) s gs s1 \<and> list_all (\<lambda>l. l = GTau) gs \<and> graph_work g F s1 = graph_work g F s
    \<and> gs_driver s1 = gs_driver s \<and> under_way g B E F s1 \<and> can_go g F s1"
proof -
  have inv: "inv (gs_sched s)" and ex: "exec_inv g B E F (tg_abs view s)" and k: "0 < gs_k s" and room: "fits (tg_size g)"
    using way by (auto simp: under_way_def)
  note facts = exec_facts [OF ex, simplified tg_abs_simps tg_abs_updates]
  have fits: "fits (size (sp_queued (view (gs_sched s))))" using fits_less [OF room] facts(9) by simp
  have go: ?thesis if "can_go g F s"
    using that way by (intro exI [of _ "[]"] exI [of _ s]) (simp add: lts_run.run_nil)
  have idle: "leads step (ready step) (gs_sched s)" if "gs_driver s \<noteq> D_run"
    by (rule idle_leads [OF inv facts(6) [OF that, THEN conjunct1] fits])
  show ?thesis
  proof (cases "gs_driver s")
    case D_idle
    let ?s = "s\<lparr>gs_graph := exec_begin (gs_graph s), gs_driver := D_seed 0\<rparr>"
    have "graph_work g F ?s < graph_work g F s" by (rule graph_work_driver) (use D_idle in auto)
    with tg_step.exec [where sstep = step, OF D_idle] here show ?thesis
      by (intro go can_go_intro [where l = GTau and s' = ?s]) simp_all
  next
    case (D_seed i)
    show ?thesis
    proof (cases "i = tg_size g \<or> node_deps (gs_graph s) i = 0")
      case True
      then show ?thesis using D_seed by (intro wait_goes [OF way ok small idle]) (auto intro!: seed_goes)
    next
      case False
      let ?s = "s\<lparr>gs_driver := D_seed (Suc i)\<rparr>"
      have i: "i < tg_size g" using facts(4) D_seed False by simp
      then have "graph_work g F ?s < graph_work g F s" by (intro graph_work_driver) (use D_seed in auto)
      moreover have "tg_step step s GTau ?s" using D_seed False i facts(1) by (intro tg_step.seed_skip) auto
      ultimately show ?thesis using here by (intro go can_go_intro [where l = GTau and s' = ?s]) simp_all
    qed
  next
    case (D_wait i)
    have "can_go g F (s\<lparr>gs_sched := a\<rparr>)" if h: "inv a" "ready step a" "under_way g B E F (s\<lparr>gs_sched := a\<rparr>)" for a
    proof -
      obtain a' where "step a (SCall Main 0) a'" using h(2) by (auto simp: ready_def)
      from calls_ok [OF h(1) this] have "\<not> calls a Main" by (simp add: calls_step_def)
      moreover have "graph_waits (s\<lparr>gs_sched := a\<rparr>) = calls a" using h(3) by (simp add: under_way_def)
      from fun_cong [OF this, of Main] have "calls a Main" using D_wait by simp
      ultimately show ?thesis ..
    qed
    then show ?thesis using D_wait by (intro wait_goes [OF way ok small idle]) auto
  next
    case D_run
    show ?thesis
    proof (cases "\<exists>w b. at_body s w b \<and> body_step (gs_graph s) b \<noteq> None")
      case True
      then obtain w b l g' b' where at: "at_body s w b" and b: "body_step (gs_graph s) b = Some (l, g', b')" by auto
      let ?s = "set_body (s\<lparr>gs_graph := g'\<rparr>) w b'"
      have "graph_work g (F + marked_nodes l) ?s < graph_work g F s"
        by (rule graph_work_body [OF at, where b' = b'])
          (use body_work_step [OF facts(7) [OF at] facts(2) b] in \<open>auto simp: set_body_def ac_simps\<close>)
      with tg_step.body [where sstep = step, OF at b] here show ?thesis
        by (intro go can_go_intro [where l = l and s' = ?s]) (simp_all add: set_body_def)
    next
      case False
      have "leads step (offers step) (gs_sched s)" by (rule run_leads [OF inv here facts(5) [OF D_run, THEN conjunct1] k fits])
      then show ?thesis
      proof (rule wait_goes [OF way ok small])
        fix a
        assume off: "offers step a" and way': "under_way g B E F (s\<lparr>gs_sched := a\<rparr>)"
        show "can_go g F (s\<lparr>gs_sched := a\<rparr>)"
        proof (rule offers_goes [OF way' ok small])
          show "body_step (gs_graph (s\<lparr>gs_sched := a\<rparr>)) b = None" if "at_body (s\<lparr>gs_sched := a\<rparr>) w b" for w b
            using that False by (cases "body_step (gs_graph s) b") (auto simp: at_body_def)
        qed (use D_run off in simp_all)
      qed
    qed
  qed (use not_over in simp_all)
qed

lemma execution_can_end:
  assumes ok: "graph_ok g" and small: "\<forall>m < tg_size g. indeg g m < 2 ^ 32"
  shows "under_way g B E F s \<Longrightarrow> \<not> over (gs_driver s) \<Longrightarrow> \<not> lost (gs_sched s) \<Longrightarrow>
    \<exists>ls l s'. lts_run (tg_step step) s (ls @ [l]) s' \<and> l \<in> {GReturn, GFail}"
proof (induction "graph_work g F s" arbitrary: B E F s rule: less_induct)
  case less
  obtain gs s1 l s2 where gs: "lts_run (tg_step step) s gs s1" "graph_work g F s1 = graph_work g F s" "under_way g B E F s1"
      "gs_driver s1 = gs_driver s"
    and st: "tg_step step s1 l s2" and found: "\<not> lost (gs_sched s2)"
    and l: "l = GReturn \<or> l = GFail \<or> graph_work g (F + marked_nodes l) s2 < graph_work g F s1"
    using execution_goes [OF less.prems(1) ok small less.prems(2,3)] unfolding can_go_def by blast
  show ?case
  proof (cases "l \<in> {GReturn, GFail}")
    case True
    with lts_run.run_snoc [OF gs(1) st] show ?thesis by blast
  next
    case False
    have "\<not> over (gs_driver s2)" using st False less.prems(2) gs(4) by cases (auto simp: set_body_def)
    with less.hyps [OF _ under_way_step [OF gs(3) ok small st] _ found] l False gs(2)
    obtain ls l' s' where rest: "lts_run (tg_step step) s2 (ls @ [l']) s'" "l' \<in> {GReturn, GFail}" by auto
    from lts_run_append [OF rest(1) lts_run.run_snoc [OF gs(1) st]]
    have "lts_run (tg_step step) s ((gs @ [l] @ ls) @ [l']) s'" by simp
    with rest(2) show ?thesis by blast
  qed
qed

lemma under_way_start:
  assumes "graph_ok g" and "0 < k" and "fits (tg_size g)"
  shows "under_way g {#} {#} {#} (tg_start g k init)"
proof -
  have "calls init = (\<lambda>th. False)" using calls_init by (simp add: fun_eq_iff)
  then have "graph_waits (tg_start g k init) = calls (gs_sched (tg_start g k init))"
    by (simp add: tg_start_def graph_waits_def calls_of_Nil)
  moreover have "tg_abs view (tg_start g k init) = tg_start g k spec_init" using init_ok by (simp add: tg_abs_def tg_start_def)
  ultimately show ?thesis using exec_init [OF assms(1), of k] assms(2,3) wf_init
    unfolding under_way_def by (simp add: tg_start_def)
qed

lemma under_way_run:
  assumes ok: "graph_ok g" and small: "\<forall>m < tg_size g. indeg g m < 2 ^ 32"
    and "lts_run (tg_step step) (tg_start g k init) ls s" and "0 < k" and "fits (tg_size g)"
  shows "under_way g (tally begun_nodes ls) (tally ended_nodes ls) (tally marked_nodes ls) s"
  using assms(3)
proof (induction rule: lts_run.induct)
  case run_nil
  show ?case using under_way_start [OF ok assms(4,5)] by simp
next
  case (run_snoc ls s l s')
  from under_way_step [OF run_snoc.IH ok small run_snoc.hyps(2)] show ?case by simp
qed

end

text \<open>A label shows when an execution has come to its end.\<close>

lemma over_label:
  assumes "lts_run (tg_step step) (tg_start g k s0) ls s"
  shows "gs_driver s = D_failed \<Longrightarrow> GFail \<in> set ls"
  using assms
proof (induction rule: lts_run.induct)
  case run_nil
  then show ?case by (simp add: tg_start_def)
next
  case (run_snoc ls s l s')
  show ?case using run_snoc.hyps(2) run_snoc.prems run_snoc.IH by cases (auto simp: set_body_def)
qed

lemma tg_step_sub:
  assumes "tg_step step s l s'" and "\<And>a l b. step a l b \<Longrightarrow> step' a l b"
  shows "tg_step step' s l s'"
  using assms(1) by cases (auto intro: tg_step.intros assms(2))

interpretation anygc: calling_node_scheduler "any_init c" any_step "any_linv c" any_view "any_fits c" "\<lambda>_. False" any_calls for c
  by unfold_locales

interpretation anygk: calling_node_scheduler "any_init c" any_code "any_linv c" any_view "any_fits c" any_missed any_calls for c
  by unfold_locales

text \<open>From any state on the way an execution ends as its graph says.\<close>

lemma any_execution_ends:
  assumes make: "make_scheduler nm = Some s0" and build: "tg_build cs = Some g" and small: "\<forall>m < tg_size g. indeg g m < 2 ^ 32"
    and "0 < k" and "nm = ''LockFreeQueue'' \<Longrightarrow> tg_size g \<le> 2 ^ kLog2Ring"
    and run: "lts_run (tg_step any_step) (tg_start g k s0) ls s" and going: "\<not> over (gs_driver s)"
  shows "\<exists>ls' s'. lts_run (tg_step (steps_needed (gs_sched s))) s (ls' @ [if acyclic (edge g) then GReturn else GFail]) s'"
proof -
  obtain c where c: "s0 = any_init c" "c = LockFreeQueue \<longleftrightarrow> nm = ''LockFreeQueue''" using make_class [OF make] by blast
  have fits: "any_fits c (tg_size g)" using assms(5) c(2) by (simp add: any_fits_def)
  note way = anygc.under_way_run [OF build_ok [OF build] small run [unfolded c(1)] assms(4) fits]
  have "\<exists>ls' l s'. lts_run (tg_step (steps_needed (gs_sched s))) s (ls' @ [l]) s' \<and> l \<in> {GReturn, GFail}"
  proof (cases "any_missed (gs_sched s)")
    case True
    then show ?thesis using anygc.execution_can_end [OF build_ok [OF build] small way going] by (simp add: steps_needed_def)
  next
    case False
    then show ?thesis using anygk.execution_can_end [OF build_ok [OF build] small way going] by (simp add: steps_needed_def)
  qed
  then obtain ls' l s' where ends: "lts_run (tg_step (steps_needed (gs_sched s))) s (ls' @ [l]) s'" "l \<in> {GReturn, GFail}" by blast
  have sub: "steps_needed a b l b' \<Longrightarrow> any_step b l b'" for a b l b'
    by (auto simp: steps_needed_def split: if_splits intro: any_code_step)
  have "lts_run (tg_step any_step) s (ls' @ [l]) s'"
  proof (rule lts_run_sub [OF ends(1)])
    show "tg_step any_step x l y" if "tg_step (steps_needed (gs_sched s)) x l y" for x l y
      by (rule tg_step_sub [OF that sub])
  qed
  from lts_run_append [OF this run] have "lts_run (tg_step any_step) (tg_start g k s0) ((ls @ ls') @ [l]) s'" by simp
  from any_graph_end(4) [OF make build small this ends(2)] ends(2) acyclic_iff_all_acc [of g]
  have "l = (if acyclic (edge g) then GReturn else GFail)" by auto
  with ends(1) show ?thesis by blast
qed

section \<open>Property\<close>

text \<open>C3. On any graph and on any of the schedulers, \<open>execute\<close> with at least one worker can always come to its end:
  whatever the interleaving of the calling thread and the workers so far, some continuation
  reaches its return if the graph has no cycle, and the failure of its assertion if it has
  one. The continuation is one of the code, without spurious wake-ups, unless \<open>run\<close> of the mutex class has
  already missed its last notification. The lock-free class needs a ring with a slot for every node.\<close>

theorem execute_can_end:
  assumes "make_scheduler nm = Some s0" and "tg_build cs = Some g" and "\<forall>m < tg_size g. indeg g m < 2 ^ 32"
    and "0 < k" and "nm = ''LockFreeQueue'' \<Longrightarrow> tg_size g \<le> 2 ^ kLog2Ring"
    and "lts_run (tg_step any_step) (tg_start g k s0) ls s" and "\<not> over (gs_driver s)"
  shows "\<exists>ls' s'. lts_run (tg_step (if any_missed (gs_sched s) then any_step else any_code)) s
    (ls' @ [if acyclic (edge g) then GReturn else GFail]) s'"
  using any_execution_ends [OF assms] by (simp add: steps_needed_def)

text \<open>The diamond in mid-execution: some of its nodes have begun, and one is inside its callable. And the
  graph with a cycle, after its first steps on the mutex class.\<close>

definition ws_half :: "glabel list \<times> nat any_sched gsys" where
  "ws_half = play (tg_do any_do) (round_robin 60) (tg_start diamond_graph 2 (any_init WorkStealing))"

definition mq_half :: "glabel list \<times> nat any_sched gsys" where
  "mq_half = play (tg_do any_do) (round_robin 15) (tg_start cyclic_graph 2 (any_init MutexQueue))"

theorem execute_can_end_witness:
  "tally begun_nodes (fst ws_half) \<noteq> {#} \<and> GReturn \<notin> set (fst ws_half)
   \<and> (\<exists>ls' s'. lts_run (tg_step any_code) (snd ws_half) (ls' @ [GReturn]) s')
   \<and> (\<exists>ls' s'. lts_run (tg_step any_code) (snd mq_half) (ls' @ [GFail]) s')"
proof (intro conjI)
  have over: "\<not> over (gs_driver (snd ws_half))" "\<not> over (gs_driver (snd mq_half))" by code_simp+
  have missed: "\<not> any_missed (gs_sched (snd ws_half))" "\<not> any_missed (gs_sched (snd mq_half))" by code_simp+
  have run: "lts_run (tg_step any_step) (tg_start diamond_graph 2 (any_init WorkStealing)) (fst ws_half) (snd ws_half)"
    unfolding ws_half_def by (rule tg_play [OF any_do_step])
  have "\<exists>ls' s'. lts_run (tg_step (if any_missed (gs_sched (snd ws_half)) then any_step else any_code)) (snd ws_half)
      (ls' @ [if acyclic (edge diamond_graph) then GReturn else GFail]) s'"
    by (rule execute_can_end [OF make_scheduler_of(3) diamond_built diamond_small _ _ run over(1)]) simp_all
  then show "\<exists>ls' s'. lts_run (tg_step any_code) (snd ws_half) (ls' @ [GReturn]) s'"
    by (simp add: missed diamond_acyclic)
  have run: "lts_run (tg_step any_step) (tg_start cyclic_graph 2 (any_init MutexQueue)) (fst mq_half) (snd mq_half)"
    unfolding mq_half_def by (rule tg_play [OF any_do_step])
  have cycle: "\<not> acyclic (edge cyclic_graph)" using acyclic_iff_all_acc [of cyclic_graph] cyclic_unreachable by simp
  have "\<exists>ls' s'. lts_run (tg_step (if any_missed (gs_sched (snd mq_half)) then any_step else any_code)) (snd mq_half)
      (ls' @ [if acyclic (edge cyclic_graph) then GReturn else GFail]) s'"
    by (rule execute_can_end [OF make_scheduler_of(1) cyclic_built cyclic_small _ _ run over(2)]) simp_all
  then show "\<exists>ls' s'. lts_run (tg_step any_code) (snd mq_half) (ls' @ [GFail]) s'"
    by (simp add: missed cycle)
qed code_simp+

end
