(* ===== verification/Text_Output.thy ===== *)
theory Text_Output
  imports Prelude Complex_Main
begin

text \<open>
  What the programs use of \<^verbatim>\<open>std::ostream\<close>: insertion of strings, integers and \<^verbatim>\<open>double\<close>s under the
  format state of the stream (\<^verbatim>\<open>left\<close>, \<^verbatim>\<open>fixed\<close>, \<^verbatim>\<open>setprecision\<close>, which stay, and \<^verbatim>\<open>setw\<close>, which
  the next insertion uses up), and a reader that cuts a line into columns.
\<close>

section \<open>Decimal numbers\<close>

definition digit :: "nat \<Rightarrow> char" where
  "digit n = ''0123456789'' ! n"

definition digit_value :: "char \<Rightarrow> nat" where
  "digit_value c = of_char c - 48"

fun show_nat :: "nat \<Rightarrow> string" where
  "show_nat n = (if n < 10 then [digit n] else show_nat (n div 10) @ [digit (n mod 10)])"

declare show_nat.simps [simp del]

definition read_nat :: "string \<Rightarrow> nat" where
  "read_nat s = foldl (\<lambda>n c. 10 * n + digit_value c) 0 s"

definition show_int :: "int \<Rightarrow> string" where
  "show_int i = (if i < 0 then CHR ''-'' # show_nat (nat (- i)) else show_nat (nat i))"

lemma less_ten: "n < 10 \<longleftrightarrow> n \<in> set [0..<10]" for n :: nat
  by auto

lemma digit_facts:
  assumes "n < 10"
  shows "digit_value (digit n) = n" and "digit n \<in> set ''0123456789''"
proof -
  have "\<forall>n \<in> set [0..<10]. digit_value (digit n) = n \<and> digit n \<in> set ''0123456789''" by code_simp
  with assms show "digit_value (digit n) = n" "digit n \<in> set ''0123456789''" unfolding less_ten by blast+
qed

lemma show_nat_digits: "set (show_nat n) \<subseteq> set ''0123456789''"
proof (induction n rule: show_nat.induct)
  case (1 n)
  show ?case
  proof (cases "n < 10")
    case True
    then show ?thesis using digit_facts(2) [OF True] by (subst show_nat.simps) simp
  next
    case False
    with 1 digit_facts(2) [of "n mod 10"] show ?thesis by (subst show_nat.simps) simp
  qed
qed

lemma show_nat_nonempty [simp]: "show_nat n \<noteq> []"
  by (subst show_nat.simps) simp

lemma read_nat_snoc [simp]: "read_nat (s @ [c]) = 10 * read_nat s + digit_value c"
  by (simp add: read_nat_def)

lemma read_show_nat [simp]: "read_nat (show_nat n) = n"
proof (induction n rule: show_nat.induct)
  case (1 n)
  show ?case
  proof (cases "n < 10")
    case True
    then show ?thesis using digit_facts(1) [OF True] by (subst show_nat.simps) (simp add: read_nat_def)
  next
    case False
    with 1 digit_facts(1) [of "n mod 10"] show ?thesis by (subst show_nat.simps) simp
  qed
qed

lemma show_nat_length: "n < 10 ^ Suc k \<Longrightarrow> length (show_nat n) \<le> Suc k"
proof (induction k arbitrary: n)
  case 0
  then show ?case by (subst show_nat.simps) simp
next
  case (Suc k)
  show ?case
  proof (cases "n < 10")
    case False
    have "n div 10 < 10 ^ Suc k" using Suc.prems by (simp add: less_mult_imp_div_less ac_simps)
    from Suc.IH [OF this] False show ?thesis by (subst show_nat.simps) simp
  qed (subst show_nat.simps, simp)
qed

section \<open>Reals in fixed notation\<close>

text \<open>Rounding is to nearest, ties to even, as \<^verbatim>\<open>printf\<close> does it; \<open>llround\<close> rounds ties away from zero.\<close>

definition round_even :: "real \<Rightarrow> int" where
  "round_even x = (let f = \<lfloor>x\<rfloor>; d = x - of_int f
     in if d < 1 / 2 then f else if d > 1 / 2 then f + 1 else if even f then f else f + 1)"

definition llround :: "real \<Rightarrow> int" where
  "llround x = (if x < 0 then - \<lfloor>- x + 1 / 2\<rfloor> else \<lfloor>x + 1 / 2\<rfloor>)"

definition pad_digits :: "nat \<Rightarrow> string \<Rightarrow> string" where
  "pad_digits p s = replicate (p - length s) CHR ''0'' @ s"

definition fixed_units :: "nat \<Rightarrow> real \<Rightarrow> nat" where
  "fixed_units p x = nat (round_even (\<bar>x\<bar> * 10 ^ p))"

definition show_fixed :: "nat \<Rightarrow> real \<Rightarrow> string" where
  "show_fixed p x = (if x < 0 then ''-'' else []) @ show_nat (fixed_units p x div 10 ^ p)
     @ (if p = 0 then [] else CHR ''.'' # pad_digits p (show_nat (fixed_units p x mod 10 ^ p)))"

definition read_fixed :: "nat \<Rightarrow> string \<Rightarrow> real" where
  "read_fixed p s = real (read_nat (filter (\<lambda>c. c \<noteq> CHR ''.'') s)) / 10 ^ p"

lemma round_even_near: "\<bar>of_int (round_even x) - x\<bar> \<le> 1 / 2"
proof -
  have "of_int \<lfloor>x\<rfloor> \<le> x" "x < of_int \<lfloor>x\<rfloor> + 1" by linarith+
  then show ?thesis by (simp add: round_even_def Let_def)
qed

lemma round_even_nonneg: "0 \<le> x \<Longrightarrow> 0 \<le> round_even x"
  by (simp add: round_even_def Let_def)

lemma llround_near: "\<bar>of_int (llround x) - x\<bar> \<le> 1 / 2"
  unfolding llround_def by (cases "x < 0") (simp_all only: if_True if_False, linarith+)

lemma read_nat_append: "read_nat (s @ t) = read_nat s * 10 ^ length t + read_nat t"
proof (induction t rule: rev_induct)
  case (snoc c t)
  have "s @ t @ [c] = (s @ t) @ [c]" by simp
  with snoc show ?case by (simp only: read_nat_snoc) (simp add: algebra_simps)
qed (simp add: read_nat_def)

lemma read_nat_zeros [simp]: "read_nat (replicate n CHR ''0'') = 0"
proof (induction n)
  case (Suc n)
  have "replicate (Suc n) CHR ''0'' = replicate n CHR ''0'' @ [CHR ''0'']" by (simp add: replicate_append_same)
  then show ?case using Suc by (simp only: read_nat_snoc) (simp add: digit_value_def)
qed (simp add: read_nat_def)

lemma read_pad_digits: "length s \<le> p \<Longrightarrow> length (pad_digits p s) = p \<and> read_nat (pad_digits p s) = read_nat s"
  by (simp add: pad_digits_def read_nat_append)

lemma no_dot: "CHR ''.'' \<notin> set (show_nat n)"
  using show_nat_digits [of n] by auto

definition plain :: "string \<Rightarrow> bool" where
  "plain s \<longleftrightarrow> CHR '' '' \<notin> set s \<and> CHR 0x0A \<notin> set s"

lemma plain_simps [simp]:
  "plain []" "plain (c # s) \<longleftrightarrow> c \<noteq> CHR '' '' \<and> c \<noteq> CHR 0x0A \<and> plain s"
  "plain (s @ t) \<longleftrightarrow> plain s \<and> plain t"
  by (auto simp: plain_def)

lemma plain_replicate [simp]: "c \<noteq> CHR '' '' \<Longrightarrow> c \<noteq> CHR 0x0A \<Longrightarrow> plain (replicate n c)"
  by (induction n) simp_all

lemma show_nat_plain [simp]: "plain (show_nat n)"
  using show_nat_digits [of n] by (auto simp: plain_def)

lemma filter_no_dot: "filter (\<lambda>c. c \<noteq> CHR ''.'') (show_nat n) = show_nat n"
  using no_dot [of n] by (auto simp: filter_id_conv)

lemma fixed_units_real: "0 \<le> x \<Longrightarrow> real (fixed_units p x) = of_int (round_even (x * 10 ^ p))"
  using round_even_nonneg [of "x * 10 ^ p"] by (simp add: fixed_units_def)

text \<open>What is printed is read as a number at most half a unit of the last place away.\<close>

lemma show_fixed_read:
  assumes "0 \<le> x"
  shows "\<bar>read_fixed p (show_fixed p x) - x\<bar> \<le> 1 / 2 / 10 ^ p"
proof -
  let ?k = "fixed_units p x"
  have "read_nat (filter (\<lambda>c. c \<noteq> CHR ''.'') (show_fixed p x)) = ?k"
  proof (cases p)
    case 0
    with assms show ?thesis by (simp add: show_fixed_def filter_no_dot)
  next
    case (Suc q)
    have "length (show_nat (?k mod 10 ^ p)) \<le> p" using show_nat_length [of "?k mod 10 ^ p" q] Suc by simp
    note pad = read_pad_digits [OF this]
    have "filter (\<lambda>c. c \<noteq> CHR ''.'') (pad_digits p (show_nat (?k mod 10 ^ p))) = pad_digits p (show_nat (?k mod 10 ^ p))"
      by (simp add: pad_digits_def filter_no_dot)
    with assms Suc pad show ?thesis
      by (simp add: show_fixed_def filter_no_dot read_nat_append div_mult_mod_eq del: power_Suc)
  qed
  moreover have "real ?k = of_int (round_even (x * 10 ^ p))" using assms by (rule fixed_units_real)
  ultimately have "read_fixed p (show_fixed p x) - x = (of_int (round_even (x * 10 ^ p)) - x * 10 ^ p) / 10 ^ p"
    by (simp add: read_fixed_def field_simps)
  then have "\<bar>read_fixed p (show_fixed p x) - x\<bar> = \<bar>of_int (round_even (x * 10 ^ p)) - x * 10 ^ p\<bar> / 10 ^ p"
    by (simp add: abs_divide)
  also have "\<dots> \<le> 1 / 2 / 10 ^ p" using round_even_near [of "x * 10 ^ p"] by (rule divide_right_mono) simp
  finally show ?thesis .
qed

lemma show_fixed_length:
  assumes "0 \<le> x" and "x < 10 ^ Suc m - 1"
  shows "length (show_fixed p x) \<le> Suc m + (if p = 0 then 0 else Suc p)"
proof -
  let ?k = "fixed_units p x"
  have one: "(1::real) \<le> 10 ^ p" by simp
  have "real ?k \<le> x * 10 ^ p + 1 / 2"
    using fixed_units_real [OF assms(1), of p] round_even_near [of "x * 10 ^ p"] by linarith
  also have "\<dots> < (x + 1) * 10 ^ p" using one by (simp only: distrib_right)
  also have "\<dots> \<le> 10 ^ Suc m * 10 ^ p" using assms(2) by (intro mult_right_mono) simp_all
  finally have "real ?k < real (10 ^ Suc m * 10 ^ p)" by simp
  then have "?k < 10 ^ Suc m * 10 ^ p" by (simp only: of_nat_less_iff)
  then have "?k div 10 ^ p < 10 ^ Suc m" by (simp add: less_mult_imp_div_less)
  from show_nat_length [OF this] have whole: "length (show_nat (?k div 10 ^ p)) \<le> Suc m" .
  show ?thesis
  proof (cases p)
    case (Suc q)
    have "length (show_nat (?k mod 10 ^ p)) \<le> p" using show_nat_length [of "?k mod 10 ^ p" q] Suc by simp
    from read_pad_digits [OF this] whole assms(1) Suc show ?thesis by (simp add: show_fixed_def del: power_Suc)
  qed (use whole assms(1) in \<open>simp add: show_fixed_def\<close>)
qed

lemma show_fixed_plain [simp]: "plain (show_fixed p x)"
  by (simp add: show_fixed_def pad_digits_def)

lemma show_int_nat: "0 \<le> i \<Longrightarrow> show_int i = show_nat (nat i)"
  by (simp add: show_int_def)

lemma llround_nat:
  assumes "0 \<le> x" and "x < 10 ^ Suc m - 1"
  shows "show_int (llround x) = show_nat (nat (llround x))" and "length (show_nat (nat (llround x))) \<le> Suc m"
    and "\<bar>real (nat (llround x)) - x\<bar> \<le> 1 / 2"
proof -
  have pos: "0 \<le> llround x" using assms(1) by (simp add: llround_def)
  then show "show_int (llround x) = show_nat (nat (llround x))" by (rule show_int_nat)
  have same: "real (nat (llround x)) = of_int (llround x)" using pos by simp
  then show "\<bar>real (nat (llround x)) - x\<bar> \<le> 1 / 2" using llround_near [of x] by simp
  then have "real (nat (llround x)) \<le> x + 1 / 2" by linarith
  also have "\<dots> < 10 ^ Suc m" using assms(2) by linarith
  finally have "real (nat (llround x)) < real (10 ^ Suc m)" by simp
  then have "nat (llround x) < 10 ^ Suc m" by (simp only: of_nat_less_iff)
  then show "length (show_nat (nat (llround x))) \<le> Suc m" by (rule show_nat_length)
qed

section \<open>Streams\<close>

record ostream =
  os_text :: string
  os_width :: nat
  os_left :: bool
  os_fixed :: bool
  os_prec :: nat

definition cout :: ostream where
  "cout = \<lparr>os_text = [], os_width = 0, os_left = False, os_fixed = False, os_prec = 6\<rparr>"

datatype item = O_left | O_fixed | O_setprecision nat | O_setw nat | O_str string | O_int int | O_double real

definition put_field :: "string \<Rightarrow> ostream \<Rightarrow> ostream" where
  "put_field s o' =
     (let fill = replicate (os_width o' - length s) CHR '' ''
      in o'\<lparr>os_text := os_text o' @ (if os_left o' then s @ fill else fill @ s), os_width := 0\<rparr>)"

text \<open>The programs print no \<^verbatim>\<open>double\<close> before \<^verbatim>\<open>std::fixed\<close>; the general notation is not modelled.\<close>

fun insert_item :: "item \<Rightarrow> ostream \<Rightarrow> ostream option" where
  "insert_item O_left o' = Some (o'\<lparr>os_left := True\<rparr>)"
| "insert_item O_fixed o' = Some (o'\<lparr>os_fixed := True\<rparr>)"
| "insert_item (O_setprecision n) o' = Some (o'\<lparr>os_prec := n\<rparr>)"
| "insert_item (O_setw n) o' = Some (o'\<lparr>os_width := n\<rparr>)"
| "insert_item (O_str s) o' = Some (put_field s o')"
| "insert_item (O_int i) o' = Some (put_field (show_int i) o')"
| "insert_item (O_double x) o' = (if os_fixed o' then Some (put_field (show_fixed (os_prec o') x) o') else None)"

primrec insert_items :: "item list \<Rightarrow> ostream \<Rightarrow> ostream option" where
  "insert_items [] o' = Some o'"
| "insert_items (x # xs) o' = Option.bind (insert_item x o') (insert_items xs)"

definition newline :: string where
  "newline = [CHR 0x0A]"

lemma insert_items_append: "insert_items (xs @ ys) o' = Option.bind (insert_items xs o') (insert_items ys)"
proof (induction xs arbitrary: o')
  case (Cons x xs)
  then show ?case by (cases "insert_item x o'") simp_all
qed simp

section \<open>Rows of cells\<close>

definition cell :: "nat \<times> string \<Rightarrow> string" where
  "cell c = snd c @ replicate (fst c - length (snd c)) CHR '' ''"

definition cell_row :: "(nat \<times> string) list \<Rightarrow> string" where
  "cell_row cs = concat (map cell cs)"

lemma cell_row_simps [simp]: "cell_row [] = []" "cell_row (c # cs) = cell c @ cell_row cs"
  by (simp_all add: cell_row_def)

definition fits :: "nat \<times> string \<Rightarrow> bool" where
  "fits c \<longleftrightarrow> length (snd c) \<le> fst c \<and> plain (snd c)"

text \<open>Cutting a line at the widths of its columns.\<close>

fun columns :: "nat list \<Rightarrow> string \<Rightarrow> string list" where
  "columns [] s = []"
| "columns (w # ws) s = takeWhile (\<lambda>c. c \<noteq> CHR '' '') (take w s) # columns ws (drop w s)"

lemma cell_length: "fits c \<Longrightarrow> length (cell c) = fst c"
  by (simp add: fits_def cell_def)

lemma cell_row_length: "list_all fits cs \<Longrightarrow> length (cell_row cs) = sum_list (map fst cs)"
  by (induction cs) (simp_all add: cell_length)

lemma cell_read: "fits c \<Longrightarrow> takeWhile (\<lambda>c. c \<noteq> CHR '' '') (cell c) = snd c"
proof -
  assume "fits c"
  then have "\<forall>x \<in> set (snd c). x \<noteq> CHR '' ''" by (auto simp: fits_def plain_def)
  then show ?thesis by (cases "fst c - length (snd c)") (simp_all add: cell_def takeWhile_append2)
qed

lemma columns_row: "list_all fits cs \<Longrightarrow> columns (map fst cs) (cell_row cs) = map snd cs"
proof (induction cs)
  case (Cons c cs)
  then show ?case using cell_length [of c] cell_read [of c] by simp
qed simp

lemma cell_row_newline: "list_all fits cs \<Longrightarrow> CHR 0x0A \<notin> set (cell_row cs)"
  by (induction cs) (auto simp: fits_def plain_def cell_def)

section \<open>Lines\<close>

primrec lines :: "string \<Rightarrow> string list" where
  "lines [] = [[]]"
| "lines (c # s) = (if c = CHR 0x0A then [] # lines s
     else case lines s of [] \<Rightarrow> [[c]] | l # ls \<Rightarrow> (c # l) # ls)"

lemma lines_nonempty [simp]: "lines s \<noteq> []"
  by (cases s) (auto split: list.splits)

lemma lines_line: "CHR 0x0A \<notin> set l \<Longrightarrow> lines (l @ newline @ s) = l # lines s"
  by (induction l) (auto simp: newline_def)

lemma lines_concat: "list_all (\<lambda>l. CHR 0x0A \<notin> set l) ls \<Longrightarrow> lines (concat (map (\<lambda>l. l @ newline) ls) @ s) = ls @ lines s"
proof (induction ls)
  case (Cons l ls)
  then show ?case using lines_line [of l "concat (map (\<lambda>l. l @ newline) ls) @ s"] by simp
qed simp

end
