(* ===== verification/Reports.thy ===== *)
theory Reports
  imports Scaling Text_Output
begin

text \<open>
  The two benchmark programs as a whole: \<^verbatim>\<open>main\<close> of \<^verbatim>\<open>bench/main.cpp\<close> and of \<^verbatim>\<open>bench/scaling.cpp\<close>,
  with everything they print, and a reader of the tables. What a program prints depends on the
  number of processors and the measured times, which are parameters.
\<close>

section \<open>The tables of the benchmark program\<close>

definition print_header :: "item list" where
  "print_header =
     [O_left, O_setw 18, O_str ''Scheduler'', O_setw 22, O_str ''Benchmark'', O_setw 8, O_str ''Workers'',
      O_setw 12, O_str ''Tasks'', O_setw 10, O_str ''Wall(s)'', O_setw 14, O_str ''Tasks/s'', O_str newline,
      O_str (replicate 84 CHR ''-''), O_str newline]"

definition print_result :: "bench_result \<Rightarrow> item list" where
  "print_result r =
     [O_left, O_setw 18, O_str (br_scheduler r), O_setw 22, O_str (br_benchmark r),
      O_setw 8, O_int (uint (br_workers r)), O_setw 12, O_int (uint (br_tasks r)),
      O_fixed, O_setprecision 3, O_setw 10, O_double (br_wall r),
      O_setw 14, O_int (llround (br_throughput r)), O_str newline]"

text \<open>The loop over the schedulers.\<close>

definition print_suites :: "(string \<Rightarrow> string \<Rightarrow> 32 word \<Rightarrow> real) \<Rightarrow> 32 word list \<Rightarrow> item list" where
  "print_suites wall counts =
     concat (map (\<lambda>s. [O_str (newline @ ''=== ''), O_str s, O_str ('' ==='' @ newline)] @ print_header
       @ concat (map print_result (run_suite (wall s) s counts))) sched_names)"

definition print_speedup_header :: "32 word \<Rightarrow> item list" where
  "print_speedup_header most =
     [O_str (newline @ newline @ ''=== SPEEDUP: WorkStealing vs MutexQueue at ''), O_int (uint most),
      O_str ('' threads ==='' @ newline), O_left, O_setw 26, O_str ''Benchmark'', O_setw 14, O_str ''Mutex(t/s)'',
      O_setw 14, O_str ''WS(t/s)'', O_setw 10, O_str ''Speedup'', O_str newline,
      O_str (replicate 64 CHR ''-''), O_str newline]"

fun print_speedup :: "string \<times> real \<times> real \<times> real \<Rightarrow> item list" where
  "print_speedup (bn, mt, ws, speedup) =
     [O_left, O_setw 26, O_str bn, O_fixed, O_setprecision 0, O_setw 14, O_double mt, O_setw 14, O_double ws,
      O_setprecision 2, O_setw 10, O_double speedup, O_str newline]"

text \<open>
  \<open>main\<close>. The loop over the thread counts may not end, \<^verbatim>\<open>thread_counts.back()\<close> may be undefined, and
  a \<^verbatim>\<open>double\<close> in general notation would be outside the model of streams.
\<close>

datatype outcome = Prints string | Undefined | Diverges | Unmodelled

definition printed :: "item list \<Rightarrow> outcome" where
  "printed xs = (case insert_items xs cout of None \<Rightarrow> Unmodelled | Some o' \<Rightarrow> Prints (os_text o'))"

definition bench_main :: "32 word \<Rightarrow> (string \<Rightarrow> string \<Rightarrow> 32 word \<Rightarrow> real) \<Rightarrow> outcome" where
  "bench_main hw wall =
     (case thread_counts hw of None \<Rightarrow> Diverges
      | Some counts \<Rightarrow> (case speedup_table (all_results wall counts) counts of None \<Rightarrow> Undefined
        | Some rows \<Rightarrow> printed
            ([O_str ''Hardware concurrency: '', O_int (uint hw), O_str ('' logical cores'' @ newline @ newline)]
             @ print_suites wall counts @ print_speedup_header (last counts)
             @ concat (map print_speedup rows))))"

section \<open>The tables of the scaling program\<close>

definition print_scaling_header :: "item list" where
  "print_scaling_header =
     [O_left, O_setw 16, O_str ''Scheduler'', O_setw 10, O_str ''Workload'', O_setw 9, O_str ''Threads'',
      O_setw 12, O_str ''Wall(s)'', O_setw 14, O_str ''Tasks/s'', O_setw 10, O_str ''Speedup'',
      O_setw 10, O_str ''Efficiency'', O_str newline, O_str (replicate 81 CHR ''-''), O_str newline]"

definition print_row :: "scaling_row \<Rightarrow> item list" where
  "print_row r =
     [O_left, O_setw 16, O_str (sr_scheduler r), O_setw 10, O_str (sr_workload r), O_setw 9, O_int (uint (sr_threads r)),
      O_fixed, O_setprecision 4, O_setw 12, O_double (sr_wall r), O_setprecision 0, O_setw 14, O_double (sr_throughput r),
      O_setprecision 2, O_setw 10, O_double (sr_speedup r), O_setw 10, O_double (sr_efficiency r), O_str newline]"

definition print_intro :: "32 word \<Rightarrow> item list" where
  "print_intro hw =
     [O_str ''Hardware concurrency: '', O_int (uint hw), O_str ('' logical cores'' @ newline),
      O_str ''Workload: '', O_int (uint kNumTasks), O_str '' flat tasks, or '', O_int (int (kDagWidth * kDagDepth)),
      O_str ''-node DAG ('', O_int (int kDagWidth), O_str ''w x '', O_int (int kDagDepth), O_str ''d); '',
      O_int (uint kWorkIters), O_str ('' iters per task'' @ newline @ newline)]"

text \<open>The rows of one workload, as they are printed and collected.\<close>

definition workload_rows :: "string \<Rightarrow> 64 word \<Rightarrow> (string \<Rightarrow> string \<Rightarrow> 32 word \<Rightarrow> real) \<Rightarrow> scaling_row list" where
  "workload_rows wl tasks wall = concat (map (\<lambda>sn. scaling_loop sn wl tasks (wall sn wl) row_counts (- 1)) sched_names)"

definition print_summary_header :: "item list" where
  "print_summary_header =
     [O_str (newline @ ''=== Throughput summary (tasks/sec) ==='' @ newline),
      O_left, O_setw 16, O_str ''Scheduler'', O_setw 10, O_str ''Workload'']
     @ concat (map (\<lambda>n. [O_setw 14, O_str (show_nat (unat n) @ ''T'')]) row_counts)
     @ [O_str newline, O_str (replicate (16 + 10 + 14 * length row_counts) CHR ''-''), O_str newline]"

definition print_summary :: "scaling_row list \<Rightarrow> string \<Rightarrow> string \<Rightarrow> item list" where
  "print_summary rows sn wl =
     [O_left, O_setw 16, O_str sn, O_setw 10, O_str wl]
     @ concat (map (\<lambda>n. case summary_cell rows sn wl n of None \<Rightarrow> []
         | Some throughput \<Rightarrow> [O_setw 14, O_int (llround throughput)]) row_counts)
     @ [O_str newline]"

definition scaling_main :: "32 word \<Rightarrow> (string \<Rightarrow> string \<Rightarrow> 32 word \<Rightarrow> real) \<Rightarrow> outcome" where
  "scaling_main hw wall =
     (let flat = workload_rows ''flat'' kNumTasks wall; dag = workload_rows ''dag'' dag_nodes wall
      in printed (print_intro hw
        @ [O_str (''=== Scaling: flat CPU-bound workload ==='' @ newline)]
        @ print_scaling_header @ concat (map print_row flat)
        @ [O_str (newline @ ''=== Scaling: DAG workload (''), O_int (int kDagWidth), O_str ''w x '', O_int (int kDagDepth),
           O_str (''d pipeline) ==='' @ newline)]
        @ print_scaling_header @ concat (map print_row dag)
        @ print_summary_header
        @ concat (map (\<lambda>sn. concat (map (print_summary (flat @ dag) sn) [''flat'', ''dag''])) sched_names)))"

section \<open>Reading the tables\<close>

text \<open>A table with columns of the widths \<open>ws\<close>: the lines as wide as these, without header and rule.\<close>

definition is_row :: "nat list \<Rightarrow> string \<Rightarrow> bool" where
  "is_row ws l \<longleftrightarrow> length l = sum_list ws \<and> take 1 l \<noteq> ''-'' \<and> take 9 l \<notin> {''Scheduler'', ''Benchmark''}"

definition table :: "nat list \<Rightarrow> string \<Rightarrow> string list list" where
  "table ws text = map (columns ws) (filter (is_row ws) (lines text))"

definition result_widths :: "nat list" where "result_widths = [18, 22, 8, 12, 10, 14]"
definition speedup_widths :: "nat list" where "speedup_widths = [26, 14, 14, 10]"
definition scaling_widths :: "nat list" where "scaling_widths = [16, 10, 9, 12, 14, 10, 10]"
definition summary_widths :: "nat list" where "summary_widths = [16, 10, 14, 14, 14, 14]"

text \<open>What a reader finds in a row, given what was printed there.\<close>

definition near :: "real \<Rightarrow> real \<Rightarrow> real \<Rightarrow> bool" where
  "near eps x y \<longleftrightarrow> \<bar>x - y\<bar> \<le> eps"

fun reads_result :: "bench_result \<Rightarrow> string list \<Rightarrow> bool" where
  "reads_result r [sched, bench, workers, tasks, wall, throughput] \<longleftrightarrow> sched = br_scheduler r \<and> bench = br_benchmark r
     \<and> read_nat workers = unat (br_workers r) \<and> read_nat tasks = unat (br_tasks r)
     \<and> near (1 / 2000) (read_fixed 3 wall) (br_wall r) \<and> near (1 / 2) (read_nat throughput) (br_throughput r)"
| "reads_result r cs \<longleftrightarrow> False"

fun reads_speedup :: "string \<times> real \<times> real \<times> real \<Rightarrow> string list \<Rightarrow> bool" where
  "reads_speedup (bn, mt, ws, speedup) [bench, mutex, stealing, ratio] \<longleftrightarrow> bench = bn
     \<and> near (1 / 2) (read_fixed 0 mutex) mt \<and> near (1 / 2) (read_fixed 0 stealing) ws
     \<and> near (1 / 200) (read_fixed 2 ratio) speedup"
| "reads_speedup r cs \<longleftrightarrow> False"

fun reads_row :: "scaling_row \<Rightarrow> string list \<Rightarrow> bool" where
  "reads_row r [sched, workload, threads, wall, throughput, speedup, efficiency] \<longleftrightarrow> sched = sr_scheduler r
     \<and> workload = sr_workload r \<and> read_nat threads = unat (sr_threads r)
     \<and> near (1 / 20000) (read_fixed 4 wall) (sr_wall r) \<and> near (1 / 2) (read_fixed 0 throughput) (sr_throughput r)
     \<and> near (1 / 200) (read_fixed 2 speedup) (sr_speedup r) \<and> near (1 / 200) (read_fixed 2 efficiency) (sr_efficiency r)"
| "reads_row r cs \<longleftrightarrow> False"

section \<open>What is printed\<close>

definition prints :: "item list \<Rightarrow> string \<Rightarrow> bool" where
  "prints xs text \<longleftrightarrow> (\<forall>o'. os_width o' = 0 \<longrightarrow>
     (\<exists>o''. insert_items xs o' = Some o'' \<and> os_width o'' = 0 \<and> os_text o'' = os_text o' @ text))"

lemma prints_Nil: "prints [] []"
  by (simp add: prints_def)

lemma prints_append:
  assumes "prints xs s" and "prints ys t"
  shows "prints (xs @ ys) (s @ t)"
  unfolding prints_def
proof (intro allI impI)
  fix o' :: ostream
  assume "os_width o' = 0"
  with assms(1) obtain o1 where o1: "insert_items xs o' = Some o1" "os_width o1 = 0" "os_text o1 = os_text o' @ s"
    unfolding prints_def by blast
  with assms(2) obtain o2 where "insert_items ys o1 = Some o2" "os_width o2 = 0" "os_text o2 = os_text o1 @ t"
    unfolding prints_def by blast
  with o1 show "\<exists>o''. insert_items (xs @ ys) o' = Some o'' \<and> os_width o'' = 0 \<and> os_text o'' = os_text o' @ s @ t"
    by (simp add: insert_items_append)
qed

lemma prints_concat: "(\<And>x. x \<in> set xs \<Longrightarrow> prints (f x) (g x)) \<Longrightarrow> prints (concat (map f xs)) (concat (map g xs))"
  by (induction xs) (auto intro: prints_Nil prints_append)

lemma printed_prints: "prints xs text \<Longrightarrow> printed xs = Prints text"
  by (auto simp: prints_def printed_def cout_def dest!: spec [of _ cout])

definition line :: "string \<Rightarrow> string" where
  "line l = l @ newline"

definition result_cells :: "bench_result \<Rightarrow> (nat \<times> string) list" where
  "result_cells r = [(18, br_scheduler r), (22, br_benchmark r), (8, show_nat (unat (br_workers r))),
     (12, show_nat (unat (br_tasks r))), (10, show_fixed 3 (br_wall r)), (14, show_int (llround (br_throughput r)))]"

fun speedup_cells :: "string \<times> real \<times> real \<times> real \<Rightarrow> (nat \<times> string) list" where
  "speedup_cells (bn, mt, ws, speedup) = [(26, bn), (14, show_fixed 0 mt), (14, show_fixed 0 ws), (10, show_fixed 2 speedup)]"

definition row_cells :: "scaling_row \<Rightarrow> (nat \<times> string) list" where
  "row_cells r = [(16, sr_scheduler r), (10, sr_workload r), (9, show_nat (unat (sr_threads r))),
     (12, show_fixed 4 (sr_wall r)), (14, show_fixed 0 (sr_throughput r)), (10, show_fixed 2 (sr_speedup r)),
     (10, show_fixed 2 (sr_efficiency r))]"

definition header_cells :: "(nat \<times> string) list" where
  "header_cells = zip result_widths [''Scheduler'', ''Benchmark'', ''Workers'', ''Tasks'', ''Wall(s)'', ''Tasks/s'']"

definition speedup_header_cells :: "(nat \<times> string) list" where
  "speedup_header_cells = zip speedup_widths [''Benchmark'', ''Mutex(t/s)'', ''WS(t/s)'', ''Speedup'']"

definition scaling_header_cells :: "(nat \<times> string) list" where
  "scaling_header_cells = zip scaling_widths [''Scheduler'', ''Workload'', ''Threads'', ''Wall(s)'', ''Tasks/s'', ''Speedup'', ''Efficiency'']"

definition summary_header_cells :: "(nat \<times> string) list" where
  "summary_header_cells = zip summary_widths [''Scheduler'', ''Workload'', ''1T'', ''2T'', ''4T'', ''8T'']"

definition rule_line :: "nat \<Rightarrow> string" where
  "rule_line n = replicate n CHR ''-''"

lemma show_int_word [simp]: "show_int (uint w) = show_nat (unat w)" "show_int (int n) = show_nat n"
  by (simp_all add: show_int_def)

lemma prints_result: "prints (print_result r) (line (cell_row (result_cells r)))"
  by (simp add: prints_def print_result_def result_cells_def put_field_def cell_def line_def)

lemma prints_speedup: "prints (print_speedup r) (line (cell_row (speedup_cells r)))"
  by (cases r) (simp add: prints_def put_field_def cell_def line_def)

lemma prints_row: "prints (print_row r) (line (cell_row (row_cells r)))"
  by (simp add: prints_def print_row_def row_cells_def put_field_def cell_def line_def)

lemma prints_header: "prints print_header (line (cell_row header_cells) @ line (rule_line 84))"
  by (simp add: prints_def print_header_def header_cells_def result_widths_def rule_line_def put_field_def cell_def line_def)

text \<open>Everything is printed in whole lines.\<close>

definition prints_lines :: "item list \<Rightarrow> string list \<Rightarrow> bool" where
  "prints_lines xs ls \<longleftrightarrow> prints xs (concat (map line ls))"

lemma prints_lines_Nil: "prints_lines [] []"
  by (simp add: prints_lines_def prints_Nil)

lemma prints_lines_append: "prints_lines xs ls \<Longrightarrow> prints_lines ys ms \<Longrightarrow> prints_lines (xs @ ys) (ls @ ms)"
  unfolding prints_lines_def by (simp add: prints_append)

lemma prints_lines_concat:
  assumes "\<And>x. x \<in> set xs \<Longrightarrow> prints_lines (f x) (g x)"
  shows "prints_lines (concat (map f xs)) (concat (map g xs))"
  using assms by (induction xs) (auto intro: prints_lines_append prints_lines_Nil)

lemma prints_lines_map:
  assumes "\<And>x. prints (f x) (line (g x))"
  shows "prints_lines (concat (map f xs)) (map g xs)"
  using prints_lines_concat [of xs f "\<lambda>x. [g x]"] assms by (simp add: prints_lines_def concat_map_singleton)

lemmas print_simps = prints_lines_def prints_def put_field_def cell_def line_def rule_line_def

definition suite_lines :: "(string \<Rightarrow> string \<Rightarrow> 32 word \<Rightarrow> real) \<Rightarrow> 32 word list \<Rightarrow> string list" where
  "suite_lines wall counts = concat (map (\<lambda>s. [[], ''=== '' @ s @ '' ==='', cell_row header_cells, rule_line 84]
     @ map (\<lambda>r. cell_row (result_cells r)) (run_suite (wall s) s counts)) sched_names)"

lemma prints_suites: "prints_lines (print_suites wall counts) (suite_lines wall counts)"
  unfolding print_suites_def suite_lines_def
proof (rule prints_lines_concat)
  fix s :: string
  have title: "prints_lines [O_str (newline @ ''=== ''), O_str s, O_str ('' ==='' @ newline)] [[], ''=== '' @ s @ '' ==='']"
    by (simp add: print_simps)
  have header: "prints_lines print_header [cell_row header_cells, rule_line 84]"
    using prints_header by (simp add: prints_lines_def)
  from prints_lines_append [OF title prints_lines_append [OF header prints_lines_map [OF prints_result]]]
  show "prints_lines ([O_str (newline @ ''=== ''), O_str s, O_str ('' ==='' @ newline)] @ print_header
      @ concat (map print_result (run_suite (wall s) s counts)))
    ([[], ''=== '' @ s @ '' ==='', cell_row header_cells, rule_line 84]
      @ map (\<lambda>r. cell_row (result_cells r)) (run_suite (wall s) s counts))"
    by simp
qed

lemma prints_speedup_header: "prints_lines (print_speedup_header most)
    [[], [], ''=== SPEEDUP: WorkStealing vs MutexQueue at '' @ show_nat (unat most) @ '' threads ==='',
     cell_row speedup_header_cells, rule_line 64]"
  by (simp add: print_simps print_speedup_header_def speedup_header_cells_def speedup_widths_def)

definition bench_lines :: "32 word \<Rightarrow> (string \<Rightarrow> string \<Rightarrow> 32 word \<Rightarrow> real) \<Rightarrow> 32 word list \<Rightarrow>
    (string \<times> real \<times> real \<times> real) list \<Rightarrow> string list" where
  "bench_lines hw wall counts rows =
     [''Hardware concurrency: '' @ show_nat (unat hw) @ '' logical cores'', []] @ suite_lines wall counts
     @ [[], [], ''=== SPEEDUP: WorkStealing vs MutexQueue at '' @ show_nat (unat (last counts)) @ '' threads ==='',
        cell_row speedup_header_cells, rule_line 64]
     @ map (\<lambda>r. cell_row (speedup_cells r)) rows"

lemma bench_main_lines:
  assumes "thread_counts hw = Some counts" and "speedup_table (all_results wall counts) counts = Some rows"
  shows "bench_main hw wall = Prints (concat (map line (bench_lines hw wall counts rows)))"
proof -
  have intro: "prints_lines [O_str ''Hardware concurrency: '', O_int (uint hw), O_str ('' logical cores'' @ newline @ newline)]
      [''Hardware concurrency: '' @ show_nat (unat hw) @ '' logical cores'', []]"
    by (simp add: print_simps)
  from prints_lines_append [OF intro prints_lines_append [OF prints_suites
      prints_lines_append [OF prints_speedup_header prints_lines_map [OF prints_speedup]]]]
  have "prints_lines ([O_str ''Hardware concurrency: '', O_int (uint hw), O_str ('' logical cores'' @ newline @ newline)]
      @ print_suites wall counts @ print_speedup_header (last counts) @ concat (map print_speedup rows))
      (bench_lines hw wall counts rows)"
    by (simp only: bench_lines_def)
  then show ?thesis by (simp add: bench_main_def assms prints_lines_def printed_prints)
qed

subsection \<open>Reading rows\<close>

lemma is_row_cells:
  assumes "list_all fits ((w, s) # cs)" and "ws = w # map fst cs" and "9 \<le> length s"
    and "take 1 s \<noteq> ''-''" and "take 9 s \<notin> {''Scheduler'', ''Benchmark''}"
  shows "is_row ws (cell_row ((w, s) # cs)) \<and> columns ws (cell_row ((w, s) # cs)) = s # map snd cs"
proof -
  have "length (cell_row ((w, s) # cs)) = sum_list ws" using cell_row_length [OF assms(1)] assms(2) by simp
  moreover have "take n (cell_row ((w, s) # cs)) = take n s" if "n \<le> length s" for n using that by (simp add: cell_def)
  moreover have "columns ws (cell_row ((w, s) # cs)) = s # map snd cs" using columns_row [OF assms(1)] assms(2) by simp
  ultimately show ?thesis using assms(3-5) by (simp add: is_row_def del: cell_row_simps)
qed

lemma names_facts:
  assumes "s \<in> set sched_names"
  shows "length s \<le> 16" "plain s" "9 \<le> length s" "take 1 s \<noteq> ''-''" "take 9 s \<notin> {''Scheduler'', ''Benchmark''}"
  using assms by (auto simp: sched_names_def)

lemma bench_names_facts:
  assumes "b \<in> set (map fst suite_benches)"
  shows "length b \<le> 22" "plain b" "9 \<le> length b" "take 1 b \<noteq> ''-''" "take 9 b \<notin> {''Scheduler'', ''Benchmark''}"
  using assms by (auto simp: suite_benches_def)

text \<open>Times between a millisecond and 1000 seconds.\<close>

definition timed :: "real \<Rightarrow> bool" where
  "timed t \<longleftrightarrow> 1 / 1000 \<le> t \<and> t \<le> 1000"

lemma timed_rate:
  assumes "timed t" and "n \<le> 100000"
  shows "0 \<le> real n / t" and "real n / t \<le> 10 ^ 8"
proof -
  have t: "0 < t" "1 / 1000 \<le> t" using assms(1) by (auto simp: timed_def)
  then show "0 \<le> real n / t" by simp
  have "real n \<le> 10 ^ 8 * (1 / 1000)" using assms(2) by simp
  also have "\<dots> \<le> 10 ^ 8 * t" using t(2) by (intro mult_left_mono) simp_all
  finally show "real n / t \<le> 10 ^ 8" using t(1) by (simp add: divide_le_eq)
qed

lemma timed_ratio:
  assumes "timed t" and "timed u"
  shows "0 \<le> t / u" and "t / u \<le> 10 ^ 6"
proof -
  have u: "0 < u" "1 / 1000 \<le> u" and t: "0 \<le> t" "t \<le> 1000" using assms by (auto simp: timed_def)
  then show "0 \<le> t / u" by simp
  have "t \<le> 10 ^ 6 * (1 / 1000)" using t by simp
  also have "\<dots> \<le> 10 ^ 6 * u" using u(2) by (intro mult_left_mono) simp_all
  finally show "t / u \<le> 10 ^ 6" using u(1) by (simp add: divide_le_eq)
qed

lemma timed_pos: "\<forall>s b n. timed (wall s b n) \<Longrightarrow> \<forall>s b n. 0 < wall s b n"
proof (intro allI)
  fix s b n
  assume "\<forall>s b n. timed (wall s b n)"
  then have "1 / 1000 \<le> wall s b n" by (simp add: timed_def)
  then show "0 < wall s b n" by linarith
qed

lemma fits_nat: "n < 10 ^ Suc k \<Longrightarrow> Suc k \<le> w \<Longrightarrow> fits (w, show_nat n)"
  using show_nat_length [of n k] by (simp add: fits_def)

lemma fits_fixed: "0 \<le> x \<Longrightarrow> x < 10 ^ Suc m - 1 \<Longrightarrow> Suc m + (if p = 0 then 0 else Suc p) \<le> w \<Longrightarrow> fits (w, show_fixed p x)"
  using show_fixed_length [of x m p] by (auto simp: fits_def)

lemma reads_fixed: "0 \<le> x \<Longrightarrow> 1 / 2 / 10 ^ p \<le> eps \<Longrightarrow> near eps (read_fixed p (show_fixed p x)) x"
  using show_fixed_read [of x p] by (simp add: near_def)

lemma result_fits_row:
  assumes r: "r \<in> set (all_results wall counts)" and small: "\<forall>n \<in> set counts. unat n < 10 ^ 8" and times: "\<forall>s b n. timed (wall s b n)"
  shows "list_all fits (result_cells r) \<and> is_row result_widths (cell_row (result_cells r))
    \<and> reads_result r (columns result_widths (cell_row (result_cells r)))"
proof -
  obtain s nw b sc where s: "s \<in> set sched_names" and nw: "nw \<in> set counts" and b: "(b, sc) \<in> set suite_benches"
    and r: "r = bench_record s b nw (snd sc) (wall s b nw)" using r unfolding all_results_iff by blast
  have "unat (snd sc) \<le> 100000" using suite_counts [OF b] by (simp add: suite_tasks_def)
  then have tasks: "unat (br_tasks r) \<le> 100000" by (simp add: r bench_record_def)
  have time: "timed (br_wall r)" using times by (simp add: r bench_record_def)
  have "br_throughput r = real (unat (br_tasks r)) / br_wall r" by (simp add: r bench_record_def)
  then have rate: "0 \<le> br_throughput r" "br_throughput r < 10 ^ Suc 13 - 1" using timed_rate [OF time tasks] by simp_all
  have wall: "0 \<le> br_wall r" "br_wall r < 10 ^ Suc 5 - 1" using time by (auto simp: timed_def)
  have "b \<in> set (map fst suite_benches)" using b by force
  then have names: "br_scheduler r \<in> set sched_names" "br_benchmark r \<in> set (map fst suite_benches)"
    and few: "unat (br_workers r) < 10 ^ Suc 7"
    using s small nw by (simp_all add: r bench_record_def)
  have fits: "fits (18, br_scheduler r)" "fits (22, br_benchmark r)"
    using names_facts(1,2) [OF names(1)] bench_names_facts(1,2) [OF names(2)] by (simp_all add: fits_def)
  have fits': "fits (8, show_nat (unat (br_workers r)))" "fits (12, show_nat (unat (br_tasks r)))"
      "fits (10, show_fixed 3 (br_wall r))" "fits (14, show_int (llround (br_throughput r)))"
    using fits_nat [OF few, of 8] fits_nat [of "unat (br_tasks r)" 11 12] tasks fits_fixed [OF wall, of 3 10] llround_nat [OF rate]
    by (simp_all add: fits_def)
  have all: "list_all fits (result_cells r)" using fits fits' by (simp add: result_cells_def)
  then have row: "is_row result_widths (cell_row (result_cells r))
      \<and> columns result_widths (cell_row (result_cells r)) = map snd (result_cells r)"
    using is_row_cells [of 18 "br_scheduler r" "tl (result_cells r)" result_widths] names_facts [OF names(1)]
    by (simp add: result_cells_def result_widths_def del: cell_row_simps columns.simps)
  moreover have "near (1 / 2) (real (nat (llround (br_throughput r)))) (br_throughput r)"
    using llround_nat(3) [OF rate] by (simp add: near_def)
  ultimately show ?thesis
    using reads_fixed [OF wall(1), of 3 "1 / 2000"] llround_nat(1) [OF rate] all by (simp add: result_cells_def del: cell_row_simps columns.simps)
qed

lemmas result_fits = result_fits_row [THEN conjunct1]
lemmas result_row = result_fits_row [THEN conjunct2]

definition speedup_names :: "string list" where
  "speedup_names = [''cpu_bound_50k'', ''recursive_d12'', ''tiny_tasks_100k'']"

definition speedup_row :: "(string \<Rightarrow> string \<Rightarrow> 32 word \<Rightarrow> real) \<Rightarrow> 32 word \<Rightarrow> string \<Rightarrow> string \<times> real \<times> real \<times> real" where
  "speedup_row wall most b = (b, real (suite_tasks b) / wall ''MutexQueue'' b most, real (suite_tasks b) / wall ''WorkStealing'' b most,
     wall ''MutexQueue'' b most / wall ''WorkStealing'' b most)"

lemma speedup_row_read:
  assumes "b \<in> set speedup_names" and times: "\<forall>s b n. timed (wall s b n)"
  shows "list_all fits (speedup_cells (speedup_row wall most b))
    \<and> is_row speedup_widths (cell_row (speedup_cells (speedup_row wall most b)))
    \<and> reads_speedup (speedup_row wall most b) (columns speedup_widths (cell_row (speedup_cells (speedup_row wall most b))))"
proof -
  define mt where "mt = real (suite_tasks b) / wall ''MutexQueue'' b most"
  define ws where "ws = real (suite_tasks b) / wall ''WorkStealing'' b most"
  define ratio where "ratio = wall ''MutexQueue'' b most / wall ''WorkStealing'' b most"
  have row: "speedup_row wall most b = (b, mt, ws, ratio)" by (simp add: speedup_row_def mt_def ws_def ratio_def)
  have "suite_tasks b \<le> 100000" by (simp add: suite_tasks_def)
  then have "0 \<le> mt" "mt \<le> 10 ^ 8" "0 \<le> ws" "ws \<le> 10 ^ 8" "0 \<le> ratio" "ratio \<le> 10 ^ 6"
    unfolding mt_def ws_def ratio_def using times timed_rate timed_ratio by blast+
  then have range: "0 \<le> mt" "mt < 10 ^ Suc 13 - 1" "0 \<le> ws" "ws < 10 ^ Suc 13 - 1" "0 \<le> ratio" "ratio < 10 ^ Suc 6 - 1"
    by simp_all
  have b: "length b \<le> 26" "plain b" "9 \<le> length b" "take 1 b \<noteq> ''-''" "take 9 b \<notin> {''Scheduler'', ''Benchmark''}"
    using assms(1) by (auto simp: speedup_names_def)
  let ?cs = "[(14, show_fixed 0 mt), (14, show_fixed 0 ws), (10, show_fixed 2 ratio)]"
  have all: "list_all fits ((26, b) # ?cs)"
    using b fits_fixed [OF range(1,2), of 0 14] fits_fixed [OF range(3,4), of 0 14] fits_fixed [OF range(5,6), of 2 10]
    by (simp add: fits_def)
  from is_row_cells [OF all _ b(3-5), of speedup_widths]
  have "is_row speedup_widths (cell_row ((26, b) # ?cs)) \<and> columns speedup_widths (cell_row ((26, b) # ?cs)) = b # map snd ?cs"
    by (simp add: speedup_widths_def del: cell_row_simps columns.simps)
  then show ?thesis
    using reads_fixed [OF range(1), of 0 "1 / 2"] reads_fixed [OF range(3), of 0 "1 / 2"] reads_fixed [OF range(5), of 2 "1 / 200"]
    using all by (simp add: row del: cell_row_simps columns.simps)
qed

subsection \<open>Which lines are rows\<close>

lemma is_row_length: "is_row ws l \<Longrightarrow> length l = sum_list ws"
  by (simp add: is_row_def)

lemma table_lines:
  assumes "list_all (\<lambda>l. CHR 0x0A \<notin> set l) ls" and "0 < sum_list ws"
  shows "table ws (concat (map line ls)) = map (columns ws) (filter (is_row ws) ls)"
proof -
  have "lines (concat (map line ls)) = ls @ [[]]" using lines_concat [OF assms(1), of "[]"] by (simp add: line_def [abs_def])
  moreover have "\<not> is_row ws []" using assms(2) is_row_length [of ws "[]"] by (metis less_irrefl list.size(3))
  ultimately show ?thesis by (simp add: table_def)
qed

lemma filter_rows:
  "(\<And>x. x \<in> set xs \<Longrightarrow> P (g x)) \<Longrightarrow> filter P (map g xs) = map g xs"
  "(\<And>x. x \<in> set xs \<Longrightarrow> \<not> P (g x)) \<Longrightarrow> filter P (map g xs) = []"
  by (auto simp: filter_id_conv filter_empty_conv)

lemma rule_no_row [simp]: "0 < n \<Longrightarrow> \<not> is_row ws (rule_line n)"
  by (cases n) (auto simp: is_row_def rule_line_def)

lemma widths [simp]:
  "sum_list result_widths = 84" "sum_list speedup_widths = 64" "sum_list scaling_widths = 81" "sum_list summary_widths = 82"
  by (simp_all add: result_widths_def speedup_widths_def scaling_widths_def summary_widths_def)

lemma headers_no_row [simp]:
  "\<not> is_row ws (cell_row header_cells)" "\<not> is_row ws (cell_row speedup_header_cells)"
  "\<not> is_row ws (cell_row scaling_header_cells)" "\<not> is_row ws (cell_row summary_header_cells)"
  by (simp_all add: is_row_def header_cells_def result_widths_def speedup_header_cells_def speedup_widths_def
      scaling_header_cells_def scaling_widths_def summary_header_cells_def summary_widths_def cell_def)

lemma headers_newline [simp]:
  "CHR 0x0A \<notin> set (cell_row header_cells)" "CHR 0x0A \<notin> set (cell_row speedup_header_cells)"
  "CHR 0x0A \<notin> set (cell_row scaling_header_cells)" "CHR 0x0A \<notin> set (cell_row summary_header_cells)"
  "CHR 0x0A \<notin> set (rule_line n)"
  by (auto simp: rule_line_def header_cells_def result_widths_def speedup_header_cells_def speedup_widths_def
      scaling_header_cells_def scaling_widths_def summary_header_cells_def summary_widths_def cell_def)

lemma no_row: "length l \<noteq> sum_list ws \<Longrightarrow> \<not> is_row ws l"
  by (auto simp: is_row_def)

lemma plain_newline: "plain s \<Longrightarrow> CHR 0x0A \<notin> set s"
  by (simp add: plain_def)

lemma show_nat_newline [simp]: "CHR 0x0A \<notin> set (show_nat n)"
  using plain_newline show_nat_plain by blast

lemma is_row_newline: "list_all fits cs \<Longrightarrow> CHR 0x0A \<notin> set (cell_row cs)"
  by (rule cell_row_newline)

lemma suite_tables:
  assumes small: "\<forall>n \<in> set counts. unat n < 10 ^ 8" and times: "\<forall>s b n. timed (wall s b n)"
  shows "filter (is_row result_widths) (suite_lines wall counts) = map (\<lambda>r. cell_row (result_cells r)) (all_results wall counts)"
    and "filter (is_row speedup_widths) (suite_lines wall counts) = []"
proof -
  have part: "filter (is_row result_widths) (map (\<lambda>r. cell_row (result_cells r)) (run_suite (wall s) s counts))
      = map (\<lambda>r. cell_row (result_cells r)) (run_suite (wall s) s counts)"
    "filter (is_row speedup_widths) (map (\<lambda>r. cell_row (result_cells r)) (run_suite (wall s) s counts)) = []"
    "\<not> is_row result_widths (''=== '' @ s @ '' ==='')" "\<not> is_row speedup_widths (''=== '' @ s @ '' ==='')"
    if "s \<in> set sched_names" for s
  proof -
    have row: "is_row result_widths (cell_row (result_cells r))" if "r \<in> set (run_suite (wall s) s counts)" for r
      using result_row [OF _ small times, of r] that \<open>s \<in> set sched_names\<close> by (auto simp: all_results_def)
    then show "filter (is_row result_widths) (map (\<lambda>r. cell_row (result_cells r)) (run_suite (wall s) s counts))
      = map (\<lambda>r. cell_row (result_cells r)) (run_suite (wall s) s counts)" by (rule filter_rows(1))
    have "\<not> is_row speedup_widths (cell_row (result_cells r))" if "r \<in> set (run_suite (wall s) s counts)" for r
      using is_row_length [OF row [OF that]] by (intro no_row) simp
    then show "filter (is_row speedup_widths) (map (\<lambda>r. cell_row (result_cells r)) (run_suite (wall s) s counts)) = []"
      by (rule filter_rows(2))
    show "\<not> is_row result_widths (''=== '' @ s @ '' ==='')" "\<not> is_row speedup_widths (''=== '' @ s @ '' ==='')"
      using names_facts(1) [OF that] by (auto intro!: no_row)
  qed
  have blank: "\<not> is_row result_widths []" "\<not> is_row speedup_widths []" by (simp_all add: no_row)
  show "filter (is_row result_widths) (suite_lines wall counts) = map (\<lambda>r. cell_row (result_cells r)) (all_results wall counts)"
    unfolding suite_lines_def all_results_def filter_concat map_concat map_map comp_def
    by (intro arg_cong [of _ _ concat] map_cong refl) (simp add: part part(3,4) [simplified] blank del: cell_row_simps)
  show "filter (is_row speedup_widths) (suite_lines wall counts) = []"
    unfolding suite_lines_def filter_concat map_map comp_def
    by (simp add: part part(3,4) [simplified] blank del: cell_row_simps cong: map_cong)
qed

lemma suite_newline:
  assumes small: "\<forall>n \<in> set counts. unat n < 10 ^ 8" and times: "\<forall>s b n. timed (wall s b n)"
  shows "list_all (\<lambda>l. CHR 0x0A \<notin> set l) (suite_lines wall counts)"
proof -
  have "CHR 0x0A \<notin> set (cell_row (result_cells r))" if "r \<in> set (all_results wall counts)" for r
    using result_fits [OF that small times] by (rule cell_row_newline)
  then have rows: "CHR 0x0A \<notin> set (cell_row (result_cells r))" if "s \<in> set sched_names" "r \<in> set (run_suite (wall s) s counts)" for s r
    using that by (auto simp: all_results_def)
  show ?thesis
    using rows names_facts(2) plain_newline by (auto simp: suite_lines_def list_all_iff simp del: cell_row_simps)
qed

lemma counts_below:
  assumes counts: "thread_counts hw = Some counts" and hw: "unat hw < 10 ^ 8"
  shows "\<forall>n \<in> set counts. unat n < 10 ^ 8"
proof -
  have "unat hw < 2 ^ 31" using hw by simp
  from sweep_terminates [OF this, of 1] obtain ns where ns: "sweep 1 hw = Some ns" "sorted_wrt (<) ns" "\<forall>m. m \<in> set ns \<longrightarrow> m \<le> hw"
    using swept_below(1) by auto
  then have "counts = ns" using counts by (simp add: thread_counts_def remdups_sorted)
  then show ?thesis using ns(3) hw by (metis order.strict_trans1 word_le_nat_alt)
qed

lemma bench_tables:
  assumes counts: "thread_counts hw = Some counts" and hw: "unat hw < 10 ^ 8" "hw \<noteq> 0" and times: "\<forall>s b n. timed (wall s b n)"
  shows "\<exists>text. bench_main hw wall = Prints text
    \<and> table result_widths text = map (\<lambda>r. columns result_widths (cell_row (result_cells r))) (all_results wall counts)
    \<and> table speedup_widths text
        = map (\<lambda>b. columns speedup_widths (cell_row (speedup_cells (speedup_row wall (last counts) b)))) speedup_names"
proof -
  note small = counts_below [OF counts hw(1)]
  have table: "speedup_table (all_results wall counts) counts = Some (map (speedup_row wall (last counts)) speedup_names)"
    using speedup_table_reports [OF counts hw(2) timed_pos [OF times]] by (simp add: speedup_row_def [abs_def] speedup_names_def)
  have "counts \<noteq> []" using table by (auto simp: speedup_table_def)
  then have most: "length (show_nat (unat (last counts))) \<le> 8" "length (show_nat (unat hw)) \<le> 8"
    using small hw(1) show_nat_length [of _ 7] by simp_all
  let ?rows = "map (\<lambda>b. cell_row (speedup_cells (speedup_row wall (last counts) b))) speedup_names"
  let ?ls = "bench_lines hw wall counts (map (speedup_row wall (last counts)) speedup_names)"
  have row: "is_row speedup_widths (cell_row (speedup_cells (speedup_row wall (last counts) b)))" if "b \<in> set speedup_names" for b
    using speedup_row_read [OF that times] by blast
  have rows: "filter (is_row speedup_widths) ?rows = ?rows" "filter (is_row result_widths) ?rows = []"
    using row is_row_length [OF row] by (auto intro!: filter_rows no_row)
  let ?title = "''=== SPEEDUP: WorkStealing vs MutexQueue at '' @ show_nat (unat (last counts)) @ '' threads ===''"
  let ?intro = "''Hardware concurrency: '' @ show_nat (unat hw) @ '' logical cores''"
  have others: "\<not> is_row result_widths ?title" "\<not> is_row speedup_widths ?title" "\<not> is_row result_widths ?intro"
      "\<not> is_row speedup_widths ?intro" "\<not> is_row result_widths []" "\<not> is_row speedup_widths []"
    using most by (auto intro!: no_row)
  have "CHR 0x0A \<notin> set (cell_row (speedup_cells (speedup_row wall (last counts) b)))" if "b \<in> set speedup_names" for b
    using speedup_row_read [OF that times] cell_row_newline by blast
  then have "list_all (\<lambda>l. CHR 0x0A \<notin> set l) ?ls"
    using suite_newline [OF small times] by (auto simp: bench_lines_def list_all_iff comp_def simp del: cell_row_simps)
  note read = table_lines [OF this]
  have "filter (is_row result_widths) ?ls = map (\<lambda>r. cell_row (result_cells r)) (all_results wall counts)"
      "filter (is_row speedup_widths) ?ls = ?rows"
    unfolding bench_lines_def using suite_tables [OF small times] rows others
    by (simp_all add: comp_def others [simplified] del: cell_row_simps append_Cons)
  then show ?thesis
    using bench_main_lines [OF counts table] read [of result_widths] read [of speedup_widths]
    by (intro exI [of _ "concat (map line ?ls)"]) (simp add: comp_def del: cell_row_simps columns.simps)
qed

section \<open>What the scaling program prints\<close>

definition scaling_intro :: "32 word \<Rightarrow> string list" where
  "scaling_intro hw = [''Hardware concurrency: '' @ show_nat (unat hw) @ '' logical cores'',
     ''Workload: 60000 flat tasks, or 1920-node DAG (32w x 60d); 400 iters per task'', [],
     ''=== Scaling: flat CPU-bound workload ==='']"

definition summary_cells :: "scaling_row list \<Rightarrow> string \<Rightarrow> string \<Rightarrow> (nat \<times> string) list" where
  "summary_cells rows sn wl = [(16, sn), (10, wl)]
     @ map (\<lambda>n. (14, show_int (llround (the (summary_cell rows sn wl n))))) row_counts"

definition scaling_lines :: "32 word \<Rightarrow> (string \<Rightarrow> string \<Rightarrow> 32 word \<Rightarrow> real) \<Rightarrow> string list" where
  "scaling_lines hw wall =
     scaling_intro hw @ [cell_row scaling_header_cells, rule_line 81]
     @ map (\<lambda>r. cell_row (row_cells r)) (workload_rows ''flat'' kNumTasks wall)
     @ [[], ''=== Scaling: DAG workload (32w x 60d pipeline) ==='', cell_row scaling_header_cells, rule_line 81]
     @ map (\<lambda>r. cell_row (row_cells r)) (workload_rows ''dag'' dag_nodes wall)
     @ [[], ''=== Throughput summary (tasks/sec) ==='', cell_row summary_header_cells, rule_line 82]
     @ map (\<lambda>(sn, wl). cell_row (summary_cells (all_rows wall) sn wl)) (List.product sched_names [''flat'', ''dag''])"

lemma numbers:
  "show_nat 60000 = ''60000''" "show_nat 1920 = ''1920''" "show_nat 32 = ''32''" "show_nat 60 = ''60''"
  "show_nat 400 = ''400''" "show_nat (Suc 0) = ''1''" "show_nat 2 = ''2''" "show_nat 4 = ''4''" "show_nat 8 = ''8''"
  by (simp_all add: show_nat.simps digit_def)

lemma show_int_numeral: "show_int (numeral k) = show_nat (numeral k)"
  by (simp add: show_int_def)

lemma all_rows_workloads: "all_rows wall = workload_rows ''flat'' kNumTasks wall @ workload_rows ''dag'' dag_nodes wall"
  by (simp add: all_rows_def workload_rows_def)

lemma prints_scaling_header: "prints_lines print_scaling_header [cell_row scaling_header_cells, rule_line 81]"
  by (simp add: print_simps print_scaling_header_def scaling_header_cells_def scaling_widths_def)

lemma prints_summary_header: "prints_lines print_summary_header
    [[], ''=== Throughput summary (tasks/sec) ==='', cell_row summary_header_cells, rule_line 82]"
  by (simp add: print_simps print_summary_header_def summary_header_cells_def summary_widths_def row_counts_def numbers)

lemma prints_summary:
  assumes "\<forall>n \<in> set row_counts. summary_cell rows sn wl n \<noteq> None"
  shows "prints (print_summary rows sn wl) (line (cell_row (summary_cells rows sn wl)))"
  using assms by (auto simp: print_simps print_summary_def summary_cells_def row_counts_def)

lemma product_rows: "concat (map (\<lambda>sn. map (f sn) wls) sns) = map (\<lambda>(sn, wl). f sn wl) (List.product sns wls)"
  by (induction sns) (simp_all add: comp_def)

lemma product_items: "concat (map (\<lambda>sn. concat (map (f sn) wls)) sns) = concat (map (\<lambda>(sn, wl). f sn wl) (List.product sns wls))"
  by (induction sns) (simp_all add: comp_def)

lemma scaling_main_lines:
  assumes times: "\<forall>s b n. timed (wall s b n)"
  shows "scaling_main hw wall = Prints (concat (map line (scaling_lines hw wall)))"
proof -
  let ?rows = "all_rows wall"
  have intro: "prints_lines (print_intro hw @ [O_str (''=== Scaling: flat CPU-bound workload ==='' @ newline)]) (scaling_intro hw)"
    by (simp add: print_simps print_intro_def scaling_intro_def kNumTasks_def kDagWidth_def kDagDepth_def kWorkIters_def show_int_numeral numbers)
  have title: "prints_lines [O_str (newline @ ''=== Scaling: DAG workload (''), O_int (int kDagWidth), O_str ''w x '', O_int (int kDagDepth),
      O_str (''d pipeline) ==='' @ newline)] [[], ''=== Scaling: DAG workload (32w x 60d pipeline) ==='']"
    by (simp add: print_simps kDagWidth_def kDagDepth_def show_int_numeral numbers)
  have "prints_lines (concat (map (\<lambda>(sn, wl). print_summary ?rows sn wl) (List.product sched_names [''flat'', ''dag''])))
      (concat (map (\<lambda>(sn, wl). [cell_row (summary_cells ?rows sn wl)]) (List.product sched_names [''flat'', ''dag''])))"
  proof (rule prints_lines_concat)
    fix x
    assume "x \<in> set (List.product sched_names [''flat'', ''dag''])"
    then obtain sn wl where x: "x = (sn, wl)" "sn \<in> set sched_names" "wl \<in> {''flat'', ''dag''}" by auto
    have "\<forall>n \<in> set row_counts. summary_cell ?rows sn wl n \<noteq> None"
      using summary_finds [OF timed_pos [OF times] x(2,3)] by simp
    from prints_summary [OF this] show "prints_lines (case x of (sn, wl) \<Rightarrow> print_summary ?rows sn wl)
        (case x of (sn, wl) \<Rightarrow> [cell_row (summary_cells ?rows sn wl)])"
      by (simp add: x(1) prints_lines_def)
  qed
  then have summary: "prints_lines (concat (map (\<lambda>sn. concat (map (print_summary ?rows sn) [''flat'', ''dag''])) sched_names))
      (map (\<lambda>(sn, wl). cell_row (summary_cells ?rows sn wl)) (List.product sched_names [''flat'', ''dag'']))"
    unfolding product_items by (simp add: split_def concat_map_singleton del: product.simps)
  have rows: "prints_lines (concat (map print_row rs)) (map (\<lambda>r. cell_row (row_cells r)) rs)" for rs
    by (rule prints_lines_map [OF prints_row])
  note all = prints_lines_append [OF intro prints_lines_append [OF prints_scaling_header prints_lines_append [OF rows
      prints_lines_append [OF title prints_lines_append [OF prints_scaling_header prints_lines_append [OF rows
      prints_lines_append [OF prints_summary_header summary]]]]]]]
  have "scaling_main hw wall = printed ((print_intro hw @ [O_str (''=== Scaling: flat CPU-bound workload ==='' @ newline)])
      @ print_scaling_header @ concat (map print_row (workload_rows ''flat'' kNumTasks wall))
      @ [O_str (newline @ ''=== Scaling: DAG workload (''), O_int (int kDagWidth), O_str ''w x '', O_int (int kDagDepth),
           O_str (''d pipeline) ==='' @ newline)]
      @ print_scaling_header @ concat (map print_row (workload_rows ''dag'' dag_nodes wall)) @ print_summary_header
      @ concat (map (\<lambda>sn. concat (map (print_summary ?rows sn) [''flat'', ''dag''])) sched_names))"
    by (simp only: scaling_main_def Let_def all_rows_workloads append_assoc)
  also have "\<dots> = Prints (concat (map line (scaling_lines hw wall)))"
    using all unfolding prints_lines_def by (intro printed_prints) (simp only: scaling_lines_def append_assoc append.simps)
  finally show ?thesis .
qed

lemma scaling_loop_wall: "r \<in> set (scaling_loop sn wl tasks w ns base) \<Longrightarrow> sr_wall r = w (sr_threads r)"
  by (induction ns arbitrary: base) (auto simp: scaling_row_of_def Let_def)

lemma scaling_loop_names: "r \<in> set (scaling_loop sn wl tasks w ns base) \<Longrightarrow> sr_scheduler r = sn \<and> sr_workload r = wl"
  by (induction ns arbitrary: base) (auto simp: scaling_row_of_def Let_def)

lemma row_wall: "r \<in> set (all_rows wall) \<Longrightarrow> sr_wall r = wall (sr_scheduler r) (sr_workload r) (sr_threads r)"
  using scaling_loop_wall scaling_loop_names by (fastforce simp: all_rows_def)

lemma scaling_row_read:
  assumes r: "r \<in> set (all_rows wall)" and times: "\<forall>s b n. timed (wall s b n)"
  shows "list_all fits (row_cells r) \<and> is_row scaling_widths (cell_row (row_cells r))
    \<and> reads_row r (columns scaling_widths (cell_row (row_cells r)))"
proof -
  obtain sn wl n where sn: "sr_scheduler r \<in> set sched_names" and wl: "sr_workload r \<in> {''flat'', ''dag''}"
    and n: "sr_threads r \<in> set row_counts" and r': "row_spec wall (sr_scheduler r) (sr_workload r) (sr_threads r) r"
    using rows_iff(1) [OF timed_pos [OF times] r] by (auto simp: row_spec_def)
  let ?w = "wall (sr_scheduler r) (sr_workload r)" and ?n = "sr_threads r"
  have time: "timed (sr_wall r)" using row_wall [OF r] times by simp
  have few: "unat ?n < 10 ^ Suc 0" "1 \<le> real (unat ?n)" using n by (auto simp: row_counts_def)
  have "row_tasks (sr_workload r) \<le> 100000" by (simp add: row_tasks_def)
  with timed_rate times r' have tp: "0 \<le> sr_throughput r" "sr_throughput r \<le> 10 ^ 8" by (auto simp: row_spec_def)
  have sp: "0 \<le> sr_speedup r" "sr_speedup r \<le> 10 ^ 6" using timed_ratio times r' by (auto simp: row_spec_def)
  have "sr_efficiency r = sr_speedup r / real (unat ?n)" using r' by (simp add: row_spec_def)
  moreover have "sr_speedup r / real (unat ?n) \<le> sr_speedup r / 1" using sp few(2) by (intro divide_left_mono) auto
  moreover have "0 \<le> sr_speedup r / real (unat ?n)" by (rule divide_nonneg_nonneg [OF sp(1) of_nat_0_le_iff])
  ultimately have eff: "0 \<le> sr_efficiency r" "sr_efficiency r \<le> 10 ^ 6" using sp by simp_all
  have range: "0 \<le> sr_wall r" "sr_wall r < 10 ^ Suc 6 - 1" "sr_throughput r < 10 ^ Suc 13 - 1" "sr_speedup r < 10 ^ Suc 6 - 1"
      "sr_efficiency r < 10 ^ Suc 6 - 1"
    using time tp sp eff by (auto simp: timed_def)
  have fits: "fits (16, sr_scheduler r)" "fits (10, sr_workload r)" "fits (9, show_nat (unat ?n))"
    using names_facts(1,2) [OF sn] wl fits_nat [OF few(1), of 9] by (auto simp: fits_def)
  have fits': "fits (12, show_fixed 4 (sr_wall r))" "fits (14, show_fixed 0 (sr_throughput r))"
      "fits (10, show_fixed 2 (sr_speedup r))" "fits (10, show_fixed 2 (sr_efficiency r))"
    using fits_fixed [OF range(1,2), of 4 12] fits_fixed [OF tp(1) range(3), of 0 14] fits_fixed [OF sp(1) range(4), of 2 10]
      fits_fixed [OF eff(1) range(5), of 2 10] by simp_all
  have all: "list_all fits (row_cells r)" using fits fits' by (simp add: row_cells_def)
  then have row: "is_row scaling_widths (cell_row (row_cells r)) \<and> columns scaling_widths (cell_row (row_cells r)) = map snd (row_cells r)"
    using is_row_cells [of 16 "sr_scheduler r" "tl (row_cells r)" scaling_widths] names_facts [OF sn]
    by (simp add: row_cells_def scaling_widths_def del: cell_row_simps columns.simps)
  then show ?thesis
    using all reads_fixed [OF range(1), of 4 "1 / 20000"] reads_fixed [OF tp(1), of 0 "1 / 2"]
      reads_fixed [OF sp(1), of 2 "1 / 200"] reads_fixed [OF eff(1), of 2 "1 / 200"]
    by (simp add: row_cells_def del: cell_row_simps columns.simps)
qed

text \<open>A line of the summary has the four throughputs of a scheduler and a workload.\<close>

definition reads_summary :: "(32 word \<Rightarrow> real) \<Rightarrow> string \<Rightarrow> string \<Rightarrow> string list \<Rightarrow> bool" where
  "reads_summary throughput sn wl cs \<longleftrightarrow> take 2 cs = [sn, wl]
     \<and> list_all2 (\<lambda>n c. near (1 / 2) (read_nat c) (throughput n)) row_counts (drop 2 cs)"

lemma summary_row_read:
  assumes sn: "sn \<in> set sched_names" and wl: "wl \<in> {''flat'', ''dag''}" and times: "\<forall>s b n. timed (wall s b n)"
  defines "row \<equiv> cell_row (summary_cells (all_rows wall) sn wl)"
  shows "list_all fits (summary_cells (all_rows wall) sn wl) \<and> is_row summary_widths row
    \<and> reads_summary (\<lambda>n. real (row_tasks wl) / wall sn wl n) sn wl (columns summary_widths row)"
proof -
  let ?tp = "\<lambda>n. real (row_tasks wl) / wall sn wl n"
  have found: "summary_cell (all_rows wall) sn wl n = Some (?tp n)" if "n \<in> set row_counts" for n
    by (rule summary_finds [OF timed_pos [OF times] sn wl that])
  have "row_tasks wl \<le> 100000" by (simp add: row_tasks_def)
  with timed_rate times have tp0: "0 \<le> ?tp n" and le: "?tp n \<le> 10 ^ 8" for n by blast+
  have "?tp n < 10 ^ Suc 13 - 1" for n by (rule order.strict_trans1 [OF le]) simp
  note tp = tp0 this
  note count = llround_nat [OF tp]
  have cells: "summary_cells (all_rows wall) sn wl = [(16, sn), (10, wl)] @ map (\<lambda>n. (14, show_int (llround (?tp n)))) row_counts"
    using found by (simp add: summary_cells_def)
  have all: "list_all fits (summary_cells (all_rows wall) sn wl)"
    using names_facts(1,2) [OF sn] wl count(1,2) unfolding cells by (auto simp: fits_def list_all_iff)
  then have "is_row summary_widths row \<and> columns summary_widths row = map snd (summary_cells (all_rows wall) sn wl)"
    using is_row_cells [of 16 sn "tl (summary_cells (all_rows wall) sn wl)" summary_widths] names_facts [OF sn]
    by (simp add: row_def cells row_counts_def summary_widths_def del: cell_row_simps columns.simps)
  with all count(1,3) show ?thesis
    by (simp add: cells reads_summary_def near_def list_all2_map2 list.rel_refl del: cell_row_simps columns.simps)
qed

lemma scaling_tables:
  assumes times: "\<forall>s b n. timed (wall s b n)"
  shows "\<exists>text. scaling_main hw wall = Prints text
    \<and> table scaling_widths text = map (\<lambda>r. columns scaling_widths (cell_row (row_cells r))) (all_rows wall)
    \<and> table summary_widths text = map (\<lambda>(sn, wl). columns summary_widths (cell_row (summary_cells (all_rows wall) sn wl)))
        (List.product sched_names [''flat'', ''dag''])"
proof -
  let ?pairs = "List.product sched_names [''flat'', ''dag'']"
  let ?sum = "\<lambda>(sn, wl). cell_row (summary_cells (all_rows wall) sn wl)"
  have read: "list_all fits (row_cells r) \<and> is_row scaling_widths (cell_row (row_cells r))" if "r \<in> set (all_rows wall)" for r
    using scaling_row_read [OF that times] by blast
  have rows: "filter (is_row scaling_widths) (map (\<lambda>r. cell_row (row_cells r)) rs) = map (\<lambda>r. cell_row (row_cells r)) rs"
    "filter (is_row summary_widths) (map (\<lambda>r. cell_row (row_cells r)) rs) = []"
    "list_all (\<lambda>l. CHR 0x0A \<notin> set l) (map (\<lambda>r. cell_row (row_cells r)) rs)"
    if rs: "set rs \<subseteq> set (all_rows wall)" for rs
  proof -
    have row: "is_row scaling_widths (cell_row (row_cells r))" "CHR 0x0A \<notin> set (cell_row (row_cells r))" if "r \<in> set rs" for r
      using read [of r] that rs cell_row_newline by blast+
    then show "filter (is_row scaling_widths) (map (\<lambda>r. cell_row (row_cells r)) rs) = map (\<lambda>r. cell_row (row_cells r)) rs"
      by (intro filter_rows(1))
    have "\<not> is_row summary_widths (cell_row (row_cells r))" if "r \<in> set rs" for r
      using is_row_length [OF row(1) [OF that]] by (intro no_row) simp
    then show "filter (is_row summary_widths) (map (\<lambda>r. cell_row (row_cells r)) rs) = []" by (rule filter_rows(2))
    show "list_all (\<lambda>l. CHR 0x0A \<notin> set l) (map (\<lambda>r. cell_row (row_cells r)) rs)" using row(2) by (simp add: list_all_iff)
  qed
  have summary: "is_row summary_widths (?sum x)" "CHR 0x0A \<notin> set (?sum x)" if "x \<in> set ?pairs" for x
    using summary_row_read [OF _ _ times, of "fst x" "snd x"] that cell_row_newline by (auto simp: split_def)
  have sums: "filter (is_row summary_widths) (map ?sum ?pairs) = map ?sum ?pairs"
    by (rule filter_rows(1)) (rule summary(1))
  have "\<not> is_row scaling_widths (?sum x)" if "x \<in> set ?pairs" for x
    using is_row_length [OF summary(1) [OF that]] by (intro no_row) simp
  then have no_sums: "filter (is_row scaling_widths) (map ?sum ?pairs) = []" by (rule filter_rows(2))
  have few: "length (show_nat (unat hw)) \<le> 10"
  proof (rule show_nat_length [of _ 9, simplified])
    have "unat hw < 2 ^ LENGTH(32)" by (rule unsigned_less)
    then show "unat hw < 10000000000" by simp
  qed
  have intro: "filter (is_row scaling_widths) (scaling_intro hw) = []" "filter (is_row summary_widths) (scaling_intro hw) = []"
    using few by (simp_all add: scaling_intro_def no_row)
  have titles: "\<not> is_row ws []" "\<not> is_row ws ''=== Scaling: DAG workload (32w x 60d pipeline) ===''"
      "\<not> is_row ws ''=== Throughput summary (tasks/sec) ===''" if "ws \<in> {scaling_widths, summary_widths}" for ws
    using that by (auto simp: no_row)
  have sub: "set (workload_rows ''flat'' kNumTasks wall) \<subseteq> set (all_rows wall)" "set (workload_rows ''dag'' dag_nodes wall) \<subseteq> set (all_rows wall)"
    by (auto simp: all_rows_workloads)
  have "list_all (\<lambda>l. CHR 0x0A \<notin> set l) (map ?sum ?pairs)"
    unfolding list_all_iff set_map using summary(2) by blast
  then have "list_all (\<lambda>l. CHR 0x0A \<notin> set l) (scaling_lines hw wall)"
    unfolding scaling_lines_def list_all_append using rows(3) [OF sub(1)] rows(3) [OF sub(2)]
    by (simp add: scaling_intro_def del: cell_row_simps product.simps list.map)
  note table_of = table_lines [OF this]
  have "filter (is_row scaling_widths) (scaling_lines hw wall) = map (\<lambda>r. cell_row (row_cells r)) (all_rows wall)"
    "filter (is_row summary_widths) (scaling_lines hw wall) = map ?sum ?pairs"
    unfolding scaling_lines_def filter_append intro rows(1,2) [OF sub(1)] rows(1,2) [OF sub(2)] sums no_sums
    by (simp_all add: titles all_rows_workloads del: cell_row_simps product.simps)
  then show ?thesis
    using scaling_main_lines [OF times, of hw] table_of [of scaling_widths] table_of [of summary_widths]
    by (intro exI [of _ "concat (map line (scaling_lines hw wall))"]) (simp add: comp_def split_def del: cell_row_simps columns.simps product.simps)
qed

section \<open>Properties\<close>

text \<open>C28. The benchmark program from its first line to its last, when every time measured is between a
  millisecond and 1000 seconds: for 1 to \<open>10 ^ 8 - 1\<close> processors it prints a text whose tables, read by
  their columns, give back every record of the sweep in its order, with the names and counts exact
  and the measurements within half a unit of the last place printed, and the speedups of the three
  benchmarks at the largest thread count. If \<^verbatim>\<open>hardware_concurrency()\<close> is 0, it runs into undefined
  behaviour; from \<open>2 ^ 31\<close> on the sweep does not end. Between \<open>10 ^ 8\<close> and \<open>2 ^ 31\<close> the
  thread counts outgrow their column, and nothing is claimed.\<close>

theorem bench_report_roundtrip:
  assumes "0 < unat hw" and "unat hw < 10 ^ 8" and "\<forall>s b n. timed (wall s b n)" and "2 ^ 31 \<le> unat hw'"
  shows "(\<exists>text counts. bench_main hw wall = Prints text \<and> thread_counts hw = Some counts
      \<and> list_all2 reads_result (all_results wall counts) (table result_widths text)
      \<and> list_all2 (\<lambda>b. reads_speedup (speedup_row wall (last counts) b)) speedup_names (table speedup_widths text))
    \<and> bench_main 0 wall = Undefined \<and> bench_main hw' wall = Diverges"
proof (intro conjI)
  have hw: "hw \<noteq> 0" "unat hw < 2 ^ 31" using assms(1,2) by auto
  from sweep_terminates [OF hw(2), of 1] swept_below(1) obtain counts where counts: "thread_counts hw = Some counts"
    by (auto simp: thread_counts_def)
  note small = counts_below [OF counts assms(2)]
  from bench_tables [OF counts assms(2) hw(1) assms(3)] obtain out where out: "bench_main hw wall = Prints out"
    "table result_widths out = map (\<lambda>r. columns result_widths (cell_row (result_cells r))) (all_results wall counts)"
    "table speedup_widths out
        = map (\<lambda>b. columns speedup_widths (cell_row (speedup_cells (speedup_row wall (last counts) b)))) speedup_names" by blast
  have "list_all2 reads_result (all_results wall counts) (table result_widths out)"
    unfolding out(2) list_all2_map2 using result_row [OF _ small assms(3)] by (intro list.rel_refl_strong) blast
  moreover have "list_all2 (\<lambda>b. reads_speedup (speedup_row wall (last counts) b)) speedup_names (table speedup_widths out)"
    unfolding out(3) list_all2_map2 using speedup_row_read [OF _ assms(3)] by (intro list.rel_refl_strong) blast
  ultimately show "\<exists>text counts. bench_main hw wall = Prints text \<and> thread_counts hw = Some counts
      \<and> list_all2 reads_result (all_results wall counts) (table result_widths text)
      \<and> list_all2 (\<lambda>b. reads_speedup (speedup_row wall (last counts) b)) speedup_names (table speedup_widths text)"
    using out(1) counts by blast
  show "bench_main 0 wall = Undefined"
    by (simp add: bench_main_def thread_counts_def sweep_unfold [of 1 0] speedup_table_def)
  have "2 ^ 31 \<le> hw'" using assms(4) by (simp add: word_le_nat_alt)
  from sweep_diverges [OF this, of 1] show "bench_main hw' wall = Diverges"
    by (simp add: bench_main_def thread_counts_def orbit_def)
qed

theorem bench_report_roundtrip_witness:
  "\<exists>text. bench_main 1 (\<lambda>s b n. 1 / 2) = Prints text \<and> length (table speedup_widths text) = 3"
proof -
  have "0 < unat (1 :: 32 word)" "unat (1 :: 32 word) < 10 ^ 8" "\<forall>s b n. timed ((\<lambda>s b n. 1 / 2) s b n)"
    and "2 ^ 31 \<le> unat (2 ^ 31 + 7 :: 32 word)"
    by (simp_all add: timed_def)
  from bench_report_roundtrip [OF this, THEN conjunct1] obtain out counts where "bench_main 1 (\<lambda>s b n. 1 / 2) = Prints out"
    "list_all2 (\<lambda>b. reads_speedup (speedup_row (\<lambda>s b n. 1 / 2) (last counts) b)) speedup_names (table speedup_widths out)"
    by blast
  then show ?thesis by (auto simp: speedup_names_def dest!: list_all2_lengthD)
qed

text \<open>C29. The scaling program from its first line to its last, when every time measured is between a
  millisecond and 1000 seconds: it prints a text from which every row can be read by its columns,
  with the names and counts exact and the times, throughputs, speedups and efficiencies within half a
  unit of the last place printed, and whose summary has, with the same rounding, the four throughputs
  of each scheduler and workload.\<close>

theorem scaling_report_roundtrip:
  assumes "\<forall>s b n. timed (wall s b n)"
  shows "\<exists>text. scaling_main hw wall = Prints text \<and> list_all2 reads_row (all_rows wall) (table scaling_widths text)
    \<and> list_all2 (\<lambda>(sn, wl). reads_summary (\<lambda>n. real (row_tasks wl) / wall sn wl n) sn wl)
        (List.product sched_names [''flat'', ''dag'']) (table summary_widths text)"
proof -
  from scaling_tables [OF assms, of hw] obtain out where out: "scaling_main hw wall = Prints out"
    "table scaling_widths out = map (\<lambda>r. columns scaling_widths (cell_row (row_cells r))) (all_rows wall)"
    "table summary_widths out = map (\<lambda>(sn, wl). columns summary_widths (cell_row (summary_cells (all_rows wall) sn wl)))
        (List.product sched_names [''flat'', ''dag''])" by blast
  have "list_all2 reads_row (all_rows wall) (table scaling_widths out)"
    unfolding out(2) list_all2_map2 using scaling_row_read [OF _ assms] by (intro list.rel_refl_strong) blast
  moreover have "list_all2 (\<lambda>(sn, wl). reads_summary (\<lambda>n. real (row_tasks wl) / wall sn wl n) sn wl)
        (List.product sched_names [''flat'', ''dag'']) (table summary_widths out)"
    unfolding out(3) list_all2_map2 using summary_row_read [OF _ _ assms]
    by (intro list.rel_refl_strong) (auto simp del: cell_row_simps columns.simps)
  ultimately show ?thesis using out(1) by blast
qed

theorem scaling_report_roundtrip_witness:
  "\<exists>text. scaling_main 8 (\<lambda>s b n. 1 / 2) = Prints text \<and> length (table summary_widths text) = 6"
proof -
  have "\<forall>s b n. timed ((\<lambda>s b n. 1 / 2) s b n)" by (simp add: timed_def)
  from scaling_report_roundtrip [OF this, of 8] obtain out where "scaling_main 8 (\<lambda>s b n. 1 / 2) = Prints out"
    "list_all2 (\<lambda>(sn, wl). reads_summary (\<lambda>n. real (row_tasks wl) / (1 / 2)) sn wl)
        (List.product sched_names [''flat'', ''dag'']) (table summary_widths out)" by blast
  then show ?thesis by (auto simp: sched_names_def dest!: list_all2_lengthD)
qed

end
