(* ===== verification/Self_Tests.thy ===== *)
theory Self_Tests
  imports Graph_Progress Deque_Machine
begin

text \<open>
  The test program \<^verbatim>\<open>src/tests.cpp\<close>: each test of the deque and of the
  schedulers as what it does and what it expects (the graph tests are in \<open>Graph_Tests\<close>). No
  expectation can fail, on any scheduler and in any interleaving.
\<close>

section \<open>The deque tests\<close>

text \<open>\<open>test_deque_basic\<close>: its eight expectations in order; the tasks are 0 and 1.\<close>

definition test_deque_basic :: "bool list" where
  "test_deque_basic =
     (let d0 = dq_new :: nat dq; d2 = dq_push (dq_push d0 (Some 0)) (Some 1);
          (t1, d3) = dq_pop d2; (t2, d4) = dq_pop d3; (t3, d5) = dq_pop d4
      in [dq_empty d0, \<not> dq_empty d2, dq_size d2 = 2, t1 \<noteq> None, dq_size d3 = 1, t2 \<noteq> None, dq_empty d4, t3 = None])"

text \<open>
  \<open>test_deque_steal\<close>: the thief is alone while it runs. Its inner loop ends when it has a task or
  the deque is empty.
\<close>

partial_function (option) steal_retry :: "'t dq \<Rightarrow> ('t option \<times> 't dq) option" where
  "steal_retry d =
     (let (r, d1) = dq_steal d
      in if res_task r \<noteq> None then Some (res_task r, d1) else if res_empty r then Some (None, d1) else steal_retry d1)"

primrec steal_rounds :: "nat \<Rightarrow> 't dq \<Rightarrow> ('t list \<times> 't dq) option" where
  "steal_rounds 0 d = Some ([], d)"
| "steal_rounds (Suc n) d =
     Option.bind (steal_retry d) (\<lambda>(t, d1). map_option (apfst (\<lambda>ts. (case t of None \<Rightarrow> ts | Some x \<Rightarrow> x # ts))) (steal_rounds n d1))"

text \<open>The tasks run by the thief, whose number is \<^verbatim>\<open>counter\<close>.\<close>

definition test_deque_steal :: "nat \<Rightarrow> nat list option" where
  "test_deque_steal n = map_option fst (steal_rounds n (fold (\<lambda>i d. dq_push d (Some i)) [0..<n] dq_new))"

text \<open>
  \<open>test_deque_concurrent\<close>: the owner pushes \<open>n\<close> tasks, \<open>k\<close> thieves steal until they leave, then the
  owner pops until it gets nothing. A thief leaves after a report of an empty deque, if \<open>empty()\<close>
  agrees; what it answers is left open.
\<close>

record concurrent =
  ct_pushed :: nat
  ct_saw :: "nat set"
  ct_gone :: "nat set"
  ct_count :: nat
  ct_over :: bool

definition ct_start :: concurrent where
  "ct_start = \<lparr>ct_pushed = 0, ct_saw = {}, ct_gone = {}, ct_count = 0, ct_over = False\<rparr>"

fun ct_next :: "nat \<Rightarrow> nat \<Rightarrow> nat dlabel \<Rightarrow> concurrent \<Rightarrow> concurrent option" where
  "ct_next n k DTau c = Some c"
| "ct_next n k (DPushed x) c =
     (if ct_pushed c < n \<and> x = ct_pushed c then Some (c\<lparr>ct_pushed := Suc (ct_pushed c)\<rparr>) else None)"
| "ct_next n k (DStolen i r) c =
     (if ct_pushed c = n \<and> i < k \<and> i \<notin> ct_gone c
      then Some (case res_task r of Some t \<Rightarrow> c\<lparr>ct_count := Suc (ct_count c)\<rparr>
        | None \<Rightarrow> if res_empty r then c\<lparr>ct_saw := insert i (ct_saw c)\<rparr> else c)
      else None)"
| "ct_next n k (DPopped r) c =
     (if ct_pushed c = n \<and> ct_gone c = {..<k} \<and> \<not> ct_over c
      then Some (case r of Some t \<Rightarrow> c\<lparr>ct_count := Suc (ct_count c)\<rparr> | None \<Rightarrow> c\<lparr>ct_over := True\<rparr>)
      else None)"

inductive ct_step :: "nat \<Rightarrow> nat \<Rightarrow> nat dsys \<times> concurrent \<Rightarrow> nat dlabel \<Rightarrow> nat dsys \<times> concurrent \<Rightarrow> bool" for n k where
  deque: "dq_step s l s' \<Longrightarrow> ct_next n k l c = Some c' \<Longrightarrow> ct_step n k (s, c) l (s', c')"
| leave: "i < k \<Longrightarrow> i \<in> ct_saw c \<Longrightarrow> ct_step n k (s, c) DTau (s, c\<lparr>ct_gone := insert i (ct_gone c)\<rparr>)"

section \<open>The scheduler tests\<close>

datatype test_task = Sum_task nat | Root_task | Child_task

fun test_body :: "test_task \<Rightarrow> test_task list" where
  "test_body Root_task = replicate 9 Child_task"
| "test_body t = []"

definition sum_commands :: "nat \<Rightarrow> nat \<Rightarrow> test_task command list" where
  "sum_commands n k = map (\<lambda>i. Submit_task (Sum_task i)) [0..<n] @ [Call_run k]"

definition spawn_commands :: "nat \<Rightarrow> test_task command list" where
  "spawn_commands k = [Submit_task Root_task, Call_run k]"

text \<open>\<^verbatim>\<open>sum\<close> and \<^verbatim>\<open>count\<close> after the steps \<open>ls\<close>.\<close>

fun test_adds :: "test_task \<Rightarrow> 64 word" where
  "test_adds (Sum_task i) = of_nat i"
| "test_adds t = 0"

fun test_counts :: "test_task \<Rightarrow> 32 word" where
  "test_counts (Sum_task i) = 0"
| "test_counts t = 1"

definition test_sum :: "test_task slabel list \<Rightarrow> 64 word" where
  "test_sum ls = (\<Sum>t\<in>#tally finished ls. test_adds t)"

definition test_count :: "test_task slabel list \<Rightarrow> 32 word" where
  "test_count ls = (\<Sum>t\<in>#tally finished ls. test_counts t)"

text \<open>\<^verbatim>\<open>int64_t(N - 1) * N / 2\<close>\<close>

definition sum_expected :: "nat \<Rightarrow> 64 word" where
  "sum_expected n = word_of_int ((int n - 1) * int n div 2)"

definition sched_tests :: "(test_task command list \<times> (test_task slabel list \<Rightarrow> bool)) list" where
  "sched_tests =
     [(sum_commands 50000 4, \<lambda>ls. test_sum ls = sum_expected 50000), (spawn_commands 2, \<lambda>ls. test_count ls = 10)]"

section \<open>The deque tests pass\<close>

lemma deque_basic_passes: "test_deque_basic = replicate 8 True"
  by code_simp

lemma push_tasks: "dq_inv d \<Longrightarrow> dq_inv (fold (\<lambda>i d. dq_push d (Some i)) is d) \<and> dq_list (fold (\<lambda>i d. dq_push d (Some i)) is d) = dq_list d @ map Some is"
proof (induction "is" arbitrary: d)
  case (Cons i "is")
  from dq_push_refines [OF Cons.prems, of "Some i"] Cons.IH [of "dq_push d (Some i)"] show ?case by simp
qed simp

lemma steal_retry_task:
  assumes "dq_inv d" and "dq_list d = Some x # ts"
  shows "\<exists>d1. steal_retry d = Some (Some x, d1) \<and> dq_inv d1 \<and> dq_list d1 = ts"
proof -
  obtain r d1 where st: "dq_steal d = (r, d1)" by fastforce
  with dq_steal_refines [OF assms(1)] assms(2) have "res_task r = Some x" "dq_inv d1" "dq_list d1 = ts" by auto
  with st show ?thesis by (subst steal_retry.simps) simp
qed

lemma steal_rounds_all:
  "dq_inv d \<Longrightarrow> dq_list d = map Some ts \<Longrightarrow> \<exists>d'. steal_rounds (length ts) d = Some (ts, d') \<and> dq_list d' = []"
proof (induction ts arbitrary: d)
  case (Cons t ts)
  from steal_retry_task [of d t "map Some ts"] Cons.prems
  obtain d1 where "steal_retry d = Some (Some t, d1)" "dq_inv d1" "dq_list d1 = map Some ts" by auto
  with Cons.IH [of d1] show ?case by auto
qed simp

lemma deque_steal_passes: "test_deque_steal n = Some [0..<n]"
proof -
  have "dq_inv (fold (\<lambda>i d. dq_push d (Some i)) [0..<n] dq_new)"
    "dq_list (fold (\<lambda>i d. dq_push d (Some i)) [0..<n] dq_new) = map Some [0..<n]"
    using push_tasks [OF dq_inv_new, of "[0..<n]"] dq_list_new by simp_all
  from steal_rounds_all [OF this] show ?thesis by (auto simp: test_deque_steal_def)
qed

text \<open>In the concurrent test a pop that returns nothing has found the deque empty, and nobody else is left.\<close>

lemma ct_run_deque:
  assumes "lts_run (ct_step n k) (dsys_init, ct_start) ls x"
  shows "dsys_inv (fst x) \<and> tally dputs ls = mset [0..<ct_pushed (snd x)] \<and> ct_count (snd x) = size (tally dtakes ls)
    \<and> tally dputs ls = adeque_content (dsys_abs (fst x)) + tally dtakes ls
    \<and> (ct_over (snd x) \<longrightarrow> adeque_content (dsys_abs (fst x)) = {#} \<and> ct_pushed (snd x) = n \<and> ct_gone (snd x) \<supseteq> {..<k})"
  using assms
proof (induction rule: lts_run.induct)
  case run_nil
  then show ?case
    by (simp add: ct_start_def dsys_inv_init) (simp add: dsys_init_def dsys_abs_def dq_abs_def dq_new_def adeque_content_def)
next
  case (run_snoc ls x l y)
  from run_snoc.hyps(2) show ?case
  proof cases
    case (deque s s' c c')
    have inv: "dsys_inv s" using run_snoc.IH deque(1) by simp
    note step = dq_step_ok [OF inv deque(3)]
    have bal: "adeque_content (dsys_abs s') + dtakes l = adeque_content (dsys_abs s) + dputs l"
      using step adeque_conserves by blast
    have none: "adeque_content (dsys_abs s') = {#}" if "l = DPopped None"
      using step that by (auto simp: adeque_popped adeque_content_def)
    have IH: "tally dputs ls = mset [0..<ct_pushed c]" "ct_count c = size (tally dtakes ls)"
      "tally dputs ls = adeque_content (dsys_abs s) + tally dtakes ls"
      "ct_over c \<Longrightarrow> adeque_content (dsys_abs s) = {#} \<and> ct_pushed c = n \<and> ct_gone c \<supseteq> {..<k}"
      using run_snoc.IH [unfolded deque(1) fst_conv snd_conv] by blast+
    have balance: "tally dputs (ls @ [l]) = adeque_content (dsys_abs s') + tally dtakes (ls @ [l])"
      using bal IH(3) by (simp add: ac_simps)
    have inv': "dsys_inv s'" using step by blast
    have "tally dputs (ls @ [l]) = mset [0..<ct_pushed c'] \<and> ct_count c' = size (tally dtakes (ls @ [l]))
      \<and> (ct_over c' \<longrightarrow> adeque_content (dsys_abs s') = {#} \<and> ct_pushed c' = n \<and> ct_gone c' \<supseteq> {..<k})"
    proof (cases l)
      case DTau
      then show ?thesis using IH(1,2,4) bal deque(4) by (simp del: mset_upt)
    next
      case (DPushed t)
      then show ?thesis using IH(1,2,4) deque(4) by (auto split: if_splits simp del: mset_upt)
    next
      case (DPopped r)
      have eq: "ct_pushed c = n" "ct_gone c = {..<k}" "\<not> ct_over c"
        "c' = (case r of Some t \<Rightarrow> c\<lparr>ct_count := Suc (ct_count c)\<rparr> | None \<Rightarrow> c\<lparr>ct_over := True\<rparr>)"
        using deque(4) DPopped by (simp_all split: if_splits)
      show ?thesis using IH(1,2) none eq DPopped by (cases r) (simp_all del: mset_upt)
    next
      case (DStolen i r)
      then show ?thesis using IH(1,2,4) deque(4)
        by (cases "res_task r") (auto split: if_splits simp del: mset_upt)
    qed
    with balance inv' show ?thesis unfolding deque(2) fst_conv snd_conv by blast
  next
    case (leave i c s)
    then show ?thesis using run_snoc.IH by (auto simp del: mset_upt)
  qed
qed

lemma deque_concurrent_passes:
  assumes "lts_run (ct_step n k) (dsys_init, ct_start) ls (s, c)" and "ct_over c"
  shows "ct_count c = n \<and> tally dtakes ls = mset [0..<n]"
  using ct_run_deque [OF assms(1)] assms(2) by (auto simp flip: size_mset)

section \<open>The scheduler tests pass\<close>

fun test_tree :: "test_task \<Rightarrow> test_task multiset" where
  "test_tree Root_task = add_mset Root_task (replicate_mset 9 Child_task)"
| "test_tree t = {#t#}"

lemma test_tree_ok: "is_tree test_body test_tree"
proof -
  have "test_tree t = add_mset t (trees test_tree (mset (test_body t)))" for t
    by (cases t) (simp_all add: trees_def numeral_eq_Suc)
  then show ?thesis by (simp add: is_tree_def trees_def)
qed

lemma trees_sum: "trees test_tree (mset (map Sum_task is)) = mset (map Sum_task is)"
  by (induction "is") simp_all

lemma program_ok_submits:
  "program_ok fits tree m (map Submit_task ts @ [Call_run k])
    \<longleftrightarrow> fits (m + size (trees tree (mset ts))) \<and> 0 < k \<and> fits 0"
  by (induction ts arbitrary: m) (simp_all add: add.assoc)

text \<open>A test that submits tasks and calls \<open>run\<close> once.\<close>

lemma one_run_test:
  assumes made: "make_scheduler nm = Some s0" and run: "lts_run (client_step any_step test_body) (s0, client_start cs) ls x"
    and cs: "cs = map Submit_task ts @ [Call_run k]" and k: "0 < k" and fits: "size (trees test_tree (mset ts)) \<le> 2 ^ kLog2Ring"
  shows "(ls = ls1 @ [SRunRet] \<longrightarrow> tally finished ls1 = trees test_tree (mset ts))
    \<and> (\<exists>ls' y. lts_run (client_step (steps_needed (fst x)) test_body) x ls' y \<and> cl_todo (snd y) = []
         \<and> count_list (ls @ ls') SRunRet = 1)"
proof (intro conjI impI)
  obtain c where c: "s0 = any_init c" using make_class [OF made] by blast
  have prog: "cs = program_of [(ts, k)]" by (simp add: cs)
  show "tally finished ls1 = trees test_tree (mset ts)" if "ls = ls1 @ [SRunRet]"
    using any.program_return [OF _ test_tree_ok, of c "[(ts, k)]" ls1 x] run that by (simp add: prog c)
  have "program_ok (any_fits c) test_tree 0 cs" using fits k by (simp add: cs program_ok_submits any_fits_def)
  moreover have "ends_with_run cs" by (simp add: cs ends_with_run_def)
  moreover have "runs cs = 1" by (simp add: cs)
  ultimately show "\<exists>ls' y. lts_run (client_step (steps_needed (fst x)) test_body) x ls' y \<and> cl_todo (snd y) = []
      \<and> count_list (ls @ ls') SRunRet = 1"
    using any_program_finish [OF test_tree_ok] run c by metis
qed

lemma Sum_less: "(\<Sum>i<n::nat. i) = n * (n - 1) div 2"
proof (induction n)
  case (Suc n)
  have "Suc n * (Suc n - 1) = n * (n - 1) + n * 2" by (cases n) simp_all
  with Suc show ?case by simp
qed simp

lemma sum_all:
  assumes "tally finished ls = trees test_tree (mset (map Sum_task [0..<n]))"
  shows "test_sum ls = sum_expected n"
proof -
  have "test_sum ls = (\<Sum>i\<in>#mset [0..<n]. of_nat i)"
    unfolding test_sum_def assms trees_sum by (simp add: image_mset.compositionality comp_def del: mset_upt)
  also have "\<dots> = of_nat (\<Sum>i<n. i)" by (simp add: sum_unfold_sum_mset [symmetric] lessThan_atLeast0)
  also have "(\<Sum>i<n. i) = n * (n - 1) div 2" by (rule Sum_less)
  also have "(of_nat (n * (n - 1) div 2) :: 64 word) = sum_expected n"
  proof -
    have "int (n * (n - 1) div 2) = (int n - 1) * int n div 2" by (cases n) (simp_all add: zdiv_int algebra_simps)
    then have "sum_expected n = word_of_int (int (n * (n - 1) div 2))" by (simp only: sum_expected_def)
    then show ?thesis by simp
  qed
  finally show ?thesis .
qed

lemma count_all:
  assumes "tally finished ls = trees test_tree {#Root_task#}"
  shows "test_count ls = 10"
  unfolding test_count_def assms by (simp add: trees_def)

text \<open>C30. The scheduler tests cannot fail: on each of the three classes and in every interleaving, whenever \<open>run\<close>
  has returned the sum, or the count of executed tasks, is what the test expects; and from every
  state the test can get into some continuation completes it, by the code alone unless \<open>run\<close> of the
  mutex class has missed its last notification.\<close>

theorem scheduler_tests_pass:
  assumes "make_scheduler nm = Some s0" and "(cs, ok) \<in> set sched_tests"
    and "lts_run (client_step any_step test_body) (s0, client_start cs) ls x"
  shows "(ls = ls1 @ [SRunRet] \<longrightarrow> ok ls1)
    \<and> (\<exists>ls' y. lts_run (client_step (if any_missed (fst x) then any_step else any_code) test_body) x ls' y
         \<and> cl_todo (snd y) = [] \<and> count_list (ls @ ls') SRunRet = 1)"
proof -
  consider (sum) "cs = map Submit_task (map Sum_task [0..<50000]) @ [Call_run 4]" "ok = (\<lambda>ls. test_sum ls = sum_expected 50000)"
    | (spawn) "cs = map Submit_task [Root_task] @ [Call_run 2]" "ok = (\<lambda>ls. test_count ls = 10)"
    using assms(2) by (auto simp: sched_tests_def sum_commands_def spawn_commands_def comp_def)
  then show ?thesis
  proof cases
    case sum
    have "size (trees test_tree (mset (map Sum_task [0..<50000]))) \<le> 2 ^ kLog2Ring"
      unfolding trees_sum by (simp add: kLog2Ring_def)
    from one_run_test [OF assms(1,3) sum(1) _ this, of ls1, unfolded steps_needed_def] sum_all [of ls1 50000] sum(2) show ?thesis by simp
  next
    case spawn
    have "size (trees test_tree (mset [Root_task])) \<le> 2 ^ kLog2Ring" by (simp add: trees_def kLog2Ring_def)
    from one_run_test [OF assms(1,3) spawn(1) _ this, of ls1, unfolded steps_needed_def] count_all [of ls1] spawn(2) show ?thesis by simp
  qed
qed

definition ws_spawn :: "test_task slabel list \<times> test_task any_sched \<times> test_task client" where
  "ws_spawn = play (client_do any_do test_body) (round_robin 200) (any_init WorkStealing, client_start (spawn_commands 2))"

theorem scheduler_tests_pass_witness: "last (fst ws_spawn) = SRunRet \<and> test_count (butlast (fst ws_spawn)) = 10"
proof -
  have ret: "fst ws_spawn = butlast (fst ws_spawn) @ [SRunRet]" by code_simp
  have run: "lts_run (client_step any_step test_body) (any_init WorkStealing, client_start (spawn_commands 2)) (fst ws_spawn) (snd ws_spawn)"
    unfolding ws_spawn_def by (rule client_play [OF any_do_step])
  have "(spawn_commands 2, \<lambda>ls. test_count ls = 10) \<in> set sched_tests" by (simp add: sched_tests_def)
  from scheduler_tests_pass [OF make_scheduler_of(3) this run, of "butlast (fst ws_spawn)"] ret
  have "test_count (butlast (fst ws_spawn)) = 10" by simp
  moreover have "last (fst ws_spawn) = SRunRet" by (subst ret) simp
  ultimately show ?thesis by blast
qed

end
