(* ===== verification/Graph_Tests.thy ===== *)
theory Graph_Tests
  imports Graph_Progress
begin

text \<open>
  The graph tests of \<^verbatim>\<open>src/tests.cpp\<close>: the graphs they build, the numbers their callables take from a
  counter, and what they expect of these numbers. No expectation can fail, on any scheduler and in
  any interleaving, and \<open>execute\<close> can always return.
\<close>

section \<open>The graph tests\<close>

text \<open>
  A node's callable takes the next number of \<^verbatim>\<open>ticker\<close> at some moment between its begin and its
  end. The list has the nodes in the order in which they did so far; the number of a node is its
  place, and -1 before.
\<close>

inductive ticked :: "glabel list \<Rightarrow> nat list \<Rightarrow> bool" where
  ticked_start: "ticked [] []"
| ticked_move: "ticked ls T \<Longrightarrow> (\<And>n. l = GEnd n \<Longrightarrow> n \<in> set T) \<Longrightarrow> ticked (ls @ [l]) T"
| ticked_tick: "ticked ls T \<Longrightarrow> GBegin n \<in> set ls \<Longrightarrow> GEnd n \<notin> set ls \<Longrightarrow> n \<notin> set T \<Longrightarrow> ticked ls (T @ [n])"

definition stamp :: "nat list \<Rightarrow> nat \<Rightarrow> int" where
  "stamp T n = (if n \<in> set T then int (length (takeWhile (\<lambda>m. m \<noteq> n) T)) else - 1)"

definition linear_chain :: "build_call list" where
  "linear_chain = [New_node, New_node, New_node, New_node, Depends_on 1 [0], Depends_on 2 [1], Depends_on 3 [2]]"

definition chain_expected :: "nat list \<Rightarrow> bool" where
  "chain_expected T \<longleftrightarrow> stamp T 0 < stamp T 1 \<and> stamp T 1 < stamp T 2 \<and> stamp T 2 < stamp T 3"

definition diamond_expected :: "nat list \<Rightarrow> bool" where
  "diamond_expected T \<longleftrightarrow> stamp T 0 < stamp T 1 \<and> stamp T 0 < stamp T 2 \<and> stamp T 1 < stamp T 3 \<and> stamp T 2 < stamp T 3"

text \<open>Node 0 is the root, node 1 the sink, the others are the leaves.\<close>

definition fork_join :: "nat \<Rightarrow> build_call list" where
  "fork_join n = [New_node, New_node]
     @ concat (map (\<lambda>i. [New_node, Depends_on (i + 2) [0], Depends_on 1 [i + 2]]) [0..<n])"

definition fork_join_expected :: "nat \<Rightarrow> nat list \<Rightarrow> bool" where
  "fork_join_expected n T \<longleftrightarrow> length (filter (\<lambda>m. 2 \<le> m) T) = n \<and> 0 \<le> stamp T 0 \<and> stamp T 0 < stamp T 1"

definition dag_tests :: "(build_call list \<times> (nat list \<Rightarrow> bool)) list" where
  "dag_tests = [(linear_chain, chain_expected), (diamond, diamond_expected), (fork_join 64, fork_join_expected 64)]"

section \<open>The order of the numbers\<close>

lemma stamp_snoc: "m \<in> set T \<Longrightarrow> stamp (T @ [n]) m = stamp T m"
  by (auto simp: stamp_def takeWhile_append1)

lemma stamp_new: "m \<in> set T \<Longrightarrow> n \<notin> set T \<Longrightarrow> stamp (T @ [n]) m < stamp (T @ [n]) n"
proof -
  assume m: "m \<in> set T" and n: "n \<notin> set T"
  have "takeWhile (\<lambda>x. x \<noteq> n) T = T" using n by (auto simp: takeWhile_eq_all_conv)
  then have "stamp (T @ [n]) n = int (length T)" using n by (simp add: stamp_def takeWhile_append2)
  moreover have "stamp (T @ [n]) m < int (length T)"
  proof -
    obtain us vs where T: "T = us @ m # vs" "m \<notin> set us" using split_list_first [OF m] by blast
    then have "takeWhile (\<lambda>x. x \<noteq> m) T = us" by (auto simp: takeWhile_append)
    with m have "stamp T m = int (length us)" by (simp add: stamp_def)
    moreover have "length us < length T" by (simp add: T(1))
    ultimately show ?thesis by (simp add: stamp_snoc [OF m])
  qed
  ultimately show ?thesis by simp
qed

lemma ended_iff: "n \<in># tally ended_nodes ls \<longleftrightarrow> GEnd n \<in> set ls"
proof (induction ls)
  case (Cons l ls)
  then show ?case by (cases l) auto
qed simp

lemma begun_iff: "n \<in># tally begun_nodes ls \<longleftrightarrow> GBegin n \<in> set ls"
proof (induction ls)
  case (Cons l ls)
  then show ?case by (cases l) auto
qed simp

context node_scheduler begin

lemma ended_begun:
  assumes "graph_ok g" and "\<forall>m < tg_size g. indeg g m < 2 ^ 32" and "lts_run (tg_step step) (tg_start g k init) ls s"
  shows "GEnd n \<in> set ls \<Longrightarrow> GBegin n \<in> set ls"
proof -
  have "tally ended_nodes ls \<subseteq># tally begun_nodes ls"
    using exec_run [OF assms(1,2) graph_run_abs [OF assms(3), THEN conjunct1]]
    by (auto simp: exec_inv_def intro!: sum_over_mono body_begun_ended)
  then show "GEnd n \<in> set ls \<Longrightarrow> GBegin n \<in> set ls" by (metis begun_iff ended_iff mset_subset_eqD)
qed

text \<open>A node takes its number once, inside its callable, and after its predecessors took theirs.\<close>

lemma ticked_order:
  assumes ok: "graph_ok g" and small: "\<forall>m < tg_size g. indeg g m < 2 ^ 32"
  shows "ticked ls T \<Longrightarrow> lts_run (tg_step step) (tg_start g k init) ls s \<Longrightarrow>
    distinct T \<and> (\<forall>n. n \<in> set T \<longrightarrow> GBegin n \<in> set ls) \<and> (\<forall>n. GEnd n \<in> set ls \<longrightarrow> n \<in> set T)
      \<and> (\<forall>p n. n \<in> set (succs g p) \<longrightarrow> n \<in> set T \<longrightarrow> p \<in> set T \<and> stamp T p < stamp T n)"
proof (induction arbitrary: s rule: ticked.induct)
  case (ticked_move ls T l)
  from lts_run_prefix [OF ticked_move.prems] obtain s1 where "lts_run (tg_step step) (tg_start g k init) ls s1" by blast
  from ticked_move.IH [OF this] ticked_move.hyps(2) show ?case by auto
next
  case (ticked_tick ls T n)
  note ih = ticked_tick.IH [OF ticked_tick.prems]
  obtain ls1 ls2 where ls: "ls = (ls1 @ [GBegin n]) @ ls2" using ticked_tick.hyps(2) by (metis append.assoc append_Cons append_Nil split_list)
  obtain s1 where "lts_run (tg_step step) (tg_start g k init) (ls1 @ [GBegin n]) s1"
    using lts_run_prefix [OF ticked_tick.prems [unfolded ls]] by blast
  from graph_order [OF ok small this] have preds: "p \<in> set T" if "n \<in> set (succs g p)" for p
    using that ih by (auto simp: ls ended_iff)
  have "p \<in> set (T @ [n]) \<and> stamp (T @ [n]) p < stamp (T @ [n]) m"
    if "m \<in> set (succs g p)" "m \<in> set (T @ [n])" for p m
  proof (cases "m = n")
    case True
    with preds that ticked_tick.hyps(4) show ?thesis by (simp add: stamp_new)
  next
    case False
    then have "m \<in> set T" using that(2) by simp
    moreover have "p \<in> set T \<and> stamp T p < stamp T m" using ih that(1) calculation by blast
    ultimately show ?thesis by (simp add: stamp_snoc)
  qed
  with ih ticked_tick.hyps show ?case by auto
qed simp

lemma ticked_exists:
  assumes ok: "graph_ok g" and small: "\<forall>m < tg_size g. indeg g m < 2 ^ 32"
    and "lts_run (tg_step step) (tg_start g k init) ls s"
  shows "\<exists>T. ticked ls T"
  using assms(3)
proof (induction rule: lts_run.induct)
  case run_nil
  then show ?case by (blast intro: ticked_start)
next
  case (run_snoc ls s l s')
  then obtain T where T: "ticked ls T" by blast
  show ?case
  proof (cases "\<exists>n. l = GEnd n \<and> n \<notin> set T")
    case True
    then obtain n where l: "l = GEnd n" "n \<notin> set T" by blast
    from ended_begun [OF ok small lts_run.run_snoc [OF run_snoc.hyps(1,2)], of n] l(1) have "GBegin n \<in> set ls" by simp
    moreover have "GEnd n \<notin> set ls" using ticked_order [OF ok small T run_snoc.hyps(1)] l(2) by blast
    ultimately have "ticked ls (T @ [n])" using T l(2) by (blast intro: ticked_tick)
    then have "ticked (ls @ [l]) (T @ [n])" by (rule ticked_move) (simp add: l(1))
    then show ?thesis by blast
  next
    case False
    with T show ?thesis by (blast intro: ticked_move)
  qed
qed

text \<open>When \<open>execute\<close> has returned on an acyclic graph, every node has its number, in the order of the edges.\<close>

lemma ticked_return:
  assumes ok: "graph_ok g" and small: "\<forall>m < tg_size g. indeg g m < 2 ^ 32" and "acyclic (edge g)"
    and run: "lts_run (tg_step step) (tg_start g k init) (ls @ [GReturn]) s" and T: "ticked ls T"
  shows "distinct T \<and> set T = {..<tg_size g} \<and> (\<forall>p n. n \<in> set (succs g p) \<longrightarrow> stamp T p < stamp T n)"
proof -
  from graph_return [OF ok small run] acyclic_all_released [OF assms(3)]
  have all: "GEnd n \<in> set ls \<longleftrightarrow> n < tg_size g" "GBegin n \<in> set ls \<longleftrightarrow> n < tg_size g" for n
    by (simp_all flip: ended_iff begun_iff)
  obtain s1 where "lts_run (tg_step step) (tg_start g k init) ls s1" using lts_run_prefix [OF run] by blast
  note order = ticked_order [OF ok small T this]
  then have set: "set T = {..<tg_size g}" by (auto simp: all)
  have "n < tg_size g" if "n \<in> set (succs g p)" for p n using ok that by (auto simp: graph_ok_def)
  with order set show ?thesis by auto
qed

end

section \<open>The graphs of the tests\<close>

lemma indeg_le: "indeg g m \<le> sum_list (map (\<lambda>p. length (succs g p)) [0..<tg_size g])"
  unfolding indeg_eval by (rule sum_list_mono) (rule count_le_length)

definition ranked :: "(nat \<Rightarrow> nat) \<Rightarrow> graph \<Rightarrow> bool" where
  "ranked f g \<longleftrightarrow> list_all (\<lambda>p. list_all (\<lambda>n. f p < f n) (succs g p)) [0..<tg_size g]"

lemma ranked_acyclic: "ranked f g \<Longrightarrow> acyclic (edge g)"
proof (rule acyclicI_order [where f = "\<lambda>n. - int (f n)"])
  fix p n
  assume r: "ranked f g" and e: "(p, n) \<in> edge g"
  then have "p < tg_size g" by (auto simp: edge_def succs_def tg_size_def split: if_splits)
  with r e show "- int (f n) < - int (f p)" by (auto simp: ranked_def list_all_iff edge_def)
qed

definition test_graph :: "build_call list \<Rightarrow> graph" where
  "test_graph cs = the (tg_build cs)"

definition fork_join_rank :: "nat \<Rightarrow> nat" where
  "fork_join_rank n = (if n = 0 then 0 else if n = 1 then 2 else 1)"

lemma built: "tg_build linear_chain \<noteq> None" "tg_build diamond \<noteq> None" "tg_build (fork_join 64) \<noteq> None"
  by code_simp+

lemma sizes: "tg_size (test_graph linear_chain) = 4" "tg_size (test_graph diamond) = 4" "tg_size (test_graph (fork_join 64)) = 66"
  by code_simp+

lemma degrees:
  "sum_list (map (\<lambda>p. length (succs (test_graph linear_chain) p)) [0..<4]) = 3"
  "sum_list (map (\<lambda>p. length (succs (test_graph diamond) p)) [0..<4]) = 4"
  "sum_list (map (\<lambda>p. length (succs (test_graph (fork_join 64)) p)) [0..<66]) = 128"
  by code_simp+

lemma acyclics: "ranked id (test_graph linear_chain)" "ranked id (test_graph diamond)" "ranked fork_join_rank (test_graph (fork_join 64))"
  by code_simp+

lemma edges:
  "1 \<in> set (succs (test_graph linear_chain) 0)" "2 \<in> set (succs (test_graph linear_chain) 1)" "3 \<in> set (succs (test_graph linear_chain) 2)"
  "1 \<in> set (succs (test_graph diamond) 0)" "2 \<in> set (succs (test_graph diamond) 0)"
  "3 \<in> set (succs (test_graph diamond) 1)" "3 \<in> set (succs (test_graph diamond) 2)"
  "2 \<in> set (succs (test_graph (fork_join 64)) 0)" "1 \<in> set (succs (test_graph (fork_join 64)) 2)"
  by code_simp+

section \<open>Property\<close>

lemma dag_test_facts:
  assumes "(cs, ok) \<in> set dag_tests"
  shows "tg_build cs = Some (test_graph cs) \<and> tg_size (test_graph cs) \<le> 2 ^ kLog2Ring \<and> acyclic (edge (test_graph cs))
    \<and> (\<forall>m < tg_size (test_graph cs). indeg (test_graph cs) m < 2 ^ 32)"
proof -
  have small: "indeg (test_graph cs) m < 2 ^ 32" for m
    using indeg_le [of "test_graph cs" m] assms by (auto simp: dag_tests_def sizes degrees)
  have "acyclic (edge (test_graph cs))" using assms acyclics by (auto simp: dag_tests_def intro: ranked_acyclic)
  moreover have "tg_build cs = Some (test_graph cs)" 
    using assms built unfolding dag_tests_def test_graph_def by auto
  moreover have "tg_size (test_graph cs) \<le> 2 ^ kLog2Ring" using assms by (auto simp: dag_tests_def sizes kLog2Ring_def)
  ultimately show ?thesis using small by blast
qed

lemma dag_test_expected:
  assumes test: "(cs, ok) \<in> set dag_tests" and T: "distinct T" "set T = {..<tg_size (test_graph cs)}"
    and order: "\<And>p n. n \<in> set (succs (test_graph cs) p) \<Longrightarrow> stamp T p < stamp T n"
  shows "ok T"
proof -
  consider (chain) "cs = linear_chain" "ok = chain_expected" | (diamond) "cs = diamond" "ok = diamond_expected"
    | (fork) "cs = fork_join 64" "ok = fork_join_expected 64"
    using test by (auto simp: dag_tests_def)
  then show ?thesis
  proof cases
    case chain
    then show ?thesis using order edges by (simp add: chain_expected_def)
  next
    case diamond
    then show ?thesis using order edges by (simp add: diamond_expected_def)
  next
    case fork
    have "set T = {..<66}" using T(2) by (simp add: fork sizes)
    then have "set (filter (\<lambda>m. 2 \<le> m) T) = {2..<66}" by (intro set_eqI) (simp add: conj_commute)
    then have "length (filter (\<lambda>m. 2 \<le> m) T) = 64" using distinct_card [OF distinct_filter [OF T(1)], of "\<lambda>m. 2 \<le> m"] by simp
    moreover have "0 \<le> stamp T 0" using T(2) by (simp add: stamp_def fork sizes)
    moreover have "stamp T 0 < stamp T 2" "stamp T 2 < stamp T 1" using order edges by (simp_all add: fork)
    ultimately show ?thesis by (simp add: fork fork_join_expected_def)
  qed
qed

text \<open>C27. The graph tests cannot fail: the linear chain, the diamond and the fork-join graph, executed with four
  workers on any of the schedulers and in any interleaving, give their nodes numbers that satisfy
  what the test expects when \<open>execute\<close> has returned; and from every state some continuation
  returns, by the code alone unless \<open>run\<close> of the mutex class has missed its last notification.\<close>

theorem dag_tests_pass:
  assumes "make_scheduler nm = Some s0" and "(cs, ok) \<in> set dag_tests"
    and "lts_run (tg_step any_step) (tg_start (test_graph cs) 4 s0) ls s"
  shows "tg_build cs = Some (test_graph cs)
    \<and> (ls = ls1 @ [GReturn] \<longrightarrow> (\<exists>T. ticked ls1 T) \<and> (ticked ls1 T \<longrightarrow> ok T))
    \<and> (gs_driver s \<noteq> D_done \<longrightarrow> (\<exists>ls' s'.
         lts_run (tg_step (if any_missed (gs_sched s) then any_step else any_code)) s (ls' @ [GReturn]) s'))"
proof -
  obtain c where c: "s0 = any_init c" using make_class [OF assms(1)] by blast
  from dag_test_facts [OF assms(2)]
  have g: "tg_build cs = Some (test_graph cs)" and fits: "any_fits c (tg_size (test_graph cs))"
    and acyclic: "acyclic (edge (test_graph cs))" and small: "\<forall>m < tg_size (test_graph cs). indeg (test_graph cs) m < 2 ^ 32"
    by (simp_all add: any_fits_def)
  note run = assms(3) [unfolded c]
  note ok = build_ok [OF g]
  have "(\<exists>T. ticked ls1 T) \<and> (ticked ls1 T \<longrightarrow> ok T)" if "ls = ls1 @ [GReturn]"
  proof -
    note ret = run [unfolded that]
    obtain s1 where "lts_run (tg_step any_step) (tg_start (test_graph cs) 4 (any_init c)) ls1 s1" using lts_run_prefix [OF ret] by blast
    from anyg.ticked_exists [OF ok small this] anyg.ticked_return [OF ok small acyclic ret]
    show ?thesis using dag_test_expected [OF assms(2)] by blast
  qed
  moreover have "\<exists>ls' s'. lts_run (tg_step (steps_needed (gs_sched s))) s (ls' @ [GReturn]) s'" if "gs_driver s \<noteq> D_done"
  proof -
    have ends: "l = GReturn" if "lts_run (tg_step any_step) (tg_start (test_graph cs) 4 s0) (ls @ [l]) s" "l \<in> {GReturn, GFail}" for ls l s
      using any_graph_end(4) [OF assms(1) g small that] that(2) acyclic acyclic_iff_all_acc [of "test_graph cs"] by auto
    have "gs_driver s \<noteq> D_failed"
    proof
      assume "gs_driver s = D_failed"
      from over_label [OF assms(3) this] obtain ls2 ls3 where ls: "ls = (ls2 @ [GFail]) @ ls3" by (auto simp: in_set_conv_decomp)
      from lts_run_prefix [OF assms(3) [unfolded ls]] obtain s2
        where "lts_run (tg_step any_step) (tg_start (test_graph cs) 4 s0) (ls2 @ [GFail]) s2" ..
      from ends [OF this] show False by simp
    qed
    with that have going: "\<not> over (gs_driver s)" by (cases "gs_driver s") simp_all
    have "tg_size (test_graph cs) \<le> 2 ^ kLog2Ring" using dag_test_facts [OF assms(2)] by blast
    from any_execution_ends [OF assms(1) g small _ this assms(3) going] acyclic show ?thesis by simp
  qed
  ultimately show ?thesis using g unfolding steps_needed_def by blast
qed

text \<open>The linear chain on the mutex class, four workers taking turns.\<close>

definition mq_chain :: "glabel list \<times> nat any_sched gsys" where
  "mq_chain = play (tg_do any_do) (concat (replicate 90 [Main, Worker 0, Worker 1, Worker 2, Worker 3]))
     (tg_start (test_graph linear_chain) 4 (any_init MutexQueue))"

theorem dag_tests_pass_witness: "last (fst mq_chain) = GReturn \<and> (\<exists>T. ticked (butlast (fst mq_chain)) T \<and> chain_expected T)"
proof -
  have ret: "fst mq_chain = butlast (fst mq_chain) @ [GReturn]" by code_simp
  have run: "lts_run (tg_step any_step) (tg_start (test_graph linear_chain) 4 (any_init MutexQueue)) (fst mq_chain) (snd mq_chain)"
    unfolding mq_chain_def by (rule tg_play [OF any_do_step])
  have "(linear_chain, chain_expected) \<in> set dag_tests" by (simp add: dag_tests_def)
  from dag_tests_pass [OF make_scheduler_of(1) this run, of "butlast (fst mq_chain)"] ret
  have "\<exists>T. ticked (butlast (fst mq_chain)) T \<and> chain_expected T" by blast
  moreover have "last (fst mq_chain) = GReturn" by (subst ret) simp
  ultimately show ?thesis by blast
qed

end
