(* ===== verification/Spec2Isabelle.thy ===== *)
theory Spec2Isabelle
  imports Prelude Circular_Array Chase_Lev_Deque Deque_Machine Deque_TSO Scheduler Mutex_Queue Task_Graph Graph_Execution
    Graph_Runs Ring_Queue Lockfree_Queue Work_Stealing Steal_Runs Any_Scheduler Workload Benchmark Scaling
    Progress Ring_Books Mutex_Progress Lockfree_Progress Steal_Progress Live_Clients Graph_Progress
    Text_Output Reports Self_Tests Graph_Tests
begin

text \<open>
  A verification library for the work-stealing task runtime (namespace \<^verbatim>\<open>tsr\<close>): a lock-free
  deque, three task schedulers behind one interface, a task graph on top of them, and the
  benchmark and test programs.

  \<^bold>\<open>The program.\<close> \<^verbatim>\<open>include/chase_lev_deque.hpp\<close> is a Chase-Lev deque over a growing
  \<^verbatim>\<open>CircularArray\<close>. \<^verbatim>\<open>include/scheduler.hpp\<close> and \<^verbatim>\<open>include/task.hpp\<close> are the interface
  \<^verbatim>\<open>IScheduler\<close> (\<open>submit\<close>, \<open>run\<close>, \<open>name\<close>) and the tasks, whose callables get the scheduler
  and may submit further tasks. Three classes implement it:
  \<^verbatim>\<open>include/mutex_queue_scheduler.hpp\<close> (one queue under a mutex, two condition variables),
  \<^verbatim>\<open>include/lockfree_queue_scheduler.hpp\<close> (one ring with sequence numbers) and
  \<^verbatim>\<open>include/work_stealing_scheduler.hpp\<close> (a Chase-Lev deque per worker, an injection queue).
  \<^verbatim>\<open>include/task_graph.hpp\<close> executes a graph of nodes on any of them: a node's task counts down
  its successors and submits those that become ready. \<^verbatim>\<open>include/benchmark.hpp\<close>,
  \<^verbatim>\<open>bench/main.cpp\<close> and \<^verbatim>\<open>bench/scaling.cpp\<close> are workloads, measurements and tables;
  \<^verbatim>\<open>src/tests.cpp\<close> has the tests.

  \<^bold>\<open>The theories.\<close>
  \<^item> \<open>Prelude\<close>: labelled step systems and their finite runs, replays of schedules, sums over
    lists, and the locale \<open>task_pool\<close> of systems that take tasks in and hand them out.
  \<^item> \<open>Circular_Array\<close>, \<open>Chase_Lev_Deque\<close>: the array and the deque's operations, each run
    alone; they refine a list.
  \<^item> \<open>Deque_Machine\<close>: the same operations one shared access at a time, one owner and any number
    of thieves interleaved; invariant, refinement of an abstract deque, conservation of tasks, what the
    results mean, and bounds of the indices. The growth of the array is one step there.
  \<^item> \<open>Deque_TSO\<close>: the same steps on a machine whose owner has a store buffer, as x86 processors have,
    and waits at the fence of \<open>pop_bottom\<close> until it is empty; it still implements the abstract deque.
  \<^item> \<open>Scheduler\<close>: the contract of \<open>submit\<close> and \<open>run\<close> as the step system \<open>sched_spec\<close>, and the
    locale \<open>scheduler\<close> of implementations, with what follows for each.
  \<^item> \<open>Mutex_Queue\<close>; \<open>Ring_Queue\<close> and \<open>Lockfree_Queue\<close>; \<open>Work_Stealing\<close> and \<open>Steal_Runs\<close>:
    the three classes, each with its invariant and its interpretation of the locale, and what is
    particular to it (lock discipline and the lost wake-up; exclusive slots and exact counters;
    the deques as runs of \<open>Deque_Machine\<close>, the choice of victims, the two misuses).
  \<^item> \<open>Any_Scheduler\<close>: the reference type as the sum of the three, \<open>name\<close> and the factory.
  \<^item> \<open>Task_Graph\<close>: building a graph. \<open>Graph_Execution\<close>: executing it on a scheduler that keeps
    the contract (locale \<open>node_scheduler\<close>). \<open>Graph_Runs\<close>: the results for all three classes.
  \<^item> \<open>Workload\<close>: programs that submit known tasks, whose tasks spawn known tasks; on any
    scheduler the tasks executed are those and what they spawn.
  \<^item> \<open>Progress\<close>: the locale \<open>live_scheduler\<close> of implementations that can always go on, but for states
    named as lost. \<open>Mutex_Progress\<close>, \<open>Ring_Books\<close> and \<open>Lockfree_Progress\<close>, \<open>Steal_Progress\<close>: its
    interpretation for each class, and the full ring on which the lock-free one cannot.
    \<open>Live_Clients\<close>: what clients get from it on any of the classes. \<open>Graph_Progress\<close>: that
    \<open>execute\<close> can come to its end. Liveness here means that some continuation gets there from every
    state, not that every fair continuation does. The continuation is one of the code (\<open>any_code\<close>): the
    mutex class needs its notifications for it, and no spurious wake-up. The one exception are the
    states in which \<open>run\<close> of that class has missed the last notification of \<^verbatim>\<open>done_cv_\<close> (\<open>any_missed\<close>, reached in
    \<open>mutex_lost_wakeup\<close>): the code does not lead out of them, a spurious wake-up does. A client that
    waits in \<open>submit\<close> has to agree with the scheduler on progress; the locale \<open>calling_scheduler\<close> is
    the contract for it.
  \<^item> \<open>Benchmark\<close>, \<open>Scaling\<close>: scenarios, suites, the sweep over thread counts, the pipeline
    graph, medians, rows and lookups.
  \<^item> \<open>Text_Output\<close>: the output stream with its format state, and a reader of columns. \<open>Reports\<close>:
    \<^verbatim>\<open>main\<close> of both benchmark programs, printing included; what they print can be read back.
  \<^item> \<open>Self_Tests\<close>, \<open>Graph_Tests\<close>: the tests of the deque and the schedulers, and of the task
    graph; no expectation can fail.

  \<^bold>\<open>How state corresponds.\<close> A class is a record with a field for each member it uses; a thread is
  a program counter with its local variables, one constructor for each place between two
  accesses to shared state. The step functions (\<open>push_step\<close>, \<open>mq_worker_step\<close>, \<open>enq_step\<close>,
  \<open>ws_worker_step\<close>, \<open>body_step\<close> and the like) are the code from one such place to the next; the
  inductive relations (\<open>dq_step\<close>, \<open>mq_step\<close>, \<open>lf_step\<close>, \<open>ws_step\<close>, \<open>tg_step\<close>) let any thread
  take its next step, so a theorem about all their runs is about all interleavings. A task is
  its identity; what its callable does besides calling \<open>submit\<close> is not looked at. The workers of
  a \<open>run\<close> are numbered from 0, which is also \<^verbatim>\<open>WorkerCtx::id\<close>.

  \<^bold>\<open>Bounds.\<close> The ring has \<open>2 ^ k\<close> slots for any \<open>k \<ge> 1\<close> (17 in the program), the numbers of
  workers, tasks and thieves are arbitrary. The deque's indices and \<^verbatim>\<open>pending_\<close> are unbounded
  integers; \<open>deque_indices_bounded\<close> bounds the former by the number of pushes. The ring's cursors
  and sequence numbers are unbounded as well, and \<open>lockfree_counters_exact\<close> says when the code's
  64-bit difference is the model's. Backoff, random numbers, thread counts and the sweep are
  32-bit words, task counts 64-bit words. The sum in the scan for a victim wraps at 32 bits; the
  test by which \<open>submit\<close> of the work-stealing class tells its workers from other threads (\<open>worker_test\<close>) is
  right for fewer than \<open>2 ^ 31\<close> workers, and the model takes it so. The reports are read back
  for times between a millisecond and 1000 seconds and fewer than \<open>10 ^ 8\<close> processors. The loop of the sweep is a \<open>partial_function\<close>: not
  ending is \<open>None\<close>. No other definition needs fuel: loops that wait for other threads are steps
  back to the same place.

  \<^bold>\<open>Errors.\<close> Assertions are those of a build without \<^verbatim>\<open>NDEBUG\<close>, as the test targets of \<^verbatim>\<open>CMakeLists.txt\<close>
  are: where one of \<open>node\<close> or \<open>depends_on\<close> fails, building the graph is \<open>None\<close>; where the one at the end of
  \<open>execute\<close> fails, which it does on a graph with a cycle, the execution ends with the label \<open>GFail\<close> instead
  of \<open>GReturn\<close>. The benchmark targets define \<^verbatim>\<open>NDEBUG\<close>: there \<open>execute\<close> returns in the same state. \<open>std::abort\<close> of the factory is \<open>None\<close>;
  undefined behaviour (an index into an empty vector, \<open>back()\<close> of an empty vector) is \<open>None\<close> or
  the absence of a step, and the theorems say when it is reached.

  \<^bold>\<open>Not modelled.\<close> Interleavings are sequentially consistent: the memory orders given to the
  atomic operations are taken as if all were \<^verbatim>\<open>seq_cst\<close>. \<open>Deque_TSO\<close> is the exception: there stores
  are delayed as x86 processors delay them. Nothing is said about orders weaker than these.
  Memory is never exhausted and no exception is thrown. \<^verbatim>\<open>std::mt19937\<close> may return any 32-bit
  number, so its seed is left out. \<^verbatim>\<open>tl_worker_id_\<close> is the worker's number inside a worker and -1
  outside; one thread is not a worker of two schedulers. Cache-line alignment and padding have no
  effect on results. Clocks are parameters (the measured times), and real numbers stand for
  \<^verbatim>\<open>double\<close>s. A \<^verbatim>\<open>double\<close> printed in a stream's general notation is not modelled; the programs
  print none. The discarded arithmetic inside the benchmark tasks, the function \<^verbatim>\<open>expect\<close> of the
  tests, which prints or aborts, and the build files are left out.
\<close>

end
